(* ===== verification/Prelude.thy ===== *)
theory Prelude
  imports Main "HOL-Library.Word"
begin

unbundle bit_operations_syntax

text \<open>
  The shared vocabulary of the development: the C integer types, the kernel's configuration
  constants (\<^verbatim>\<open>param.h\<close>, \<^verbatim>\<open>memlayout.h\<close>, \<^verbatim>\<open>fs.h\<close>, \<^verbatim>\<open>buf.h\<close>, \<^verbatim>\<open>stat.h\<close>,
  \<^verbatim>\<open>fcntl.h\<close>), the outcome type of kernel code, little-endian access to byte arrays and to
  byte-addressed memory, and the generic lemmas on lists and words that the components use.
\<close>

named_theorems const_simps \<open>values of the kernel's configuration constants\<close>
named_theorems word_facts \<open>facts about bits and bytes of machine words\<close>

subsection \<open>C integer types\<close>

type_synonym uint = "32 word"
type_synonym ushort = "16 word"
type_synonym uchar = "8 word"
type_synonym block = "uchar list"
type_synonym memory = "uint \<Rightarrow> uchar"

subsection \<open>Configuration constants\<close>

definition NPROC :: nat where "NPROC = 64"
definition KSTACKSIZE :: nat where "KSTACKSIZE = 4096"
definition NCPU :: nat where "NCPU = 8"
definition NOFILE :: nat where "NOFILE = 16"
definition NFILE :: nat where "NFILE = 100"
definition NINODE :: nat where "NINODE = 50"
definition NDEV :: nat where "NDEV = 10"
definition ROOTDEV :: uint where "ROOTDEV = 1"
definition MAXARG :: nat where "MAXARG = 32"
definition MAXOPBLOCKS :: nat where "MAXOPBLOCKS = 10"
definition LOGSIZE :: nat where "LOGSIZE = MAXOPBLOCKS * 3"
definition NBUF :: nat where "NBUF = MAXOPBLOCKS * 3"
definition FSSIZE :: nat where "FSSIZE = 1000"

definition EXTMEM :: uint where "EXTMEM = 0x100000"
definition PHYSTOP :: uint where "PHYSTOP = 0xE000000"
definition DEVSPACE :: uint where "DEVSPACE = 0xFE000000"
definition KERNBASE :: uint where "KERNBASE = 0x80000000"
definition KERNLINK :: uint where "KERNLINK = KERNBASE + EXTMEM"

definition V2P :: "uint \<Rightarrow> uint" where "V2P a = a - KERNBASE"
definition P2V :: "uint \<Rightarrow> uint" where "P2V a = a + KERNBASE"

definition PGSIZE :: uint where "PGSIZE = 4096"
definition PGROUNDUP :: "uint \<Rightarrow> uint" where "PGROUNDUP sz = (sz + PGSIZE - 1) AND NOT (PGSIZE - 1)"
definition PGROUNDDOWN :: "uint \<Rightarrow> uint" where "PGROUNDDOWN a = a AND NOT (PGSIZE - 1)"

definition BSIZE :: nat where "BSIZE = 512"
definition B_VALID :: uint where "B_VALID = 0x2"
definition B_DIRTY :: uint where "B_DIRTY = 0x4"

declare NPROC_def [const_simps] KSTACKSIZE_def [const_simps] NCPU_def [const_simps]
  NOFILE_def [const_simps] NFILE_def [const_simps] NINODE_def [const_simps]
  NDEV_def [const_simps] ROOTDEV_def [const_simps] MAXARG_def [const_simps]
  MAXOPBLOCKS_def [const_simps] LOGSIZE_def [const_simps] NBUF_def [const_simps]
  FSSIZE_def [const_simps] EXTMEM_def [const_simps] PHYSTOP_def [const_simps]
  DEVSPACE_def [const_simps] KERNBASE_def [const_simps] KERNLINK_def [const_simps]
  PGSIZE_def [const_simps] BSIZE_def [const_simps] B_VALID_def [const_simps]
  B_DIRTY_def [const_simps]

lemma V2P_P2V [simp]: "V2P (P2V a) = a" and P2V_V2P [simp]: "P2V (V2P a) = a"
  by (simp_all add: V2P_def P2V_def)

subsection \<open>Outcomes of kernel code\<close>

text \<open>
  A kernel function returns, panics with a message, dereferences a pointer that points at
  nothing, or cannot go on until another CPU or process acts: it spins on a spinlock, or it
  sleeps on a channel.  \<open>Hang\<close> is a loop that never ends.  Spinlocks and channels are named by
  the object that holds them.
\<close>

datatype sleepid = BufLock nat | InodeLock nat

datatype lockid = PtableLock | KmemLock | BcacheLock | LogLock | IcacheLock | FtableLock
  | ConsLock | TicksLock | IdeLock | PipeLk nat | SleepLk sleepid

datatype chan = ChSleep sleepid | ChProc nat | ChLog | ChTicks | ChInput | ChBuf nat
  | ChPipeRead nat | ChPipeWrite nat

datatype wait = Spins lockid | Sleeps chan

datatype 'a result = Ret 'a | Panic string | Wait wait | Fault | Hang

primrec rbind :: "'a result \<Rightarrow> ('a \<Rightarrow> 'b result) \<Rightarrow> 'b result" where
  "rbind (Ret x) f = f x"
| "rbind (Panic m) f = Panic m"
| "rbind (Wait w) f = Wait w"
| "rbind Fault f = Fault"
| "rbind Hang f = Hang"

primrec returns :: "'a result \<Rightarrow> bool" where
  "returns (Ret x) = True"
| "returns (Panic m) = False"
| "returns (Wait w) = False"
| "returns Fault = False"
| "returns Hang = False"

lemma rbind_assoc: "rbind (rbind m f) g = rbind m (\<lambda>x. rbind (f x) g)"
  by (cases m) simp_all

lemma rbind_cong [fundef_cong]:
  "m = m' \<Longrightarrow> (\<And>x. m' = Ret x \<Longrightarrow> f x = g x) \<Longrightarrow> rbind m f = rbind m' g"
  by (cases m') simp_all

lemma rbind_eq_Ret: "rbind m f = Ret y \<longleftrightarrow> (\<exists>x. m = Ret x \<and> f x = Ret y)"
  by (cases m) simp_all

lemma returns_iff: "returns m \<longleftrightarrow> (\<exists>x. m = Ret x)"
  by (cases m) simp_all

lemma rbind_RetE:
  assumes "rbind m f = Ret y"
  obtains x where "m = Ret x" and "f x = Ret y"
  using assms by (auto simp: rbind_eq_Ret)

subsection \<open>Lists\<close>

text \<open>\<open>find_idx P xs\<close> is the position a C loop over an array stops at.\<close>

fun find_idx :: "('a \<Rightarrow> bool) \<Rightarrow> 'a list \<Rightarrow> nat option" where
  "find_idx P [] = None"
| "find_idx P (x # xs) = (if P x then Some 0 else map_option Suc (find_idx P xs))"

lemma find_idx_Some:
  "find_idx P xs = Some i \<longleftrightarrow> i < length xs \<and> P (xs ! i) \<and> (\<forall>j < i. \<not> P (xs ! j))"
proof (induction xs arbitrary: i)
  case (Cons x xs)
  then show ?case by (cases i) (auto simp: less_Suc_eq_0_disj)
qed simp

lemma find_idx_None: "find_idx P xs = None \<longleftrightarrow> (\<forall>x \<in> set xs. \<not> P x)"
  by (induction xs) auto

lemma list_update_idem [simp]: "xs[i := y, i := z] = xs[i := z]"
  by simp

definition splice :: "'a list \<Rightarrow> nat \<Rightarrow> 'a list \<Rightarrow> 'a list" where
  "splice d off src = take off d @ src @ drop (off + length src) d"

lemma length_splice [simp]: "off + length src \<le> length d \<Longrightarrow> length (splice d off src) = length d"
  by (simp add: splice_def)

lemma splice_nth:
  assumes "off + length src \<le> length d" "i < length d"
  shows "splice d off src ! i =
    (if off \<le> i \<and> i < off + length src then src ! (i - off) else d ! i)"
  using assms by (auto simp: splice_def nth_append min_def)

lemma take_drop_splice:
  assumes "off + length src \<le> length d"
  shows "take (length src) (drop off (splice d off src)) = src"
  using assms by (simp add: splice_def min_def)

lemma splice_Nil [simp]: "splice d off [] = d"
  by (simp add: splice_def)

subsection \<open>Bytes of words\<close>

definition byte_of :: "nat \<Rightarrow> uint \<Rightarrow> uchar" where
  "byte_of i w = ucast (drop_bit (8 * i) w)"

definition le32 :: "uint \<Rightarrow> uchar list" where
  "le32 w = [byte_of 0 w, byte_of 1 w, byte_of 2 w, byte_of 3 w]"

definition un32 :: "uchar \<Rightarrow> uchar \<Rightarrow> uchar \<Rightarrow> uchar \<Rightarrow> uint" where
  "un32 a b c d = ucast a OR push_bit 8 (ucast b) OR push_bit 16 (ucast c) OR push_bit 24 (ucast d)"

lemma length_le32 [simp]: "length (le32 w) = 4"
  by (simp add: le32_def)

lemma bit_byte_of: "bit (byte_of i w) n \<longleftrightarrow> n < 8 \<and> bit w (8 * i + n)"
  by (simp add: byte_of_def bit_simps)

lemma un32_byte_of [word_facts, simp]:
  "un32 (byte_of 0 w) (byte_of (Suc 0) w) (byte_of 2 w) (byte_of 3 w) = w"
proof (rule bit_word_eqI)
  fix n assume "n < LENGTH(32)"
  then have "n < 32" by simp
  then consider "n < 8" | "8 \<le> n" "n < 16" | "16 \<le> n" "n < 24" | "24 \<le> n" "n < 32"
    by linarith
  then show "bit (un32 (byte_of 0 w) (byte_of (Suc 0) w) (byte_of 2 w) (byte_of 3 w)) n = bit w n"
    by cases (auto simp: un32_def bit_simps bit_byte_of)
qed

lemma byte_of_un32 [word_facts, simp]:
  "byte_of 0 (un32 a b c d) = a" "byte_of (Suc 0) (un32 a b c d) = b"
  "byte_of 2 (un32 a b c d) = c" "byte_of 3 (un32 a b c d) = d"
  by (rule bit_word_eqI; auto simp: un32_def bit_simps bit_byte_of dest: bit_imp_le_length)+

definition get32 :: "uchar list \<Rightarrow> nat \<Rightarrow> uint" where
  "get32 d off = un32 (d ! off) (d ! (off + 1)) (d ! (off + 2)) (d ! (off + 3))"

definition put32 :: "uchar list \<Rightarrow> nat \<Rightarrow> uint \<Rightarrow> uchar list" where
  "put32 d off w = d[off := byte_of 0 w, off + 1 := byte_of 1 w,
                     off + 2 := byte_of 2 w, off + 3 := byte_of 3 w]"

lemma length_put32 [simp]: "length (put32 d off w) = length d"
  by (simp add: put32_def)

lemma get32_put32 [simp]: "off + 4 \<le> length d \<Longrightarrow> get32 (put32 d off w) off = w"
  by (simp add: get32_def put32_def)

lemma get32_put32_other:
  "off' + 4 \<le> off \<or> off + 4 \<le> off' \<Longrightarrow> get32 (put32 d off w) off' = get32 d off'"
  by (auto simp: get32_def put32_def)

lemma put32_nth_other: "i < off \<or> off + 4 \<le> i \<Longrightarrow> put32 d off w ! i = d ! i"
  by (auto simp: put32_def)

subsection \<open>Signed words\<close>

lemma sint_uint_32: "sint (xx :: uint) = (if uint xx < 2 ^ 31 then uint xx else uint xx - 2 ^ 32)"
proof -
  have "sint xx = (uint xx + 2 ^ 31) mod 2 ^ 32 - 2 ^ 31"
    using int_word_sint [of "uint xx", where 'a = 32] by simp
  moreover have "0 \<le> uint xx" "uint xx < 2 ^ 32" using uint_lt2p [of xx] by simp_all
  ultimately show ?thesis
    using minus_mod_self2 [of "uint xx + 2 ^ 31" "2 ^ 32", symmetric]
    by (cases "uint xx < 2 ^ 31") (simp_all add: mod_pos_pos_trivial)
qed

lemma sint_small_32: "unat (w::uint) < 2 ^ 31 \<Longrightarrow> sint w = int (unat w)"
  using sint_uint_32 [of w] by (simp add: uint_nat del: of_nat_unat split: if_splits)

subsection \<open>Page arithmetic\<close>

lemma and_not_mask: "(a::uint) AND NOT (mask 12) = a - take_bit 12 a"
proof -
  have "a - take_bit 12 a = a AND NOT (take_bit 12 a)"
    by (rule disjunctive_diff [symmetric, THEN sym]) (simp add: bit_take_bit_iff)
  also have "\<dots> = a AND NOT (mask 12)"
    by (rule bit_word_eqI) (auto simp: bit_and_iff bit_not_iff bit_take_bit_iff bit_mask_iff)
  finally show ?thesis by simp
qed

lemma unat_PGROUNDDOWN: "unat (PGROUNDDOWN a) = 4096 * (unat a div 4096)"
proof -
  have m: "PGSIZE - 1 = mask 12" by (simp add: PGSIZE_def mask_eq_exp_minus_1)
  have t: "unat (take_bit 12 a) = unat a mod 4096" by (simp add: take_bit_eq_mod unat_mod)
  then have "take_bit 12 a \<le> a" by (simp add: word_le_nat_alt)
  then have "unat (PGROUNDDOWN a) = unat a - unat a mod 4096"
    unfolding PGROUNDDOWN_def m and_not_mask by (simp add: unat_sub t)
  then show ?thesis by (simp add: minus_mod_eq_mult_div)
qed

lemma unat_PGROUNDUP:
  assumes "unat a + 4095 < 2 ^ 32"
  shows "unat (PGROUNDUP a) = 4096 * ((unat a + 4095) div 4096)"
proof -
  have e: "a + PGSIZE - 1 = a + 4095" by (simp add: PGSIZE_def)
  have "PGROUNDUP a = PGROUNDDOWN (a + 4095)" unfolding PGROUNDUP_def PGROUNDDOWN_def e ..
  moreover have "unat (a + 4095) = unat a + 4095" using assms by (simp add: unat_word_ariths)
  ultimately show ?thesis by (simp add: unat_PGROUNDDOWN)
qed

lemma PGROUNDUP_aligned:
  assumes "unat a + 4095 < 2 ^ 32" "unat a mod 4096 = 0"
  shows "PGROUNDUP a = a"
proof -
  have "unat a = 4096 * (unat a div 4096)" using assms(2) mult_div_mod_eq [of 4096 "unat a"] by simp
  then obtain k where k: "unat a = 4096 * k" by blast
  have "(4096 * k + 4095) div 4096 = k" by simp
  then show ?thesis using unat_PGROUNDUP [OF assms(1)] k by (simp add: word_unat_eq_iff)
qed

lemma unat_add_of_nat: "unat (a::uint) + n < 2 ^ 32 \<Longrightarrow> unat (a + of_nat n) = unat a + n"
  by (simp add: unat_word_ariths unat_of_nat)

subsection \<open>Byte-addressed memory\<close>

definition load32 :: "memory \<Rightarrow> uint \<Rightarrow> uint" where
  "load32 m a = un32 (m a) (m (a + 1)) (m (a + 2)) (m (a + 3))"

definition store32 :: "memory \<Rightarrow> uint \<Rightarrow> uint \<Rightarrow> memory" where
  "store32 m a w = m(a := byte_of 0 w, a + 1 := byte_of 1 w,
                     a + 2 := byte_of 2 w, a + 3 := byte_of 3 w)"

lemma load32_store32 [simp]: "load32 (store32 m a w) a = w"
  by (simp add: load32_def store32_def)

lemma store32_other: "x \<notin> {a, a + 1, a + 2, a + 3} \<Longrightarrow> store32 m a w x = m x"
  by (simp add: store32_def)

lemma load32_cong:
  "(\<And>x. x \<in> {a, a + 1, a + 2, a + 3} \<Longrightarrow> m x = m' x) \<Longrightarrow> load32 m a = load32 m' a"
  by (simp add: load32_def)

subsection \<open>Invariants of step relations\<close>

text \<open>
  The contract between a component's step relation and its invariant, shared by every
  component whose operations interleave.
\<close>

locale invariant_system =
  fixes init :: "'s \<Rightarrow> bool" and step :: "'s \<Rightarrow> 's \<Rightarrow> bool" and inv :: "'s \<Rightarrow> bool"
  assumes init_inv: "init s \<Longrightarrow> inv s"
    and step_inv: "step s t \<Longrightarrow> inv s \<Longrightarrow> inv t"
begin

lemma run_inv: "step\<^sup>*\<^sup>* s t \<Longrightarrow> inv s \<Longrightarrow> inv t"
  by (induction rule: rtranclp_induct) (auto intro: step_inv)

lemma reach_inv: "init s \<Longrightarrow> step\<^sup>*\<^sup>* s t \<Longrightarrow> inv t"
  by (rule run_inv) (auto intro: init_inv)

end

text \<open>
  A bounded queue, seen through the list of its elements; the kernel's ring buffers are such
  queues.
\<close>

locale bounded_queue =
  fixes elems :: "'q \<Rightarrow> 'a list" and wf :: "'q \<Rightarrow> bool" and cap :: nat
    and enq :: "'a \<Rightarrow> 'q \<Rightarrow> 'q" and deq :: "'q \<Rightarrow> 'a \<times> 'q"
  assumes wf_cap: "wf q \<Longrightarrow> length (elems q) \<le> cap"
    and enq_elems: "wf q \<Longrightarrow> length (elems q) < cap \<Longrightarrow> elems (enq x q) = elems q @ [x] \<and> wf (enq x q)"
    and deq_elems: "wf q \<Longrightarrow> elems q \<noteq> [] \<Longrightarrow>
      fst (deq q) = hd (elems q) \<and> elems (snd (deq q)) = tl (elems q) \<and> wf (snd (deq q))"
begin

fun enqs :: "'a list \<Rightarrow> 'q \<Rightarrow> 'q" where
  "enqs [] q = q"
| "enqs (x # xs) q = enqs xs (enq x q)"

lemma enqs_elems:
  "wf q \<Longrightarrow> length (elems q) + length xs \<le> cap \<Longrightarrow> elems (enqs xs q) = elems q @ xs \<and> wf (enqs xs q)"
proof (induction xs arbitrary: q)
  case (Cons x xs)
  then show ?case using enq_elems [of q x] by simp
qed simp

fun deqs :: "nat \<Rightarrow> 'q \<Rightarrow> 'a list \<times> 'q" where
  "deqs 0 q = ([], q)"
| "deqs (Suc n) q =
     (if elems q = [] then ([], q) else case deq q of (x, q) \<Rightarrow> case deqs n q of (xs, q) \<Rightarrow> (x # xs, q))"

lemma deqs_elems:
  "wf q \<Longrightarrow> fst (deqs n q) = take n (elems q) \<and> elems (snd (deqs n q)) = drop n (elems q) \<and> wf (snd (deqs n q))"
proof (induction n arbitrary: q)
  case (Suc n)
  show ?case
  proof (cases "elems q")
    case (Cons y ys)
    obtain x r where d: "deq q = (x, r)" by (cases "deq q")
    then have r: "x = y" "elems r = ys" "wf r" using deq_elems [OF Suc.prems] Cons by simp_all
    then show ?thesis using Suc.IH [OF r(3)] Cons d by (cases "deqs n r") simp
  qed (use Suc.prems in simp)
qed simp

end

end
