(* ===== verification/Spinlock.thy ===== *)
theory Spinlock
  imports Prelude
begin

text \<open>
  Mutual exclusion (\<^verbatim>\<open>spinlock.c\<close>) and the per-CPU state it needs (\<^verbatim>\<open>struct cpu\<close> of
  \<^verbatim>\<open>proc.h\<close>, \<^verbatim>\<open>mycpu\<close> of \<^verbatim>\<open>proc.c\<close>).  The first half models the code as one CPU runs it: the
  nesting counter of \<^verbatim>\<open>pushcli\<close>/\<^verbatim>\<open>popcli\<close>, the panics, and a lock that is taken elsewhere
  as the outcome \<open>Wait (Spins l)\<close>.  The second half interleaves the memory accesses of any
  number of CPUs and proves mutual exclusion; it is what allows the other components to run a
  critical section in one piece.  The call stack that \<^verbatim>\<open>acquire\<close> records in \<^verbatim>\<open>lk->pcs\<close> is
  debugging output and is not part of the lock's state here.
\<close>

named_theorems lock_simps \<open>taking and giving back a lock, as rewriting\<close>

subsection \<open>State\<close>

record spinlock =
  locked :: uint
  lkname :: string
  lkcpu :: "nat option"

record cpu =
  apicid :: uchar
  ncli :: int
  intena :: bool
  cpu_proc :: "nat option"

record kcpu =
  cpus :: "cpu list"
  lapicid :: uchar
  eflags_IF :: bool
  spin :: "lockid \<Rightarrow> spinlock"

subsection \<open>Operations\<close>

definition mycpu :: "'a kcpu_scheme \<Rightarrow> nat result" where
  "mycpu s =
     (if eflags_IF s then Panic (''mycpu called with interrupts enabled'' @ [CHR 0x0A])
      else case find_idx (\<lambda>c. apicid c = lapicid s) (cpus s) of
        Some i \<Rightarrow> Ret i
      | None \<Rightarrow> Panic (''unknown apicid'' @ [CHR 0x0A]))"

definition initlock :: "lockid \<Rightarrow> string \<Rightarrow> 'a kcpu_scheme \<Rightarrow> 'a kcpu_scheme" where
  "initlock l name s = s\<lparr>spin := (spin s)(l := \<lparr>locked = 0, lkname = name, lkcpu = None\<rparr>)\<rparr>"

definition pushcli :: "'a kcpu_scheme \<Rightarrow> 'a kcpu_scheme result" where
  "pushcli s =
     (let eflags = eflags_IF s; s = s\<lparr>eflags_IF := False\<rparr>
      in rbind (mycpu s) (\<lambda>i.
         let c = cpus s ! i;
             c = (if ncli c = 0 then c\<lparr>intena := eflags\<rparr> else c)
         in Ret (s\<lparr>cpus := (cpus s)[i := c\<lparr>ncli := ncli c + 1\<rparr>]\<rparr>)))"

definition popcli :: "'a kcpu_scheme \<Rightarrow> 'a kcpu_scheme result" where
  "popcli s =
     (if eflags_IF s then Panic ''popcli - interruptible''
      else rbind (mycpu s) (\<lambda>i.
        let c = cpus s ! i; c = c\<lparr>ncli := ncli c - 1\<rparr>; s = s\<lparr>cpus := (cpus s)[i := c]\<rparr>
        in if ncli c < 0 then Panic ''popcli''
           else if ncli c = 0 \<and> intena c then Ret (s\<lparr>eflags_IF := True\<rparr>)
           else Ret s))"

definition holding :: "lockid \<Rightarrow> 'a kcpu_scheme \<Rightarrow> (bool \<times> 'a kcpu_scheme) result" where
  "holding l s =
     rbind (pushcli s) (\<lambda>s.
     rbind (mycpu s) (\<lambda>i.
     let r = (locked (spin s l) \<noteq> 0 \<and> lkcpu (spin s l) = Some i)
     in rbind (popcli s) (\<lambda>s. Ret (r, s))))"

text \<open>
  \<^verbatim>\<open>while(xchg(&lk->locked, 1) != 0)\<close> goes on at once when the lock is free, and spins for as
  long as another CPU holds it.
\<close>

definition acquire :: "lockid \<Rightarrow> 'a kcpu_scheme \<Rightarrow> 'a kcpu_scheme result" where
  "acquire l s =
     rbind (pushcli s) (\<lambda>s.
     rbind (holding l s) (\<lambda>(r, s).
     if r then Panic ''acquire''
     else if locked (spin s l) \<noteq> 0 then Wait (Spins l)
     else let s = s\<lparr>spin := (spin s)(l := (spin s l)\<lparr>locked := 1\<rparr>)\<rparr>
       in rbind (mycpu s) (\<lambda>i.
          Ret (s\<lparr>spin := (spin s)(l := (spin s l)\<lparr>lkcpu := Some i\<rparr>)\<rparr>))))"

definition release :: "lockid \<Rightarrow> 'a kcpu_scheme \<Rightarrow> 'a kcpu_scheme result" where
  "release l s =
     rbind (holding l s) (\<lambda>(r, s).
     if \<not> r then Panic ''release''
     else let s = s\<lparr>spin := (spin s)(l := (spin s l)\<lparr>lkcpu := None\<rparr>)\<rparr>;
              s = s\<lparr>spin := (spin s)(l := (spin s l)\<lparr>locked := 0\<rparr>)\<rparr>
       in popcli s)"

text \<open>
  A critical section: code between \<^verbatim>\<open>acquire(&lk)\<close> and the \<^verbatim>\<open>release(&lk)\<close> that every one of its
  exits passes.
\<close>

definition with_lock ::
  "lockid \<Rightarrow> ('a kcpu_scheme \<Rightarrow> ('b \<times> 'a kcpu_scheme) result) \<Rightarrow> 'a kcpu_scheme \<Rightarrow>
   ('b \<times> 'a kcpu_scheme) result" where
  "with_lock l body s =
     rbind (acquire l s) (\<lambda>s. rbind (body s) (\<lambda>(x, s). rbind (release l s) (\<lambda>s. Ret (x, s))))"

text \<open>The frame-pointer chain that \<^verbatim>\<open>getcallerpcs\<close> follows through the stack in memory.\<close>

fun caller_pcs :: "memory \<Rightarrow> nat \<Rightarrow> uint \<Rightarrow> uint list" where
  "caller_pcs m 0 ebp = []"
| "caller_pcs m (Suc k) ebp =
     (if ebp = 0 \<or> ebp < KERNBASE \<or> ebp = 0xffffffff then []
      else load32 m (ebp + 4) # caller_pcs m k (load32 m ebp))"

definition getcallerpcs :: "memory \<Rightarrow> uint \<Rightarrow> uint list" where
  "getcallerpcs m v =
     (let pcs = caller_pcs m 10 (v - 8) in pcs @ replicate (10 - length pcs) 0)"

subsection \<open>The state between critical sections\<close>

text \<open>
  \<open>cpu_ok s\<close>: the running CPU is known, its nesting count is not negative, interrupts are off
  while it is positive, and outside of every \<^verbatim>\<open>pushcli\<close> the saved flag agrees with the
  processor's.  \<open>lock_free l s\<close>: nobody holds \<open>l\<close>.
\<close>

definition this_cpu :: "'a kcpu_scheme \<Rightarrow> nat option" where
  "this_cpu s = find_idx (\<lambda>c. apicid c = lapicid s) (cpus s)"

definition nest_ok :: "'a kcpu_scheme \<Rightarrow> bool" where
  "nest_ok s = (case this_cpu s of None \<Rightarrow> False
     | Some i \<Rightarrow> 0 \<le> ncli (cpus s ! i) \<and> (0 < ncli (cpus s ! i) \<longrightarrow> \<not> eflags_IF s))"

definition cpu_ok :: "'a kcpu_scheme \<Rightarrow> bool" where
  "cpu_ok s \<longleftrightarrow> nest_ok s \<and>
     (ncli (cpus s ! the (this_cpu s)) = 0 \<longrightarrow> intena (cpus s ! the (this_cpu s)) = eflags_IF s)"

definition lock_free :: "lockid \<Rightarrow> 'a kcpu_scheme \<Rightarrow> bool" where
  "lock_free l s \<longleftrightarrow> locked (spin s l) = 0 \<and> lkcpu (spin s l) = None"

text \<open>The state inside a critical section, and the way back out of it.\<close>

definition acq :: "lockid \<Rightarrow> 'a kcpu_scheme \<Rightarrow> 'a kcpu_scheme" where
  "acq l s = (let i = the (this_cpu s); c = cpus s ! i in
     s\<lparr>cpus := (cpus s)[i := c\<lparr>ncli := ncli c + 1\<rparr>], eflags_IF := False,
       spin := (spin s)(l := (spin s l)\<lparr>locked := 1, lkcpu := Some i\<rparr>)\<rparr>)"

definition same_cpu :: "'a kcpu_scheme \<Rightarrow> 'a kcpu_scheme \<Rightarrow> bool" where
  "same_cpu s t \<longleftrightarrow> cpus s = cpus t \<and> lapicid s = lapicid t \<and> eflags_IF s = eflags_IF t \<and>
     spin s = spin t"

definition unacq :: "'a kcpu_scheme \<Rightarrow> 'a kcpu_scheme \<Rightarrow> 'a kcpu_scheme" where
  "unacq s t = t\<lparr>cpus := cpus s, lapicid := lapicid s, eflags_IF := eflags_IF s, spin := spin s\<rparr>"

subsection \<open>Lemmas on one CPU\<close>

lemma find_idx_map: "find_idx (\<lambda>x. P (f x)) xs = find_idx P (map f xs)"
  by (induction xs) auto

lemma this_cpu_map: "this_cpu s = find_idx (\<lambda>a. a = lapicid s) (map apicid (cpus s))"
  by (simp add: this_cpu_def find_idx_map [where f = apicid and P = "\<lambda>a. a = lapicid s", symmetric])

lemma this_cpu_less: "this_cpu s = Some i \<Longrightarrow> i < length (cpus s)"
  by (simp add: this_cpu_def find_idx_Some)

lemma this_cpu_upd:
  "apicid c = apicid (cpus s ! i) \<Longrightarrow> this_cpu (s\<lparr>cpus := (cpus s)[i := c]\<rparr>) = this_cpu s"
  by (simp add: this_cpu_map map_update) (metis list_update_id map_update)

lemma cpu_upd_comm [simp]: "c\<lparr>intena := a, ncli := b\<rparr> = c\<lparr>ncli := b, intena := a\<rparr>"
  by (cases c) simp

lemma kcpu_upd_comm [simp]:
  "s\<lparr>eflags_IF := b, cpus := cs\<rparr> = s\<lparr>cpus := cs, eflags_IF := b\<rparr>"
  "s\<lparr>spin := k, cpus := cs\<rparr> = s\<lparr>cpus := cs, spin := k\<rparr>"
  "s\<lparr>spin := k, eflags_IF := b\<rparr> = s\<lparr>eflags_IF := b, spin := k\<rparr>"
  by (cases s; simp)+

lemma cpu_upd_same [simp]:
  "ncli c = a \<Longrightarrow> c\<lparr>ncli := a\<rparr> = c" "intena c = b \<Longrightarrow> c\<lparr>intena := b\<rparr> = c"
  by (cases c; simp)+

lemma kcpu_upd_same [simp]:
  "cpus s = cs \<Longrightarrow> s\<lparr>cpus := cs\<rparr> = s" "eflags_IF s = b \<Longrightarrow> s\<lparr>eflags_IF := b\<rparr> = s"
  "spin s = k \<Longrightarrow> s\<lparr>spin := k\<rparr> = s"
  by (cases s; simp)+

lemma this_cpu_frame [simp]:
  "this_cpu (s\<lparr>eflags_IF := b\<rparr>) = this_cpu s" "this_cpu (s\<lparr>spin := k\<rparr>) = this_cpu s"
  by (simp_all add: this_cpu_def)

lemma mycpu_eq: "mycpu s = (if eflags_IF s then Panic (''mycpu called with interrupts enabled'' @ [CHR 0x0A])
   else case this_cpu s of Some i \<Rightarrow> Ret i | None \<Rightarrow> Panic (''unknown apicid'' @ [CHR 0x0A]))"
  by (simp add: mycpu_def this_cpu_def)

lemma nest_okE:
  assumes "nest_ok s"
  obtains i where "this_cpu s = Some i" "i < length (cpus s)" "0 \<le> ncli (cpus s ! i)"
    "0 < ncli (cpus s ! i) \<Longrightarrow> \<not> eflags_IF s"
  using assms by (auto simp: nest_ok_def this_cpu_less split: option.splits)

lemma cpu_okE:
  assumes "cpu_ok s"
  obtains i where "this_cpu s = Some i" "i < length (cpus s)" "0 \<le> ncli (cpus s ! i)"
    "0 < ncli (cpus s ! i) \<Longrightarrow> \<not> eflags_IF s"
    "ncli (cpus s ! i) = 0 \<Longrightarrow> intena (cpus s ! i) = eflags_IF s"
  using assms unfolding cpu_ok_def by (metis nest_okE option.sel)

text \<open>The state after \<^verbatim>\<open>pushcli\<close>, and \<^verbatim>\<open>popcli\<close> as its inverse.\<close>

definition push_state :: "'a kcpu_scheme \<Rightarrow> 'a kcpu_scheme" where
  "push_state s = (let i = the (this_cpu s); c = cpus s ! i in
     s\<lparr>cpus := (cpus s)[i := c\<lparr>ncli := ncli c + 1,
        intena := (if ncli c = 0 then eflags_IF s else intena c)\<rparr>], eflags_IF := False\<rparr>)"

definition settle :: "'a kcpu_scheme \<Rightarrow> 'a kcpu_scheme" where
  "settle s = (let i = the (this_cpu s); c = cpus s ! i in
     s\<lparr>cpus := (cpus s)[i := c\<lparr>intena := (if ncli c = 0 then eflags_IF s else intena c)\<rparr>]\<rparr>)"

lemma pushcli_Ret: "this_cpu s \<noteq> None \<Longrightarrow> pushcli s = Ret (push_state s)"
  by (auto simp: pushcli_def push_state_def mycpu_eq Let_def)

lemma settle_id [simp]: "cpu_ok s \<Longrightarrow> settle s = s"
  by (erule cpu_okE) (simp add: settle_def Let_def)

lemma this_cpu_push [simp]: "this_cpu (push_state s) = this_cpu s"
  by (simp add: push_state_def Let_def this_cpu_map map_update) (metis list_update_id map_update)

lemma popcli_push:
  assumes "nest_ok s"
  shows "popcli (push_state s) = Ret (settle s)"
  using assms
proof (rule nest_okE)
  fix i assume i: "this_cpu s = Some i" "i < length (cpus s)" "0 \<le> ncli (cpus s ! i)"
    "0 < ncli (cpus s ! i) \<Longrightarrow> \<not> eflags_IF s"
  have "mycpu (push_state s) = Ret i"
    using i(1) by (simp add: mycpu_eq) (simp add: push_state_def Let_def)
  then show ?thesis
    using i by (auto simp: popcli_def settle_def Let_def) (auto simp: push_state_def Let_def)
qed

lemma holding_Ret:
  assumes "nest_ok s" "this_cpu s = Some i"
  shows "holding l s = Ret (locked (spin s l) \<noteq> 0 \<and> lkcpu (spin s l) = Some i, settle s)"
proof -
  have m: "mycpu (push_state s) = Ret i"
    using assms by (simp add: mycpu_eq) (simp add: push_state_def Let_def)
  have "spin (push_state s) = spin s" by (simp add: push_state_def Let_def)
  with m popcli_push [OF assms(1)] assms(2) show ?thesis
    by (simp add: holding_def pushcli_Ret)
qed

lemma nest_ok_push:
  assumes "nest_ok s" shows "cpu_ok (push_state s)"
proof -
  from assms obtain i where i: "this_cpu s = Some i" "i < length (cpus s)"
    "0 \<le> ncli (cpus s ! i)" "0 < ncli (cpus s ! i) \<Longrightarrow> \<not> eflags_IF s"
    by (rule nest_okE) blast
  have "this_cpu (push_state s) = Some i" using i(1) by simp
  then show ?thesis
    using i by (auto simp: cpu_ok_def nest_ok_def push_state_def Let_def)
qed

lemma nest_ok_settle: "nest_ok s \<Longrightarrow> cpu_ok (settle s)"
proof (erule nest_okE)
  fix i assume i: "this_cpu s = Some i" "i < length (cpus s)"
    "0 \<le> ncli (cpus s ! i)" "0 < ncli (cpus s ! i) \<Longrightarrow> \<not> eflags_IF s"
  have "this_cpu (settle s) = Some i"
    using i(1) by (simp add: settle_def Let_def this_cpu_upd)
  then show ?thesis
    using i by (auto simp: cpu_ok_def nest_ok_def settle_def Let_def)
qed

lemma cpu_ok_initlock [simp]: "cpu_ok (initlock l n s) = cpu_ok s"
  by (auto simp: cpu_ok_def nest_ok_def this_cpu_def initlock_def split: option.splits)

lemma acquire_cases:
  assumes ok: "nest_ok s" and i: "this_cpu s = Some i"
  shows "acquire l s =
    (if locked (spin s l) \<noteq> 0 \<and> lkcpu (spin s l) = Some i then Panic ''acquire''
     else if locked (spin s l) \<noteq> 0 then Wait (Spins l)
     else Ret ((push_state s)\<lparr>spin := (spin s)(l := (spin s l)\<lparr>locked := 1, lkcpu := Some i\<rparr>)\<rparr>))"
proof -
  have c: "cpu_ok (push_state s)" by (rule nest_ok_push [OF ok])
  have h: "holding l (push_state s) =
      Ret (locked (spin s l) \<noteq> 0 \<and> lkcpu (spin s l) = Some i, push_state s)"
    using holding_Ret [of "push_state s" i l] c i
    by (simp add: cpu_ok_def) (simp add: push_state_def Let_def)
  have sp: "spin (push_state s) = spin s" and e: "eflags_IF (push_state s) = False"
    by (simp_all add: push_state_def Let_def)
  show ?thesis
    using i h by (simp add: acquire_def pushcli_Ret mycpu_eq sp e)
qed

lemma push_acq: "cpu_ok s \<Longrightarrow> this_cpu s = Some i \<Longrightarrow>
    (push_state s)\<lparr>spin := (spin s)(l := (spin s l)\<lparr>locked := 1, lkcpu := Some i\<rparr>)\<rparr> = acq l s"
  by (auto simp: push_state_def acq_def Let_def cpu_ok_def)

lemma acquire_free [lock_simps]:
  "cpu_ok s \<Longrightarrow> lock_free l s \<Longrightarrow> acquire l s = Ret (acq l s)"
  unfolding cpu_ok_def
  by (metis (no_types, lifting) acquire_cases cpu_ok_def lock_free_def nest_okE option.distinct(1) push_acq)

lemma this_cpu_acq [simp]: "this_cpu (acq l s) = this_cpu s"
  by (simp add: acq_def Let_def this_cpu_map map_update) (metis list_update_id map_update)

lemma cpu_ok_acq [simp]: "cpu_ok s \<Longrightarrow> cpu_ok (acq l s)"
proof (erule cpu_okE)
  fix i assume i: "this_cpu s = Some i" "i < length (cpus s)" "0 \<le> ncli (cpus s ! i)"
  then have "this_cpu (acq l s) = Some i" by simp
  then show ?thesis
    using i by (simp add: cpu_ok_def nest_ok_def) (simp add: acq_def Let_def)
qed

lemma lock_free_acq [simp]: "lock_free l' (acq l s) \<longleftrightarrow> l \<noteq> l' \<and> lock_free l' s"
  by (auto simp: lock_free_def acq_def Let_def)

text \<open>Lock state carries over to every state with the same CPU part.\<close>

lemma same_cpu_this: "same_cpu s t \<Longrightarrow> this_cpu s = this_cpu t"
  by (simp add: same_cpu_def this_cpu_def)

lemma same_cpu_ok: "same_cpu s t \<Longrightarrow> cpu_ok s = cpu_ok t"
  by (frule same_cpu_this) (auto simp: cpu_ok_def nest_ok_def same_cpu_def split: option.splits)

lemma same_cpu_free: "same_cpu s t \<Longrightarrow> lock_free l s = lock_free l t"
  by (simp add: same_cpu_def lock_free_def)

lemma same_cpu_refl [simp]: "same_cpu s s"
  by (simp add: same_cpu_def)

lemma same_cpu_unacq [simp]: "same_cpu (unacq s t) s"
  by (simp add: same_cpu_def unacq_def)

lemma release_acq [lock_simps]:
  assumes ok: "cpu_ok s" and free: "lock_free l s" and same: "same_cpu t (acq l s)"
  shows "release l t = Ret (unacq s t)"
proof -
  from ok obtain i where i: "this_cpu s = Some i" "i < length (cpus s)"
    "0 \<le> ncli (cpus s ! i)" "0 < ncli (cpus s ! i) \<Longrightarrow> \<not> eflags_IF s"
    "ncli (cpus s ! i) = 0 \<Longrightarrow> intena (cpus s ! i) = eflags_IF s"
    by (rule cpu_okE) blast
  have t: "cpus t = (cpus s)[i := (cpus s ! i)\<lparr>ncli := ncli (cpus s ! i) + 1\<rparr>]"
      "lapicid t = lapicid s" "eflags_IF t = False"
      "spin t = (spin s)(l := (spin s l)\<lparr>locked := 1, lkcpu := Some i\<rparr>)"
    using same i(1) by (simp_all add: same_cpu_def acq_def Let_def)
  have okt: "cpu_ok t" using same_cpu_ok [OF same] ok by simp
  have it: "this_cpu t = Some i" using same_cpu_this [OF same] i(1) by simp
  have h: "holding l t = Ret (True, t)"
    using holding_Ret [of t i l] okt it t(4) by (simp add: cpu_ok_def)
  have bk: "(spin s l)\<lparr>lkcpu := None, locked := 0\<rparr> = spin s l"
    using free by (cases "spin s l") (simp add: lock_free_def)
  have m: "mycpu (t\<lparr>spin := k\<rparr>) = Ret i" for k
    using it t(3) by (simp add: mycpu_eq)
  have c: "(cpus s ! i)\<lparr>ncli := ncli (cpus s ! i)\<rparr> = cpus s ! i" by simp
  show ?thesis
  proof (cases "ncli (cpus s ! i) = 0")
    case True
    with i t h m bk c show ?thesis
      by (cases t, cases s) (auto simp: release_def popcli_def Let_def unacq_def)
  next
    case False
    with i t h m bk c show ?thesis
      by (cases t, cases s) (auto simp: release_def popcli_def Let_def unacq_def)
  qed
qed

lemma with_lock_Ret:
  assumes "cpu_ok s" "lock_free l s" "body (acq l s) = Ret (x, t)" "same_cpu t (acq l s)"
  shows "with_lock l body s = Ret (x, unacq s t)"
  using assms by (simp add: with_lock_def acquire_free release_acq)

lemma unacq_acq [simp]: "unacq s (acq l s) = s"
  by (cases s) (simp add: unacq_def acq_def Let_def)

subsection \<open>Nested sections\<close>

fun iter_r :: "nat \<Rightarrow> ('s \<Rightarrow> 's result) \<Rightarrow> 's \<Rightarrow> 's result" where
  "iter_r 0 f s = Ret s"
| "iter_r (Suc n) f s = rbind (f s) (iter_r n f)"

lemma iter_r_snoc: "iter_r (Suc n) f s = rbind (iter_r n f s) f"
proof (induction n arbitrary: s)
  case 0
  show ?case by (cases "f s") simp_all
next
  case (Suc n)
  have "iter_r (Suc (Suc n)) f s = rbind (f s) (\<lambda>t. rbind (iter_r n f t) f)"
    by (cases "f s") (simp_all only: iter_r.simps(2) rbind.simps Suc.IH [symmetric])
  then show ?case by (cases "f s") simp_all
qed

lemma pushcli_nest: "nest_ok s \<Longrightarrow> pushcli s = Ret (push_state s)"
  by (erule nest_okE) (simp add: pushcli_Ret)

lemma push_pop_n:
  "nest_ok s \<Longrightarrow> rbind (iter_r (Suc n) pushcli s) (iter_r (Suc n) popcli) = Ret (settle s)"
proof (induction n arbitrary: s)
  case 0
  then show ?case by (simp add: pushcli_nest popcli_push)
next
  case (Suc n)
  have ok: "cpu_ok (push_state s)" by (rule nest_ok_push [OF Suc.prems])
  have snoc: "iter_r (Suc (Suc n)) popcli = (\<lambda>t. rbind (iter_r (Suc n) popcli t) popcli)"
    by (rule ext) (rule iter_r_snoc)
  have "rbind (iter_r (Suc (Suc n)) pushcli s) (iter_r (Suc (Suc n)) popcli)
      = rbind (iter_r (Suc n) pushcli (push_state s)) (\<lambda>t. rbind (iter_r (Suc n) popcli t) popcli)"
    unfolding snoc using Suc.prems by (subst iter_r.simps(2)) (simp only: pushcli_nest rbind.simps)
  also have "\<dots> = rbind (Ret (settle (push_state s))) popcli"
    using Suc.IH [of "push_state s"] ok by (simp only: rbind_assoc [symmetric] cpu_ok_def)
  also have "\<dots> = Ret (settle s)"
    using ok popcli_push [OF Suc.prems] by simp
  finally show ?case .
qed

subsection \<open>Several CPUs\<close>

text \<open>
  The shared-memory accesses of \<^verbatim>\<open>acquire\<close> and \<^verbatim>\<open>release\<close>, one per step, by any CPU in any
  order: the \<^verbatim>\<open>holding\<close> test that may panic, each \<^verbatim>\<open>xchg\<close>, the store to \<^verbatim>\<open>lk->cpu\<close>, the
  \<^verbatim>\<open>holding\<close> test of \<^verbatim>\<open>release\<close> with the store that clears \<^verbatim>\<open>lk->cpu\<close>, and the store that
  clears \<^verbatim>\<open>lk->locked\<close>.
\<close>

datatype lock_pc = Outside | Trying | Taken | Inside | Leaving

record smp =
  smp_pc :: "nat \<Rightarrow> lock_pc"
  smp_lk :: spinlock
  smp_panic :: bool

definition lk_holding :: "spinlock \<Rightarrow> nat \<Rightarrow> bool" where
  "lk_holding lk i \<longleftrightarrow> locked lk \<noteq> 0 \<and> lkcpu lk = Some i"

inductive smp_step :: "smp \<Rightarrow> smp \<Rightarrow> bool" where
  acq_panic: "smp_pc m i = Outside \<Longrightarrow> lk_holding (smp_lk m) i \<Longrightarrow>
    smp_step m (m\<lparr>smp_panic := True\<rparr>)"
| acq_try: "smp_pc m i = Outside \<Longrightarrow> \<not> lk_holding (smp_lk m) i \<Longrightarrow>
    smp_step m (m\<lparr>smp_pc := (smp_pc m)(i := Trying)\<rparr>)"
| xchg_busy: "smp_pc m i = Trying \<Longrightarrow> locked (smp_lk m) \<noteq> 0 \<Longrightarrow>
    smp_step m (m\<lparr>smp_lk := (smp_lk m)\<lparr>locked := 1\<rparr>\<rparr>)"
| xchg_free: "smp_pc m i = Trying \<Longrightarrow> locked (smp_lk m) = 0 \<Longrightarrow>
    smp_step m (m\<lparr>smp_lk := (smp_lk m)\<lparr>locked := 1\<rparr>, smp_pc := (smp_pc m)(i := Taken)\<rparr>)"
| set_cpu: "smp_pc m i = Taken \<Longrightarrow>
    smp_step m (m\<lparr>smp_lk := (smp_lk m)\<lparr>lkcpu := Some i\<rparr>, smp_pc := (smp_pc m)(i := Inside)\<rparr>)"
| rel_panic: "smp_pc m i = Inside \<Longrightarrow> \<not> lk_holding (smp_lk m) i \<Longrightarrow>
    smp_step m (m\<lparr>smp_panic := True\<rparr>)"
| clear_cpu: "smp_pc m i = Inside \<Longrightarrow> lk_holding (smp_lk m) i \<Longrightarrow>
    smp_step m (m\<lparr>smp_lk := (smp_lk m)\<lparr>lkcpu := None\<rparr>, smp_pc := (smp_pc m)(i := Leaving)\<rparr>)"
| clear_locked: "smp_pc m i = Leaving \<Longrightarrow>
    smp_step m (m\<lparr>smp_lk := (smp_lk m)\<lparr>locked := 0\<rparr>, smp_pc := (smp_pc m)(i := Outside)\<rparr>)"

definition smp_init :: "string \<Rightarrow> smp" where
  "smp_init name = \<lparr>smp_pc = (\<lambda>_. Outside),
     smp_lk = \<lparr>locked = 0, lkname = name, lkcpu = None\<rparr>, smp_panic = False\<rparr>"

definition owns :: "smp \<Rightarrow> nat \<Rightarrow> bool" where
  "owns m i \<longleftrightarrow> smp_pc m i \<in> {Taken, Inside, Leaving}"

text \<open>The invariant: the CPU that owns the lock, if there is one, accounts for every field.\<close>

definition owned_by :: "smp \<Rightarrow> nat option \<Rightarrow> bool" where
  "owned_by m o' \<longleftrightarrow> (\<forall>i. owns m i \<longleftrightarrow> o' = Some i) \<and> (locked (smp_lk m) \<noteq> 0 \<longleftrightarrow> o' \<noteq> None) \<and>
     (\<forall>i. lkcpu (smp_lk m) = Some i \<longleftrightarrow> smp_pc m i = Inside)"

definition smp_inv :: "smp \<Rightarrow> bool" where
  "smp_inv m \<longleftrightarrow> \<not> smp_panic m \<and> (\<exists>o'. owned_by m o')"

lemma owns_simps [simp]:
  "owns (m\<lparr>smp_pc := (smp_pc m)(i := x)\<rparr>) j \<longleftrightarrow>
     (if j = i then x \<in> {Taken, Inside, Leaving} else owns m j)"
  "owns (m\<lparr>smp_lk := k\<rparr>) j = owns m j"
  "owns (m\<lparr>smp_lk := k, smp_pc := p\<rparr>) j = owns (m\<lparr>smp_pc := p\<rparr>) j"
  by (auto simp: owns_def)

lemma owns_pc: "smp_pc m i = Outside \<Longrightarrow> \<not> owns m i" "smp_pc m i = Trying \<Longrightarrow> \<not> owns m i"
  "smp_pc m i = Taken \<Longrightarrow> owns m i" "smp_pc m i = Inside \<Longrightarrow> owns m i"
  "smp_pc m i = Leaving \<Longrightarrow> owns m i"
  by (auto simp: owns_def)

lemma owned_take: "owned_by m o' \<Longrightarrow> smp_pc m i = Trying \<Longrightarrow> locked (smp_lk m) = 0 \<Longrightarrow>
    owned_by (m\<lparr>smp_lk := (smp_lk m)\<lparr>locked := 1\<rparr>, smp_pc := (smp_pc m)(i := Taken)\<rparr>) (Some i)"
  by (auto simp: owned_by_def)

lemma owned_set: "owned_by m o' \<Longrightarrow> smp_pc m i = Taken \<Longrightarrow>
    owned_by (m\<lparr>smp_lk := (smp_lk m)\<lparr>lkcpu := Some i\<rparr>, smp_pc := (smp_pc m)(i := Inside)\<rparr>) (Some i)"
  using owns_pc(3) owns_pc(4) by (simp add: owned_by_def) (metis option.distinct(1) option.inject)

lemma owned_clear: "owned_by m o' \<Longrightarrow> smp_pc m i = Inside \<Longrightarrow>
    owned_by (m\<lparr>smp_lk := (smp_lk m)\<lparr>lkcpu := None\<rparr>, smp_pc := (smp_pc m)(i := Leaving)\<rparr>) (Some i)"
  using owns_pc(4) by (simp add: owned_by_def) (metis option.distinct(1) option.inject)

lemma owned_free: "owned_by m o' \<Longrightarrow> smp_pc m i = Leaving \<Longrightarrow>
    owned_by (m\<lparr>smp_lk := (smp_lk m)\<lparr>locked := 0\<rparr>, smp_pc := (smp_pc m)(i := Outside)\<rparr>) None"
  using owns_pc(5) by (simp add: owned_by_def) (metis lock_pc.distinct option.inject)

lemma smp_step_inv:
  assumes "smp_step m m'" "smp_inv m" shows "smp_inv m'"
  using assms
proof (induction rule: smp_step.induct)
  case (acq_panic m i)
  then have "lkcpu (smp_lk m) = Some i \<longleftrightarrow> smp_pc m i = Inside"
    unfolding smp_inv_def owned_by_def by blast
  with acq_panic show ?case by (simp add: lk_holding_def)
next
  case (rel_panic m i)
  then have "lkcpu (smp_lk m) = Some i"
    unfolding smp_inv_def owned_by_def by blast
  moreover have "locked (smp_lk m) \<noteq> 0"
    using rel_panic owns_pc(4) unfolding smp_inv_def owned_by_def by (metis option.distinct(1))
  ultimately show ?case using rel_panic by (simp add: lk_holding_def)
next
  case (acq_try m i)
  then obtain o' where "owned_by m o'" "\<not> smp_panic m" by (auto simp: smp_inv_def)
  moreover have "owned_by (m\<lparr>smp_pc := (smp_pc m)(i := Trying)\<rparr>) o'"
    using \<open>owned_by m o'\<close> acq_try(1) owns_pc(1) [of m i] by (auto simp: owned_by_def)
  ultimately show ?case by (auto simp: smp_inv_def)
next
  case (xchg_busy m i)
  then obtain o' where "owned_by m o'" "\<not> smp_panic m" by (auto simp: smp_inv_def)
  moreover have "owned_by (m\<lparr>smp_lk := (smp_lk m)\<lparr>locked := 1\<rparr>\<rparr>) o'"
    using \<open>owned_by m o'\<close> xchg_busy(2) by (simp add: owned_by_def)
  ultimately show ?case by (auto simp: smp_inv_def)
qed (auto simp: smp_inv_def dest: owned_take owned_set owned_clear owned_free)

interpretation smp: invariant_system "\<lambda>m. \<exists>name. m = smp_init name" smp_step smp_inv
proof
  show "smp_inv s" if "\<exists>name. s = smp_init name" for s
  proof -
    from that have "owned_by s None \<and> \<not> smp_panic s"
      by (auto simp: smp_init_def owned_by_def owns_def)
    then show ?thesis by (auto simp: smp_inv_def)
  qed
qed (rule smp_step_inv)

subsection \<open>Properties\<close>

text \<open>
  C2.  Mutual exclusion of spin locks on any number of CPUs: in every state that the accesses of
  \<^verbatim>\<open>acquire\<close> and \<^verbatim>\<open>release\<close>, interleaved in any order, can reach from an initialised lock, no
  two CPUs are between their \<^verbatim>\<open>xchg\<close> and the store that frees the lock, the lock word is set
  exactly when some CPU is there, and no CPU has panicked.
\<close>

theorem spin_mutual_exclusion:
  assumes "smp_step\<^sup>*\<^sup>* (smp_init name) m"
  shows "(owns m i \<and> owns m j \<longrightarrow> i = j) \<and> (locked (smp_lk m) \<noteq> 0 \<longleftrightarrow> (\<exists>k. owns m k)) \<and> \<not> smp_panic m"
proof -
  have "smp_inv m" using smp.reach_inv [OF _ assms] by blast
  then obtain o' where "owned_by m o'" "\<not> smp_panic m" by (auto simp: smp_inv_def)
  then show ?thesis by (cases o') (auto simp: owned_by_def)
qed

lemma smp_taken: "smp_step\<^sup>*\<^sup>* (smp_init n)
    ((smp_init n)\<lparr>smp_pc := (\<lambda>_. Outside)(0 := Taken), smp_lk := \<lparr>locked = 1, lkname = n, lkcpu = None\<rparr>\<rparr>)"
proof -
  let ?a = "(smp_init n)\<lparr>smp_pc := (\<lambda>_. Outside)(0 := Trying)\<rparr>"
  have "smp_step (smp_init n) ?a"
    using acq_try [of "smp_init n" 0] by (simp add: smp_init_def lk_holding_def)
  moreover have "smp_step ?a (?a\<lparr>smp_lk := (smp_lk ?a)\<lparr>locked := 1\<rparr>, smp_pc := (smp_pc ?a)(0 := Taken)\<rparr>)"
    by (rule xchg_free) (simp_all add: smp_init_def)
  ultimately show ?thesis by (simp add: smp_init_def)
qed

theorem spin_mutual_exclusion_witness:
  "\<exists>m. smp_step\<^sup>*\<^sup>* (smp_init ''kmem'') m \<and> owns m 0 \<and> \<not> owns m 1 \<and> \<not> smp_panic m"
proof -
  let ?m = "(smp_init ''kmem'')\<lparr>smp_pc := (\<lambda>_. Outside)(0 := Taken),
      smp_lk := \<lparr>locked = 1, lkname = ''kmem'', lkcpu = None\<rparr>\<rparr>"
  have "owns ?m 0" by (simp add: owns_def)
  with spin_mutual_exclusion [OF smp_taken, of "''kmem''" 0 1] smp_taken [of "''kmem''"]
  show ?thesis by (intro exI [of _ ?m]) simp
qed

text \<open>
  C18.  \<^verbatim>\<open>acquire\<close> on the CPU that runs it: it panics if this CPU already holds the lock, spins if
  another one does, and otherwise returns with the lock taken in this CPU's name, interrupts
  off, the nesting depth one higher and every other lock as before.
\<close>

theorem acquire_outcome:
  assumes "nest_ok s" "this_cpu s = Some i"
  shows "acquire l s =
    (if locked (spin s l) \<noteq> 0 \<and> lkcpu (spin s l) = Some i then Panic ''acquire''
     else if locked (spin s l) \<noteq> 0 then Wait (Spins l)
     else Ret ((push_state s)\<lparr>spin := (spin s)(l := (spin s l)\<lparr>locked := 1, lkcpu := Some i\<rparr>)\<rparr>))"
  by (rule acquire_cases [OF assms])

definition two_cpus :: "lockid \<Rightarrow> nat \<Rightarrow> kcpu" where
  "two_cpus l j = \<lparr>cpus = [\<lparr>apicid = 7, ncli = 0, intena = False, cpu_proc = None\<rparr>,
       \<lparr>apicid = 9, ncli = 0, intena = True, cpu_proc = None\<rparr>],
     lapicid = 9, eflags_IF = True,
     spin = (\<lambda>_. \<lparr>locked = 0, lkname = ''lock'', lkcpu = None\<rparr>)
       (l := \<lparr>locked = 1, lkname = ''lock'', lkcpu = Some j\<rparr>)\<rparr>"

theorem acquire_outcome_witness:
  "acquire KmemLock (two_cpus KmemLock 1) = Panic ''acquire'' \<and>
   acquire KmemLock (two_cpus KmemLock 0) = Wait (Spins KmemLock) \<and>
   (\<exists>t. acquire LogLock (two_cpus KmemLock 0) = Ret t \<and> locked (spin t LogLock) = 1 \<and>
      lkcpu (spin t LogLock) = Some 1 \<and> \<not> eflags_IF t \<and> ncli (cpus t ! 1) = 1)"
proof -
  have s: "nest_ok (two_cpus KmemLock j)" "this_cpu (two_cpus KmemLock j) = Some 1" for j
    by (simp_all add: two_cpus_def nest_ok_def this_cpu_def)
  show ?thesis
    using acquire_outcome [OF s(1,2), of KmemLock 1] acquire_outcome [OF s(1,2), of KmemLock 0]
      acquire_outcome [OF s(1,2), of LogLock 0] s(2) [of 0]
    by (simp add: two_cpus_def push_state_def Let_def)
qed

text \<open>
  C19.  \<^verbatim>\<open>pushcli\<close>/\<^verbatim>\<open>popcli\<close> nest: after any number of pushes and as many pops the interrupt
  flag, the nesting depth and everything else are what they were before the first push, except
  that at depth zero the saved flag \<^verbatim>\<open>intena\<close> records the interrupt flag.
\<close>

theorem pushcli_popcli_nest:
  assumes "nest_ok s"
  shows "rbind (iter_r (Suc n) pushcli s) (iter_r (Suc n) popcli) = Ret (settle s)"
  by (rule push_pop_n [OF assms])

theorem pushcli_popcli_nest_witness:
  "rbind (iter_r 3 pushcli (two_cpus KmemLock 0)) (iter_r 3 popcli) = Ret (two_cpus KmemLock 0)"
proof -
  have s: "nest_ok (two_cpus KmemLock 0)" "settle (two_cpus KmemLock 0) = two_cpus KmemLock 0"
    by (simp_all add: two_cpus_def nest_ok_def this_cpu_def settle_def Let_def)
  show ?thesis using pushcli_popcli_nest [OF s(1), of 2] s(2) by (simp add: numeral_3_eq_3)
qed

text \<open>
  A critical section of a CPU whose nesting is in order and which finds the lock free
  returns exactly what its body computed, with the lock free again and the CPU's interrupt
  state as before, for every body that leaves the locks and the CPU alone.
\<close>

lemma critical_section:
  assumes "cpu_ok s" "lock_free l s" "same_cpu t (acq l s)"
  shows "acquire l s = Ret (acq l s) \<and> release l t = Ret (unacq s t) \<and>
    same_cpu (unacq s t) s"
  using acquire_free [OF assms(1,2)] release_acq [OF assms] by (simp add: unacq_def same_cpu_def)

lemma critical_section_witness:
  "release LogLock (acq LogLock (two_cpus KmemLock 0)) = Ret (two_cpus KmemLock 0)"
proof -
  have s: "cpu_ok (two_cpus KmemLock 0)" "lock_free LogLock (two_cpus KmemLock 0)"
    by (simp_all add: two_cpus_def cpu_ok_def nest_ok_def this_cpu_def lock_free_def)
  show ?thesis using critical_section [OF s, of "acq LogLock (two_cpus KmemLock 0)"] by simp
qed

end
