(* ===== verification/Sched.thy ===== *)
theory Sched
  imports Spinlock
begin

text \<open>
  The process table and the kernel's way to wait (\<^verbatim>\<open>proc.c\<close>: \<^verbatim>\<open>myproc\<close>, \<^verbatim>\<open>sleep\<close>,
  \<^verbatim>\<open>wakeup1\<close>, \<^verbatim>\<open>wakeup\<close>, \<^verbatim>\<open>kill\<close>, \<^verbatim>\<open>sched\<close>, \<^verbatim>\<open>yield\<close>, one round of \<^verbatim>\<open>scheduler\<close>) and the
  long-term locks built on it (\<^verbatim>\<open>sleeplock.c\<close>).  Processes are the indices of
  \<^verbatim>\<open>ptable.proc\<close>; a null process pointer is \<open>None\<close>.
\<close>

subsection \<open>State\<close>

datatype procstate = UNUSED | EMBRYO | SLEEPING | RUNNABLE | RUNNING | ZOMBIE

record trapframe =
  tf_edi :: uint
  tf_esi :: uint
  tf_ebp :: uint
  tf_oesp :: uint
  tf_ebx :: uint
  tf_edx :: uint
  tf_ecx :: uint
  tf_eax :: uint
  tf_gs :: ushort
  tf_fs :: ushort
  tf_es :: ushort
  tf_ds :: ushort
  tf_trapno :: uint
  tf_err :: uint
  tf_eip :: uint
  tf_cs :: ushort
  tf_eflags :: uint
  tf_esp :: uint
  tf_ss :: ushort

record kcontext =
  ctx_edi :: uint
  ctx_esi :: uint
  ctx_ebx :: uint
  ctx_ebp :: uint
  ctx_eip :: uint

record proc =
  sz :: uint
  pgdir :: uint
  kstack :: uint
  pstate :: procstate
  pid :: uint
  parent :: "nat option"
  tf :: trapframe
  pcontext :: kcontext
  chan_of :: "chan option"
  killed :: bool
  ofile :: "nat option list"
  cwd :: "nat option"
  pname :: "uchar list"

record sleeplock =
  sl_locked :: uint
  sl_name :: string
  sl_pid :: uint

record kproc = kcpu +
  ptable :: "proc list"
  initproc :: "nat option"
  nextpid :: uint
  sleepl :: "sleepid \<Rightarrow> sleeplock"

text \<open>An empty process slot, as in zeroed memory.\<close>

definition tf0 :: trapframe where
  "tf0 = \<lparr>tf_edi = 0, tf_esi = 0, tf_ebp = 0, tf_oesp = 0, tf_ebx = 0, tf_edx = 0, tf_ecx = 0,
     tf_eax = 0, tf_gs = 0, tf_fs = 0, tf_es = 0, tf_ds = 0, tf_trapno = 0, tf_err = 0,
     tf_eip = 0, tf_cs = 0, tf_eflags = 0, tf_esp = 0, tf_ss = 0\<rparr>"

definition proc0 :: proc where
  "proc0 = \<lparr>sz = 0, pgdir = 0, kstack = 0, pstate = UNUSED, pid = 0, parent = None, tf = tf0,
     pcontext = \<lparr>ctx_edi = 0, ctx_esi = 0, ctx_ebx = 0, ctx_ebp = 0, ctx_eip = 0\<rparr>, chan_of = None,
     killed = False, ofile = replicate NOFILE None, cwd = None, pname = replicate 16 0\<rparr>"

subsection \<open>The current process\<close>

definition myproc :: "'a kproc_scheme \<Rightarrow> (nat option \<times> 'a kproc_scheme) result" where
  "myproc s =
     rbind (pushcli s) (\<lambda>s.
     rbind (mycpu s) (\<lambda>c.
     let p = cpu_proc (cpus s ! c)
     in rbind (popcli s) (\<lambda>s. Ret (p, s))))"

text \<open>\<^verbatim>\<open>myproc()->pid\<close>, as \<^verbatim>\<open>sleeplock.c\<close> reads it: a fault when no process runs.\<close>

definition myproc_pid :: "'a kproc_scheme \<Rightarrow> (uint \<times> 'a kproc_scheme) result" where
  "myproc_pid s =
     rbind (myproc s) (\<lambda>(p, s). case p of None \<Rightarrow> Fault | Some p \<Rightarrow> Ret (pid (ptable s ! p), s))"

subsection \<open>Wakeup and kill\<close>

definition wake :: "chan \<Rightarrow> proc \<Rightarrow> proc" where
  "wake ch p = (if pstate p = SLEEPING \<and> chan_of p = Some ch then p\<lparr>pstate := RUNNABLE\<rparr> else p)"

definition wakeup1 :: "chan \<Rightarrow> 'a kproc_scheme \<Rightarrow> 'a kproc_scheme" where
  "wakeup1 ch s = s\<lparr>ptable := map (wake ch) (ptable s)\<rparr>"

definition wakeup :: "chan \<Rightarrow> 'a kproc_scheme \<Rightarrow> 'a kproc_scheme result" where
  "wakeup ch s =
     rbind (acquire PtableLock s) (\<lambda>s.
     let s = wakeup1 ch s in release PtableLock s)"

definition kill_found :: "nat \<Rightarrow> 'a kproc_scheme \<Rightarrow> 'a kproc_scheme" where
  "kill_found i s =
     (let p = (ptable s ! i)\<lparr>killed := True\<rparr>;
          p = (if pstate p = SLEEPING then p\<lparr>pstate := RUNNABLE\<rparr> else p)
      in s\<lparr>ptable := (ptable s)[i := p]\<rparr>)"

definition kill :: "uint \<Rightarrow> 'a kproc_scheme \<Rightarrow> (int \<times> 'a kproc_scheme) result" where
  "kill n s =
     rbind (acquire PtableLock s) (\<lambda>s.
     case find_idx (\<lambda>p. pid p = n) (ptable s) of
       Some i \<Rightarrow> rbind (release PtableLock (kill_found i s)) (\<lambda>s. Ret (0, s))
     | None \<Rightarrow> rbind (release PtableLock s) (\<lambda>s. Ret (-1, s)))"

subsection \<open>Giving up the CPU\<close>

text \<open>
  \<^verbatim>\<open>swtch\<close> saves the registers of one kernel thread and restores another's.  For the state
  kept here it is the moment at which the CPU stops running process \<open>p\<close>: what \<^verbatim>\<open>scheduler\<close>
  does first when it is resumed is \<^verbatim>\<open>c->proc = 0\<close>.
\<close>

definition switch_out :: "nat \<Rightarrow> 'a kproc_scheme \<Rightarrow> 'a kproc_scheme" where
  "switch_out c s = s\<lparr>cpus := (cpus s)[c := (cpus s ! c)\<lparr>cpu_proc := None\<rparr>]\<rparr>"

definition sched :: "'a kproc_scheme \<Rightarrow> 'a kproc_scheme result" where
  "sched s =
     rbind (myproc s) (\<lambda>(p, s).
     rbind (holding PtableLock s) (\<lambda>(h, s).
     if \<not> h then Panic ''sched ptable.lock''
     else rbind (mycpu s) (\<lambda>c.
       if ncli (cpus s ! c) \<noteq> 1 then Panic ''sched locks''
       else case p of None \<Rightarrow> Fault
       | Some p \<Rightarrow>
         if pstate (ptable s ! p) = RUNNING then Panic ''sched running''
         else if eflags_IF s then Panic ''sched interruptible''
         else Ret (switch_out c s))))"

definition yield :: "'a kproc_scheme \<Rightarrow> 'a kproc_scheme result" where
  "yield s =
     rbind (acquire PtableLock s) (\<lambda>s.
     rbind (myproc s) (\<lambda>(p, s).
     case p of None \<Rightarrow> Fault
     | Some p \<Rightarrow> sched (s\<lparr>ptable := (ptable s)[p := (ptable s ! p)\<lparr>pstate := RUNNABLE\<rparr>]\<rparr>)))"

text \<open>\<^verbatim>\<open>sleep\<close> up to the switch; the lock argument is null in no caller, and \<open>None\<close> if it is.\<close>

definition sleep :: "chan \<Rightarrow> lockid option \<Rightarrow> 'a kproc_scheme \<Rightarrow> 'a kproc_scheme result" where
  "sleep ch lk s =
     rbind (myproc s) (\<lambda>(p, s).
     case p of None \<Rightarrow> Panic ''sleep''
     | Some p \<Rightarrow> (case lk of None \<Rightarrow> Panic ''sleep without lk''
       | Some l \<Rightarrow>
         rbind (if l \<noteq> PtableLock
                then rbind (acquire PtableLock s) (release l)
                else Ret s) (\<lambda>s.
         sched (s\<lparr>ptable := (ptable s)[p := (ptable s ! p)\<lparr>chan_of := Some ch, pstate := SLEEPING\<rparr>]\<rparr>))))"

text \<open>\<^verbatim>\<open>sleep\<close> after the process has been chosen again: still holding \<^verbatim>\<open>ptable.lock\<close>.\<close>

definition sleep_resume :: "nat \<Rightarrow> lockid \<Rightarrow> 'a kproc_scheme \<Rightarrow> 'a kproc_scheme result" where
  "sleep_resume p l s =
     (let s = s\<lparr>ptable := (ptable s)[p := (ptable s ! p)\<lparr>chan_of := None\<rparr>]\<rparr>
      in if l \<noteq> PtableLock then rbind (release PtableLock s) (acquire l) else Ret s)"

text \<open>
  One choice of \<^verbatim>\<open>scheduler\<close>'s inner loop, from table index \<open>from\<close> on: the first runnable
  process becomes this CPU's.
\<close>

definition schedule_pick :: "nat \<Rightarrow> nat \<Rightarrow> 'a kproc_scheme \<Rightarrow> (nat \<times> 'a kproc_scheme) option" where
  "schedule_pick c from s =
     (case find_idx (\<lambda>p. pstate p = RUNNABLE) (drop from (ptable s)) of
        None \<Rightarrow> None
      | Some k \<Rightarrow> let p = from + k in
          Some (p, s\<lparr>cpus := (cpus s)[c := (cpus s ! c)\<lparr>cpu_proc := Some p\<rparr>],
                     ptable := (ptable s)[p := (ptable s ! p)\<lparr>pstate := RUNNING\<rparr>]\<rparr>))"

subsection \<open>Sleeping locks\<close>

definition initsleeplock :: "sleepid \<Rightarrow> string \<Rightarrow> 'a kproc_scheme \<Rightarrow> 'a kproc_scheme" where
  "initsleeplock l name s =
     (initlock (SleepLk l) ''sleep lock'' s)\<lparr>sleepl := (sleepl s)(l :=
        \<lparr>sl_locked = 0, sl_name = name, sl_pid = 0\<rparr>)\<rparr>"

text \<open>A lock that is taken makes the caller sleep on it until \<^verbatim>\<open>releasesleep\<close>.\<close>

definition acquiresleep :: "sleepid \<Rightarrow> 'a kproc_scheme \<Rightarrow> 'a kproc_scheme result" where
  "acquiresleep l s =
     rbind (acquire (SleepLk l) s) (\<lambda>s.
     if sl_locked (sleepl s l) \<noteq> 0 then Wait (Sleeps (ChSleep l))
     else rbind (myproc_pid s) (\<lambda>(n, s).
       release (SleepLk l) (s\<lparr>sleepl := (sleepl s)(l := (sleepl s l)\<lparr>sl_locked := 1, sl_pid := n\<rparr>)\<rparr>)))"

definition releasesleep :: "sleepid \<Rightarrow> 'a kproc_scheme \<Rightarrow> 'a kproc_scheme result" where
  "releasesleep l s =
     rbind (acquire (SleepLk l) s) (\<lambda>s.
     rbind (wakeup (ChSleep l)
              (s\<lparr>sleepl := (sleepl s)(l := (sleepl s l)\<lparr>sl_locked := 0, sl_pid := 0\<rparr>)\<rparr>))
       (release (SleepLk l)))"

definition holdingsleep :: "sleepid \<Rightarrow> 'a kproc_scheme \<Rightarrow> (bool \<times> 'a kproc_scheme) result" where
  "holdingsleep l s =
     rbind (acquire (SleepLk l) s) (\<lambda>s.
     rbind (if sl_locked (sleepl s l) = 0 then Ret (False, s)
            else rbind (myproc_pid s) (\<lambda>(n, s). Ret (sl_pid (sleepl s l) = n, s))) (\<lambda>(r, s).
     rbind (release (SleepLk l) s) (\<lambda>s. Ret (r, s))))"

subsection \<open>Between critical sections\<close>

text \<open>
  \<open>quiet s\<close>: a process runs on this CPU and no spinlock is held.  It is the state in which the
  kernel code of the upper layers starts and ends.
\<close>

definition cur :: "'a kproc_scheme \<Rightarrow> nat option" where
  "cur s = cpu_proc (cpus s ! the (this_cpu s))"

definition cur_pid :: "'a kproc_scheme \<Rightarrow> uint" where
  "cur_pid s = pid (ptable s ! the (cur s))"

definition quiet :: "'a kproc_scheme \<Rightarrow> bool" where
  "quiet s \<longleftrightarrow> cpu_ok s \<and> (\<forall>l. lock_free l s) \<and>
     (case cur s of None \<Rightarrow> False | Some p \<Rightarrow> p < length (ptable s))"

definition slock :: "sleepid \<Rightarrow> 'a kproc_scheme \<Rightarrow> 'a kproc_scheme" where
  "slock l s = s\<lparr>sleepl := (sleepl s)(l := (sleepl s l)\<lparr>sl_locked := 1, sl_pid := cur_pid s\<rparr>)\<rparr>"

definition sunlock :: "sleepid \<Rightarrow> 'a kproc_scheme \<Rightarrow> 'a kproc_scheme" where
  "sunlock l s =
     wakeup1 (ChSleep l) (s\<lparr>sleepl := (sleepl s)(l := (sleepl s l)\<lparr>sl_locked := 0, sl_pid := 0\<rparr>)\<rparr>)"

definition slheld :: "sleepid \<Rightarrow> 'a kproc_scheme \<Rightarrow> bool" where
  "slheld l s \<longleftrightarrow> sl_locked (sleepl s l) \<noteq> 0 \<and> sl_pid (sleepl s l) = cur_pid s"

lemma myproc_Ret [lock_simps]: "cpu_ok s \<Longrightarrow> myproc s = Ret (cur s, s)"
proof -
  assume ok: "cpu_ok s"
  then have n: "nest_ok s" by (simp add: cpu_ok_def)
  then obtain i where i: "this_cpu s = Some i" "i < length (cpus s)" by (rule nest_okE)
  have m: "mycpu (push_state s) = Ret i"
    using i by (simp add: mycpu_eq) (simp add: push_state_def Let_def)
  have "cpu_proc (cpus (push_state s) ! i) = cur s"
    using i by (simp add: push_state_def Let_def cur_def)
  with m popcli_push [OF n] n ok show ?thesis
    by (simp add: myproc_def pushcli_nest)
qed

lemma cur_acq [simp]: "cpu_ok s \<Longrightarrow> cur (acq l s) = cur s"
proof (erule cpu_okE)
  fix i assume "this_cpu s = Some i" "i < length (cpus s)"
  then show ?thesis by (simp add: cur_def) (simp add: acq_def Let_def)
qed

lemma acq_more [simp]:
  "ptable (acq l s) = ptable s" "initproc (acq l s) = initproc s"
  "nextpid (acq l s) = nextpid s" "sleepl (acq l s) = sleepl s"
  by (simp_all add: acq_def Let_def)

lemma cur_pid_acq [simp]: "cpu_ok s \<Longrightarrow> cur_pid (acq l s) = cur_pid s"
  by (simp add: cur_pid_def)

lemma myproc_pid_Ret [lock_simps]:
  "cpu_ok s \<Longrightarrow> cur s = Some p \<Longrightarrow> myproc_pid s = Ret (cur_pid s, s)"
  by (simp add: myproc_pid_def myproc_Ret cur_pid_def)

lemma quietE:
  assumes "quiet s"
  obtains p where "cpu_ok s" "\<And>l. lock_free l s" "cur s = Some p" "p < length (ptable s)"
  using assms by (auto simp: quiet_def split: option.splits)

text \<open>CPU part of states that differ only in kernel tables.\<close>

lemma same_cpu_ptable [simp]:
  "same_cpu (s\<lparr>ptable := x\<rparr>) t = same_cpu s t" "same_cpu (s\<lparr>sleepl := y\<rparr>) t = same_cpu s t"
  "same_cpu (wakeup1 ch s) t = same_cpu s t"
  by (simp_all add: same_cpu_def wakeup1_def)

lemma unacq_ptable [simp]:
  "unacq s (t\<lparr>ptable := x\<rparr>) = (unacq s t)\<lparr>ptable := x\<rparr>"
  "unacq s (t\<lparr>sleepl := y\<rparr>) = (unacq s t)\<lparr>sleepl := y\<rparr>"
  by (simp_all add: unacq_def)

lemma wakeup_Ret:
  assumes "cpu_ok s" "lock_free PtableLock s"
  shows "wakeup ch s = Ret (wakeup1 ch s)"
proof -
  have "wakeup ch s = release PtableLock (wakeup1 ch (acq PtableLock s))"
    using assms by (simp add: wakeup_def acquire_free)
  also have "\<dots> = Ret (unacq s (wakeup1 ch (acq PtableLock s)))"
    using assms by (intro release_acq) simp_all
  also have "unacq s (wakeup1 ch (acq PtableLock s)) = wakeup1 ch s"
    by (simp add: wakeup1_def)
  finally show ?thesis .
qed

lemma same_cpu_lock [simp]: "same_cpu (slock l s) t = same_cpu s t"
  by (simp add: slock_def)

lemma acquiresleep_Ret:
  assumes q: "quiet s" and free: "sl_locked (sleepl s l) = 0"
  shows "acquiresleep l s = Ret (slock l s)"
proof -
  from q obtain p where q: "cpu_ok s" "lock_free (SleepLk l) s" "cur s = Some p"
    by (rule quietE) blast
  let ?t = "(acq (SleepLk l) s)\<lparr>sleepl := (sleepl s)(l := (sleepl s l)\<lparr>sl_locked := 1, sl_pid := cur_pid s\<rparr>)\<rparr>"
  have "acquiresleep l s = release (SleepLk l) ?t"
    using q free by (simp add: acquiresleep_def acquire_free myproc_pid_Ret)
  also have "\<dots> = Ret (unacq s ?t)"
    using q by (intro release_acq) simp_all
  finally show ?thesis by (simp add: slock_def)
qed

lemma acquiresleep_Wait:
  assumes q: "quiet s" and "sl_locked (sleepl s l) \<noteq> 0"
  shows "acquiresleep l s = Wait (Sleeps (ChSleep l))"
  using assms by (auto simp: acquiresleep_def acquire_free elim!: quietE)

lemma releasesleep_Ret:
  assumes q: "quiet s"
  shows "releasesleep l s = Ret (sunlock l s)"
proof -
  from q have q: "cpu_ok s" "lock_free (SleepLk l) s" "lock_free PtableLock s"
    by (auto elim: quietE)
  let ?u = "(acq (SleepLk l) s)\<lparr>sleepl := (sleepl s)(l := (sleepl s l)\<lparr>sl_locked := 0, sl_pid := 0\<rparr>)\<rparr>"
  have same: "same_cpu ?u (acq (SleepLk l) s)" by simp
  have ok: "cpu_ok ?u" "lock_free PtableLock ?u"
    using same_cpu_ok [OF same] same_cpu_free [OF same] q by simp_all
  have "releasesleep l s = release (SleepLk l) (wakeup1 (ChSleep l) ?u)"
    using q ok by (simp add: releasesleep_def acquire_free wakeup_Ret)
  also have "\<dots> = Ret (unacq s (wakeup1 (ChSleep l) ?u))"
    using q by (intro release_acq) simp_all
  finally show ?thesis by (simp add: sunlock_def wakeup1_def)
qed

lemma holdingsleep_Ret:
  assumes q: "quiet s"
  shows "holdingsleep l s = Ret (slheld l s, s)"
proof -
  from q obtain p where q: "cpu_ok s" "lock_free (SleepLk l) s" "cur s = Some p"
    by (rule quietE) blast
  have r: "release (SleepLk l) (acq (SleepLk l) s) = Ret s"
    using release_acq [OF q(1,2), of "acq (SleepLk l) s"] by simp
  show ?thesis
    using q r by (simp add: holdingsleep_def acquire_free myproc_pid_Ret slheld_def)
qed

text \<open>\<open>quiet\<close> depends on the CPU part and the length of the process table only.\<close>

lemma cur_same: "same_cpu s t \<Longrightarrow> cur s = cur t"
  by (frule same_cpu_this) (simp add: cur_def same_cpu_def)

lemma quiet_same: "same_cpu s t \<Longrightarrow> length (ptable s) = length (ptable t) \<Longrightarrow> quiet s = quiet t"
  by (frule cur_same, frule same_cpu_ok) (auto simp: quiet_def same_cpu_free split: option.splits)

lemma length_wakeup1 [simp]: "length (ptable (wakeup1 ch s)) = length (ptable s)"
  by (simp add: wakeup1_def)

lemma quiet_tables [simp]:
  "quiet (slock l s) = quiet s" "quiet (sunlock l s) = quiet s" "quiet (wakeup1 ch s) = quiet s"
  by (rule quiet_same; simp add: slock_def sunlock_def)+

lemma pid_wake [simp]: "pid (wake ch p) = pid p"
  by (simp add: wake_def)

lemma cur_wakeup1 [simp]: "cur (wakeup1 ch s) = cur s"
  by (rule cur_same) simp

lemma cur_slock [simp]: "cur (slock l s) = cur s" "cur (sunlock l s) = cur s"
  by (rule cur_same; simp add: slock_def sunlock_def)+

lemma cur_pid_tables [simp]:
  "cur_pid (slock l s) = cur_pid s"
  "quiet s \<Longrightarrow> cur_pid (wakeup1 ch s) = cur_pid s"
  "quiet s \<Longrightarrow> cur_pid (sunlock l s) = cur_pid s"
  by (auto simp: cur_pid_def cur_same [of "s\<lparr>sleepl := y\<rparr>" s for y] elim!: quietE)
     (auto simp: slock_def sunlock_def wakeup1_def)

lemma sleepl_tables [simp]:
  "sleepl (slock l s) = (sleepl s)(l := (sleepl s l)\<lparr>sl_locked := 1, sl_pid := cur_pid s\<rparr>)"
  "sleepl (sunlock l s) = (sleepl s)(l := (sleepl s l)\<lparr>sl_locked := 0, sl_pid := 0\<rparr>)"
  "sleepl (wakeup1 ch s) = sleepl s"
  by (simp_all add: slock_def sunlock_def wakeup1_def)

lemma slheld_slock [simp]: "slheld l (slock l s)"
  by (simp add: slheld_def)

end
