(* ===== verification/Kstring.thy ===== *)
theory Kstring
  imports Prelude
begin

text \<open>
  The kernel's memory and string primitives (\<^verbatim>\<open>string.c\<close>, with \<^verbatim>\<open>stosb\<close> and \<^verbatim>\<open>stosl\<close> of
  \<^verbatim>\<open>x86.h\<close>).  Functions that write take and return the byte-addressed memory; functions that
  only read take a C pointer as the bytes found at increasing offsets from it.  The lemmas give
  each routine's exact effect on every address, so that overlap and bounds are explicit.
\<close>

subsection \<open>Operations\<close>

type_synonym cptr = "nat \<Rightarrow> uchar"

definition at :: "memory \<Rightarrow> uint \<Rightarrow> cptr" where
  "at m a i = m (a + of_nat i)"

definition ptr :: "uchar list \<Rightarrow> cptr" where
  "ptr xs i = (if i < length xs then xs ! i else 0)"

fun stosb :: "memory \<Rightarrow> uint \<Rightarrow> uchar \<Rightarrow> nat \<Rightarrow> memory" where
  "stosb m dst c 0 = m"
| "stosb m dst c (Suc n) = stosb (m(dst := c)) (dst + 1) c n"

fun stosl :: "memory \<Rightarrow> uint \<Rightarrow> uint \<Rightarrow> nat \<Rightarrow> memory" where
  "stosl m dst w 0 = m"
| "stosl m dst w (Suc n) = stosl (store32 m dst w) (dst + 4) w n"

definition memset :: "memory \<Rightarrow> uint \<Rightarrow> uint \<Rightarrow> uint \<Rightarrow> memory" where
  "memset m dst c n =
     (if unat dst mod 4 = 0 \<and> unat n mod 4 = 0
      then let c = c AND 0xFF
           in stosl m dst (push_bit 24 c OR push_bit 16 c OR push_bit 8 c OR c) (unat n div 4)
      else stosb m dst (ucast c) (unat n))"

fun memcmp :: "cptr \<Rightarrow> cptr \<Rightarrow> nat \<Rightarrow> int" where
  "memcmp s1 s2 0 = 0"
| "memcmp s1 s2 (Suc n) =
     (if s1 0 \<noteq> s2 0 then uint (s1 0) - uint (s2 0)
      else memcmp (\<lambda>i. s1 (Suc i)) (\<lambda>i. s2 (Suc i)) n)"

fun copy_down :: "memory \<Rightarrow> uint \<Rightarrow> uint \<Rightarrow> nat \<Rightarrow> memory" where
  "copy_down m d s 0 = m"
| "copy_down m d s (Suc n) = copy_down (m(d - 1 := m (s - 1))) (d - 1) (s - 1) n"

fun copy_up :: "memory \<Rightarrow> uint \<Rightarrow> uint \<Rightarrow> nat \<Rightarrow> memory" where
  "copy_up m d s 0 = m"
| "copy_up m d s (Suc n) = copy_up (m(d := m s)) (d + 1) (s + 1) n"

definition memmove :: "memory \<Rightarrow> uint \<Rightarrow> uint \<Rightarrow> uint \<Rightarrow> memory" where
  "memmove m dst src n =
     (if src < dst \<and> src + n > dst then copy_down m (dst + n) (src + n) (unat n)
      else copy_up m dst src (unat n))"

definition memcpy :: "memory \<Rightarrow> uint \<Rightarrow> uint \<Rightarrow> uint \<Rightarrow> memory" where
  "memcpy m dst src n = memmove m dst src n"

fun strncmp :: "cptr \<Rightarrow> cptr \<Rightarrow> nat \<Rightarrow> int" where
  "strncmp p q 0 = 0"
| "strncmp p q (Suc n) =
     (if p 0 \<noteq> 0 \<and> p 0 = q 0 then strncmp (\<lambda>i. p (Suc i)) (\<lambda>i. q (Suc i)) n
      else uint (p 0) - uint (q 0))"

fun strncpy :: "memory \<Rightarrow> uint \<Rightarrow> uint \<Rightarrow> nat \<Rightarrow> memory" where
  "strncpy m s t 0 = m"
| "strncpy m s t (Suc n) =
     (let m' = m(s := m t)
      in if m t \<noteq> 0 then strncpy m' (s + 1) (t + 1) n else stosb m' (s + 1) 0 n)"

fun safestrcpy_loop :: "memory \<Rightarrow> uint \<Rightarrow> uint \<Rightarrow> nat \<Rightarrow> memory" where
  "safestrcpy_loop m s t 0 = m(s := 0)"
| "safestrcpy_loop m s t (Suc n) =
     (let m' = m(s := m t)
      in if m t \<noteq> 0 then safestrcpy_loop m' (s + 1) (t + 1) n else m'(s + 1 := 0))"

definition safestrcpy :: "memory \<Rightarrow> uint \<Rightarrow> uint \<Rightarrow> int \<Rightarrow> memory" where
  "safestrcpy m s t n = (if n \<le> 0 then m else safestrcpy_loop m s t (nat (n - 1)))"

partial_function (option) strlen_from :: "cptr \<Rightarrow> nat \<Rightarrow> nat option" where
  "strlen_from s n = (if s n = 0 then Some n else strlen_from s (Suc n))"

definition strlen :: "cptr \<Rightarrow> nat option" where
  "strlen s = strlen_from s 0"

subsection \<open>Addresses of an area\<close>

definition inside :: "uint \<Rightarrow> nat \<Rightarrow> uint \<Rightarrow> bool" where
  "inside d n a \<longleftrightarrow> unat (a - d) < n"

lemma inside_0 [simp]: "\<not> inside d 0 a"
  by (simp add: inside_def)

lemma inside_self [simp]: "inside d (Suc n) d"
  by (simp add: inside_def)

lemma unat_minus_one_32: "(x::uint) \<noteq> 0 \<Longrightarrow> unat (x - 1) = unat x - 1"
  by (simp add: unat_minus_one)

lemma unat_less_32: "unat (x::uint) < 2 ^ 32"
  using unsigned_less [of x, where 'a = nat] by simp

lemma unat_eq_iff: "n < 2 ^ 32 \<Longrightarrow> unat (x::uint) = n \<longleftrightarrow> x = of_nat n"
  by (auto simp: unat_of_nat)

lemma inside_Suc:
  assumes "Suc n \<le> 2 ^ 32"
  shows "inside d (Suc n) a \<longleftrightarrow> a = d \<or> inside (d + 1) n a"
proof (cases "a = d")
  case False
  then have "a - d \<noteq> 0" by simp
  then have "unat (a - d - 1) = unat (a - d) - 1" "0 < unat (a - d)"
    by (simp_all add: unat_minus_one_32 unat_gt_0)
  then show ?thesis using False by (auto simp: inside_def diff_diff_eq)
qed simp

lemma inside_next:
  assumes "Suc n \<le> 2 ^ 32" "inside (d + 1) n a"
  shows "a \<noteq> d"
proof
  assume "a = d"
  with assms have "unat (-1 :: uint) < n" by (simp add: inside_def)
  moreover have "unat (-1 :: uint) = 2 ^ 32 - 1" by (simp add: unsigned_minus_1_eq_mask mask_eq_exp_minus_1)
  ultimately show False using assms(1) by linarith
qed

lemma inside_mono: "inside d n a \<Longrightarrow> n \<le> k \<Longrightarrow> inside d k a"
  by (simp add: inside_def)

lemma inside_offset: "i < n \<Longrightarrow> n \<le> 2 ^ 32 \<Longrightarrow> inside d n (d + of_nat i)"
  by (simp add: inside_def unat_of_nat take_bit_eq_mod)

subsection \<open>memset\<close>

lemma stosb_eq: "n \<le> 2 ^ 32 \<Longrightarrow> stosb m d c n = (\<lambda>a. if inside d n a then c else m a)"
proof (induction n arbitrary: m d)
  case (Suc n)
  then show ?case
    by (auto simp: fun_eq_iff inside_Suc dest: inside_next)
qed simp

lemma stosb_4: "stosb m d c (Suc (Suc (Suc (Suc k)))) =
    stosb (m(d := c, d + 1 := c, d + 1 + 1 := c, d + 1 + 1 + 1 := c)) (d + 1 + 1 + 1 + 1) c k"
  by (simp only: stosb.simps)

lemma stosl_stosb:
  "byte_of 0 w = c \<Longrightarrow> byte_of 1 w = c \<Longrightarrow> byte_of 2 w = c \<Longrightarrow> byte_of 3 w = c \<Longrightarrow>
   stosl m d w n = stosb m d c (4 * n)"
proof (induction n arbitrary: m d)
  case (Suc n)
  have four: "4 * Suc n = Suc (Suc (Suc (Suc (4 * n))))" by simp
  have "stosb m d c (4 * Suc n) = stosb (store32 m d w) (d + 4) c (4 * n)"
    unfolding four stosb_4 using Suc.prems by (simp add: store32_def add.assoc)
  then show ?case using Suc by simp
qed simp

lemma bytes_of_repeated:
  fixes c :: uint
  defines "b \<equiv> c AND 0xFF"
  defines "w \<equiv> push_bit 24 b OR push_bit 16 b OR push_bit 8 b OR b"
  shows "byte_of 0 w = ucast c" "byte_of 1 w = ucast c" "byte_of 2 w = ucast c" "byte_of 3 w = ucast c"
proof -
  have ff: "(0xFF :: uint) = mask 8" by (simp add: mask_eq_exp_minus_1)
  show "byte_of 0 w = ucast c" "byte_of 1 w = ucast c" "byte_of 2 w = ucast c" "byte_of 3 w = ucast c"
    unfolding w_def b_def ff
    by (rule bit_word_eqI; auto simp: bit_simps bit_byte_of)+
qed

lemma memset_eq: "memset m d c n = (\<lambda>a. if inside d (unat n) a then ucast c else m a)"
proof (cases "unat d mod 4 = 0 \<and> unat n mod 4 = 0")
  case True
  then have "4 * (unat n div 4) = unat n" by presburger
  with True show ?thesis
    using stosl_stosb [OF bytes_of_repeated [of c], of m d "unat n div 4"]
      stosb_eq [of "unat n" m d "ucast c"] unat_less_32 [of n]
    by (simp add: memset_def Let_def)
next
  case False
  then show ?thesis
    using unat_less_32 [of n] by (auto simp: memset_def stosb_eq)
qed

subsection \<open>memmove\<close>

lemma copy_up_eq:
  assumes "n \<le> 2 ^ 32" "unat (d - s) = 0 \<or> n \<le> unat (d - s)"
  shows "copy_up m d s n = (\<lambda>a. if inside d n a then m (s + (a - d)) else m a)"
  using assms
proof (induction n arbitrary: m d s)
  case (Suc n)
  have eq: "d + 1 - (s + 1) = d - s" by simp
  have "copy_up m d s (Suc n) =
      (\<lambda>a. if inside (d + 1) n a then (m(d := m s)) (s + 1 + (a - (d + 1))) else (m(d := m s)) a)"
    unfolding copy_up.simps by (rule Suc.IH) (use Suc.prems eq in auto)
  also have "\<dots> = (\<lambda>a. if inside d (Suc n) a then m (s + (a - d)) else m a)"
  proof
    fix a
    have fresh: "s + (a - d) \<noteq> d" if "inside (d + 1) n a" "d \<noteq> s"
    proof
      assume "s + (a - d) = d"
      then have "a - d = d - s" by (simp add: algebra_simps)
      moreover have "unat (a - d) \<le> n" "a \<noteq> d"
        using that Suc.prems inside_next [of n d a] inside_Suc [of n d a] by (auto simp: inside_def)
      ultimately show False using Suc.prems(2) that(2) by (auto simp: unat_eq_0)
    qed
    show "(if inside (d + 1) n a then (m(d := m s)) (s + 1 + (a - (d + 1))) else (m(d := m s)) a) =
        (if inside d (Suc n) a then m (s + (a - d)) else m a)"
      using Suc.prems(1) fresh inside_next [of n d a]
      by (cases "d = s") (auto simp: inside_Suc)
  qed
  finally show ?case .
qed simp

lemma inside_down:
  assumes "Suc n \<le> 2 ^ 32"
  shows "inside (d - of_nat (Suc n)) (Suc n) a \<longleftrightarrow> a = d - 1 \<or> inside (d - 1 - of_nat n) n a"
proof -
  have e: "d - of_nat (Suc n) = d - 1 - of_nat n" by simp
  have "unat (a - (d - 1 - of_nat n)) = n \<longleftrightarrow> a = d - 1"
  proof -
    have "unat (a - (d - 1 - of_nat n)) = n \<longleftrightarrow> a - (d - 1 - of_nat n) = of_nat n"
      using assms by (intro unat_eq_iff) simp
    then show ?thesis by (auto simp: algebra_simps)
  qed
  then show ?thesis unfolding inside_def e by (auto simp: less_Suc_eq)
qed

lemma copy_down_eq:
  assumes "n \<le> 2 ^ 32" "unat (s - d) = 0 \<or> n \<le> unat (s - d)"
  shows "copy_down m d s n = (\<lambda>a. if inside (d - of_nat n) n a then m (s + (a - d)) else m a)"
  using assms
proof (induction n arbitrary: m d s)
  case (Suc n)
  have eq: "s - 1 - (d - 1) = s - d" by simp
  let ?m = "m(d - 1 := m (s - 1))"
  have "copy_down m d s (Suc n) =
      (\<lambda>a. if inside (d - 1 - of_nat n) n a then ?m (s - 1 + (a - (d - 1))) else ?m a)"
    unfolding copy_down.simps by (rule Suc.IH) (use Suc.prems eq in auto)
  also have "\<dots> = (\<lambda>a. if inside (d - of_nat (Suc n)) (Suc n) a then m (s + (a - d)) else m a)"
  proof
    fix a
    have far: "a \<noteq> d - 1" if "inside (d - 1 - of_nat n) n a"
      using that Suc.prems(1) by (auto simp: inside_def unat_of_nat)
    have fresh: "s - 1 + (a - (d - 1)) \<noteq> d - 1" if "inside (d - 1 - of_nat n) n a" "d \<noteq> s"
    proof
      assume "s - 1 + (a - (d - 1)) = d - 1"
      then have "s - d = d - 1 - a" by (simp add: algebra_simps)
      moreover have "d - 1 - a = of_nat (n - unat (a - (d - 1 - of_nat n)))"
        using that(1) by (simp add: inside_def of_nat_diff algebra_simps)
      ultimately have "unat (s - d) = n - unat (a - (d - 1 - of_nat n))"
        using Suc.prems(1) by (simp add: unat_of_nat)
      then show False using Suc.prems(2) that by (auto simp: inside_def)
    qed
    show "(if inside (d - 1 - of_nat n) n a then ?m (s - 1 + (a - (d - 1))) else ?m a) =
        (if inside (d - of_nat (Suc n)) (Suc n) a then m (s + (a - d)) else m a)"
      using fresh far unfolding inside_down [OF Suc.prems(1)]
      by (cases "d = s") auto
  qed
  finally show ?case .
qed simp

lemma unat_sub_wrap: "(a::uint) < b \<Longrightarrow> unat (a - b) + (unat b - unat a) = 2 ^ 32"
  using unat_less_32 [of b] unat_sub_if' [of a b] by (simp add: word_less_nat_alt)

lemma memmove_eq:
  assumes "unat src + unat n < 2 ^ 32" "unat dst + unat n < 2 ^ 32"
  shows "memmove m dst src n = (\<lambda>a. if inside dst (unat n) a then m (src + (a - dst)) else m a)"
proof -
  have n: "unat n \<le> 2 ^ 32" using unat_less_32 [of n] by simp
  have sn: "unat (src + n) = unat src + unat n"
    using assms(1) by (simp add: unat_word_ariths)
  show ?thesis
  proof (cases "src < dst \<and> src + n > dst")
    case True
    have "unat n \<le> unat (src - dst)"
      using unat_sub_wrap [of src dst] True assms by linarith
    then have far: "unat n \<le> unat (src + n - (dst + n))" by simp
    have off: "src + n + (a - (dst + n)) = src + (a - dst)" for a by simp
    have "copy_down m (dst + n) (src + n) (unat n) =
        (\<lambda>a. if inside dst (unat n) a then m (src + (a - dst)) else m a)"
      using copy_down_eq [OF n, of "src + n" "dst + n" m] far unfolding off by simp
    with True show ?thesis by (simp add: memmove_def)
  next
    case False
    have "unat (dst - src) = 0 \<or> unat n \<le> unat (dst - src)"
    proof (cases "src < dst")
      case True
      with False have "unat src + unat n \<le> unat dst" by (simp add: sn word_less_nat_alt)
      moreover have "unat (dst - src) = unat dst - unat src"
        using True by (intro unat_sub) simp
      ultimately show ?thesis by linarith
    next
      case False
      show ?thesis
      proof (cases "src = dst")
        case False
        with \<open>\<not> src < dst\<close> have "dst < src" by simp
        then show ?thesis using unat_sub_wrap [of dst src] assms by linarith
      qed simp
    qed
    with False copy_up_eq [OF n] show ?thesis by (auto simp: memmove_def)
  qed
qed

subsection \<open>Comparing\<close>

lemma memcmp_0_iff: "memcmp p q n = 0 \<longleftrightarrow> (\<forall>i < n. p i = q i)"
proof (induction n arbitrary: p q)
  case (Suc n)
  have "(\<forall>i < Suc n. p i = q i) \<longleftrightarrow> p 0 = q 0 \<and> (\<forall>i < n. p (Suc i) = q (Suc i))"
    by (auto simp: less_Suc_eq_0_disj)
  with Suc show ?case by (simp add: word_uint_eq_iff)
qed simp

text \<open>Two names agree when they agree up to the first NUL or for \<open>n\<close> bytes.\<close>

definition same_name :: "nat \<Rightarrow> cptr \<Rightarrow> cptr \<Rightarrow> bool" where
  "same_name n p q \<longleftrightarrow> (\<forall>i < n. (\<forall>j < i. p j \<noteq> 0) \<longrightarrow> p i = q i)"

lemma same_name_Suc: "same_name (Suc n) p q \<longleftrightarrow>
    p 0 = q 0 \<and> (p 0 \<noteq> 0 \<longrightarrow> same_name n (\<lambda>i. p (Suc i)) (\<lambda>i. q (Suc i)))"
  unfolding same_name_def
proof (intro iffI conjI impI allI; (elim conjE)?)
  assume *: "\<forall>i < Suc n. (\<forall>j < i. p j \<noteq> 0) \<longrightarrow> p i = q i"
  then show "p 0 = q 0" by simp
  fix i assume "p 0 \<noteq> 0" "i < n" "\<forall>j < i. p (Suc j) \<noteq> 0"
  with * [rule_format, of "Suc i"] show "p (Suc i) = q (Suc i)"
    by (auto simp: less_Suc_eq_0_disj)
next
  fix i assume "i < Suc n" "\<forall>j < i. p j \<noteq> 0" "p 0 = q 0"
    "p 0 \<noteq> 0 \<longrightarrow> (\<forall>i < n. (\<forall>j < i. p (Suc j) \<noteq> 0) \<longrightarrow> p (Suc i) = q (Suc i))"
  then show "p i = q i" by (cases i) auto
qed

lemma strncmp_0_iff: "strncmp p q n = 0 \<longleftrightarrow> same_name n p q"
proof (induction n arbitrary: p q)
  case (Suc n)
  then show ?case by (auto simp: same_name_Suc word_uint_eq_iff [symmetric] uint_0_iff)
qed (simp add: same_name_def)

lemma same_name_sym: "same_name n p q \<Longrightarrow> same_name n q p"
proof (induction n arbitrary: p q)
  case (Suc n)
  then show ?case by (auto simp: same_name_Suc)
qed (simp add: same_name_def)

subsection \<open>Copying strings\<close>

lemma strncpy_frame: "n \<le> 2 ^ 32 \<Longrightarrow> \<not> inside s n a \<Longrightarrow> strncpy m s t n a = m a"
proof (induction n arbitrary: m s t)
  case (Suc n)
  then show ?case by (auto simp: Let_def inside_Suc stosb_eq)
qed simp

lemma safestrcpy_loop_frame:
  "Suc n \<le> 2 ^ 32 \<Longrightarrow> \<not> inside s (Suc n) a \<Longrightarrow> safestrcpy_loop m s t n a = m a"
proof (induction n arbitrary: m s t)
  case (Suc n)
  then have "a \<noteq> s" "\<not> inside (s + 1) (Suc n) a" by (auto simp: inside_Suc)
  moreover from this(2) have "a \<noteq> s + 1" by auto
  ultimately show ?case using Suc by (simp add: Let_def)
qed auto

lemma safestrcpy_loop_nul:
  "Suc n \<le> 2 ^ 32 \<Longrightarrow> \<exists>a. inside s (Suc n) a \<and> safestrcpy_loop m s t n a = 0"
proof (induction n arbitrary: m s t)
  case 0
  then show ?case by (intro exI [of _ s]) simp
next
  case (Suc n)
  show ?case
  proof (cases "m t = 0")
    case True
    have "inside s (Suc (Suc n)) (s + 1)"
      using Suc.prems by (simp add: inside_def)
    with True show ?thesis by (intro exI [of _ "s + 1"]) (simp add: Let_def)
  next
    case False
    obtain a where "inside (s + 1) (Suc n) a" "safestrcpy_loop (m(s := m t)) (s + 1) (t + 1) n a = 0"
      using Suc.IH Suc_leD [OF Suc.prems] by blast
    then show ?thesis
      using False Suc.prems by (intro exI [of _ a]) (simp add: Let_def inside_Suc)
  qed
qed

lemma strlen_from_first:
  "s (n + k) = 0 \<Longrightarrow> \<forall>i < k. s (n + i) \<noteq> 0 \<Longrightarrow> strlen_from s n = Some (n + k)"
proof (induction k arbitrary: n)
  case 0
  then show ?case by (subst strlen_from.simps) simp
next
  case (Suc k)
  have "strlen_from s (Suc n) = Some (Suc n + k)"
    using Suc.prems by (intro Suc.IH) auto
  with Suc.prems(2) show ?case by (subst strlen_from.simps) force
qed

lemma strlen_ptr: "0 \<notin> set xs \<Longrightarrow> strlen (ptr xs) = Some (length xs)"
  using strlen_from_first [of "ptr xs" 0 "length xs"] nth_mem [of _ xs]
  by (fastforce simp: strlen_def ptr_def)

subsection \<open>Properties\<close>

text \<open>
  C15.  \<^verbatim>\<open>memmove\<close> is correct on every overlap: wherever the two areas lie below the end of the
  address space, each byte of the destination gets the byte that the source had before the
  call, and no other byte of memory changes.
\<close>

theorem memmove_correct:
  assumes "unat src + unat n < 2 ^ 32" "unat dst + unat n < 2 ^ 32"
  shows "memmove m dst src n = (\<lambda>a. if inside dst (unat n) a then m (src + (a - dst)) else m a)"
  by (rule memmove_eq [OF assms])

theorem memmove_correct_witness:
  "memmove (\<lambda>a. ucast a) 102 100 4 103 = 101 \<and> memmove (\<lambda>a. ucast a) 98 100 4 101 = 103 \<and>
   memmove (\<lambda>a. ucast a) 98 100 4 102 = 102"
  using memmove_correct [of 100 4 102 "\<lambda>a. ucast a"] memmove_correct [of 100 4 98 "\<lambda>a. ucast a"]
  by (simp add: inside_def)

text \<open>
  C21.  \<^verbatim>\<open>memset\<close> stores the low byte of its argument in exactly the \<^verbatim>\<open>n\<close> bytes from \<^verbatim>\<open>dst\<close>:
  the word-wise fast path for aligned areas and the byte-wise path are the same function.
\<close>

theorem memset_correct:
  "memset m dst c n = (\<lambda>a. if inside dst (unat n) a then ucast c else m a)"
  by (rule memset_eq)

text \<open>
  C20.  \<^verbatim>\<open>safestrcpy\<close> always leaves a terminated string: some byte of the \<^verbatim>\<open>n\<close> bytes of the
  destination is zero afterwards, and no byte outside of them is touched.
\<close>

theorem safestrcpy_safe:
  assumes "0 < n" "n \<le> 2 ^ 32"
  shows "(\<exists>a. inside s (nat n) a \<and> safestrcpy m s t n a = 0) \<and>
    (\<forall>a. \<not> inside s (nat n) a \<longrightarrow> safestrcpy m s t n a = m a)"
proof -
  have n: "Suc (nat (n - 1)) = nat n" "nat n \<le> 2 ^ 32" using assms by simp_all
  then show ?thesis
    using assms safestrcpy_loop_nul [of "nat (n - 1)" s m t] safestrcpy_loop_frame [of "nat (n - 1)" s _ m t]
    by (simp add: safestrcpy_def)
qed

theorem safestrcpy_safe_witness:
  "(\<exists>a. inside 500 16 a \<and> safestrcpy (\<lambda>_. 65) 500 900 16 a = 0) \<and> safestrcpy (\<lambda>_. 65) 500 900 16 516 = 65"
  using safestrcpy_safe [of 16 500 "\<lambda>_. 65" 900] by (simp add: inside_def)

text \<open>
  \<^verbatim>\<open>strncmp\<close> returns zero exactly on names that agree up to the first NUL or up to the
  length of the field, which is what directory lookup compares with.
\<close>

lemma strncmp_names: "strncmp p q n = 0 \<longleftrightarrow> same_name n p q"
  by (rule strncmp_0_iff)

end
