(* ===== verification/Kalloc.thy ===== *)
theory Kalloc
  imports Sched Kstring
begin

text \<open>
  The physical page allocator (\<^verbatim>\<open>kalloc.c\<close>).  The free list is the C one: the first word of a
  free page holds the address of the next, in the byte-addressed memory.  The lemmas relate it
  to the plain list of free pages, and the interface \<open>page_allocator\<close> states what the rest of
  the kernel relies on.
\<close>

subsection \<open>State and operations\<close>

record kmem = kproc +
  mem :: memory
  use_lock :: bool
  freelist :: uint
  kend :: uint

definition kfree :: "uint \<Rightarrow> 'a kmem_scheme \<Rightarrow> 'a kmem_scheme result" where
  "kfree v s =
     (if unat v mod unat PGSIZE \<noteq> 0 \<or> v < kend s \<or> V2P v \<ge> PHYSTOP then Panic ''kfree''
      else let s = s\<lparr>mem := memset (mem s) v 1 PGSIZE\<rparr>
        in rbind (if use_lock s then acquire KmemLock s else Ret s) (\<lambda>s.
           let s = s\<lparr>mem := store32 (mem s) v (freelist s), freelist := v\<rparr>
           in if use_lock s then release KmemLock s else Ret s))"

definition kalloc :: "'a kmem_scheme \<Rightarrow> (uint \<times> 'a kmem_scheme) result" where
  "kalloc s =
     rbind (if use_lock s then acquire KmemLock s else Ret s) (\<lambda>s.
     let r = freelist s;
         s = (if r \<noteq> 0 then s\<lparr>freelist := load32 (mem s) r\<rparr> else s)
     in rbind (if use_lock s then release KmemLock s else Ret s) (\<lambda>s. Ret (r, s)))"

lemma kfree_Ret_bound:
  "kfree v s = Ret s' \<Longrightarrow> V2P v < PHYSTOP \<and> unat v mod 4096 = 0"
  by (auto simp: kfree_def PGSIZE_def not_le split: if_splits)

lemma V2P_bound: "V2P v < PHYSTOP \<Longrightarrow> unat v < 0x8E000000"
proof -
  assume "V2P v < PHYSTOP"
  then have "unat (v - 0x80000000) < 0xE000000"
    by (simp add: V2P_def const_simps word_less_nat_alt)
  then show ?thesis
    using unat_sub_if' [of v "0x80000000"] by (auto split: if_splits)
qed

text \<open>
  The loop of \<^verbatim>\<open>freerange\<close> ends because \<^verbatim>\<open>kfree\<close> panics before the address can wrap around.
\<close>

function freerange_loop :: "uint \<Rightarrow> uint \<Rightarrow> 'a kmem_scheme \<Rightarrow> 'a kmem_scheme result" where
  "freerange_loop p vend s =
     (if p + PGSIZE \<le> vend then rbind (kfree p s) (freerange_loop (p + PGSIZE) vend) else Ret s)"
  by pat_completeness auto
termination
proof (relation "measure (\<lambda>(p, vend, s). 2 ^ 32 - unat p)", goal_cases)
  case (2 p vend s t)
  then have "unat p < 0x8E000000" using kfree_Ret_bound V2P_bound by blast
  then have "unat (p + PGSIZE) = unat p + 4096"
    by (simp add: PGSIZE_def unat_word_ariths)
  with \<open>unat p < 0x8E000000\<close> show ?case by simp
qed simp

declare freerange_loop.simps [simp del]

definition freerange :: "uint \<Rightarrow> uint \<Rightarrow> 'a kmem_scheme \<Rightarrow> 'a kmem_scheme result" where
  "freerange vstart vend s = freerange_loop (PGROUNDUP vstart) vend s"

definition kinit1 :: "uint \<Rightarrow> uint \<Rightarrow> 'a kmem_scheme \<Rightarrow> 'a kmem_scheme result" where
  "kinit1 vstart vend s =
     (let s = initlock KmemLock ''kmem'' s; s = s\<lparr>use_lock := False\<rparr> in freerange vstart vend s)"

definition kinit2 :: "uint \<Rightarrow> uint \<Rightarrow> 'a kmem_scheme \<Rightarrow> 'a kmem_scheme result" where
  "kinit2 vstart vend s =
     rbind (freerange vstart vend s) (\<lambda>s. Ret (s\<lparr>use_lock := True\<rparr>))"

subsection \<open>The free list\<close>

fun run_list :: "memory \<Rightarrow> uint \<Rightarrow> uint list \<Rightarrow> bool" where
  "run_list m p [] \<longleftrightarrow> p = 0"
| "run_list m p (x # xs) \<longleftrightarrow> p = x \<and> x \<noteq> 0 \<and> run_list m (load32 m x) xs"

definition page_ok :: "uint \<Rightarrow> uint \<Rightarrow> bool" where
  "page_ok e v \<longleftrightarrow> unat v mod 4096 = 0 \<and> e \<le> v \<and> V2P v < PHYSTOP"

definition kmem_inv :: "'a kmem_scheme \<Rightarrow> uint list \<Rightarrow> bool" where
  "kmem_inv s xs \<longleftrightarrow> cpu_ok s \<and> lock_free KmemLock s \<and> 0 < kend s \<and>
     run_list (mem s) (freelist s) xs \<and> distinct xs \<and> (\<forall>x \<in> set xs. page_ok (kend s) x)"

lemma page_base: "unat (v::uint) mod 4096 = 0 \<Longrightarrow> unat v = 4096 * (unat v div 4096)"
  using mult_div_mod_eq [of 4096 "unat v"] by simp

lemma page_in_word: "unat (v::uint) mod 4096 = 0 \<Longrightarrow> i < 4096 \<Longrightarrow> unat (v + of_nat i) = unat v + i"
proof -
  assume v: "unat v mod 4096 = 0" and i: "i < 4096"
  have "4096 * (unat v div 4096) < 2 ^ 32"
    using page_base [OF v] unat_less_32 [of v] by simp
  then have "unat v div 4096 < 1048576" by simp
  then have "4096 * (unat v div 4096) + 4096 \<le> 2 ^ 32" by simp
  with page_base [OF v] have "unat v + 4096 \<le> 2 ^ 32" by simp
  with i show ?thesis by (simp add: unat_word_ariths unat_of_nat)
qed

lemma inside_page:
  assumes "unat v mod 4096 = 0"
  shows "inside v 4096 a \<longleftrightarrow> unat a div 4096 = unat v div 4096"
proof
  assume "inside v 4096 a"
  then have a: "unat a = unat v + unat (a - v)" and lt: "unat (a - v) < 4096"
    using page_in_word [OF assms, of "unat (a - v)"] by (simp_all add: inside_def)
  have "unat a = unat (a - v) + (unat v div 4096) * 4096" using a page_base [OF assms] by simp
  then show "unat a div 4096 = unat v div 4096" using lt by simp
next
  assume d: "unat a div 4096 = unat v div 4096"
  have "unat a = 4096 * (unat v div 4096) + unat a mod 4096"
    using mult_div_mod_eq [of 4096 "unat a"] d by simp
  then have "unat a = unat v + unat a mod 4096" using page_base [OF assms] by simp
  then have "unat v \<le> unat a" "unat a < unat v + 4096"
    using mod_less_divisor [of 4096 "unat a"] by linarith+
  then show "inside v 4096 a" by (simp add: inside_def unat_sub word_le_nat_alt)
qed

lemma page_words:
  assumes "unat v mod 4096 = 0" "a \<in> {v, v + 1, v + 2, v + 3}"
  shows "inside v 4096 a"
  using assms(2) by (auto simp: inside_def)

lemma pages_disjoint:
  assumes "unat v mod 4096 = 0" "unat w mod 4096 = 0" "v \<noteq> w" "inside v 4096 a"
  shows "\<not> inside w 4096 a"
proof
  assume "inside w 4096 a"
  with assms have "unat v div 4096 = unat w div 4096" by (simp add: inside_page)
  with assms(1,2) have "unat v = unat w" using page_base by metis
  with assms(3) show False by (simp add: word_unat_eq_iff)
qed

text \<open>Writes to one page leave the links of the others.\<close>

definition page_frame :: "uint \<Rightarrow> memory \<Rightarrow> memory \<Rightarrow> bool" where
  "page_frame v m m' \<longleftrightarrow> (\<forall>a. \<not> inside v 4096 a \<longrightarrow> m' a = m a)"

lemma page_frame_load32:
  assumes "page_frame v m m'" "unat v mod 4096 = 0" "unat w mod 4096 = 0" "v \<noteq> w"
  shows "load32 m' w = load32 m w"
proof (rule load32_cong)
  fix x assume "x \<in> {w, w + 1, w + 2, w + 3}"
  then have "inside w 4096 x" by (rule page_words [OF assms(3)])
  then have "\<not> inside v 4096 x" using pages_disjoint [OF assms(3,2)] assms(4) by blast
  with assms(1) show "m' x = m x" by (simp add: page_frame_def)
qed

lemma run_list_frame:
  assumes "page_frame v m m'" "unat v mod 4096 = 0" "v \<notin> set xs" "\<forall>x \<in> set xs. unat x mod 4096 = 0"
  shows "run_list m' p xs = run_list m p xs"
  using assms(3,4)
proof (induction xs arbitrary: p)
  case (Cons x xs)
  then show ?case using page_frame_load32 [OF assms(1,2), of x] by auto
qed simp

lemma page_frame_kfree:
  "unat v mod 4096 = 0 \<Longrightarrow> page_frame v m (store32 (memset m v 1 PGSIZE) v w)"
  unfolding page_frame_def
proof (intro allI impI)
  fix a assume v: "unat v mod 4096 = 0" and a: "\<not> inside v 4096 a"
  then have "a \<notin> {v, v + 1, v + 2, v + 3}" using page_words [OF v, of a] by blast
  then show "store32 (memset m v 1 PGSIZE) v w a = m a"
    using a by (simp add: store32_other memset_eq PGSIZE_def)
qed

subsection \<open>What the operations do to it\<close>

lemma acq_kmem [simp]:
  "mem (acq l s) = mem s" "use_lock (acq l s) = use_lock s"
  "freelist (acq l s) = freelist s" "kend (acq l s) = kend s"
  by (simp_all add: acq_def Let_def)

lemma same_cpu_kmem [simp]:
  "same_cpu (s\<lparr>mem := x\<rparr>) t = same_cpu s t" "same_cpu (s\<lparr>freelist := f\<rparr>) t = same_cpu s t"
  by (simp_all add: same_cpu_def)

lemma cpu_ok_kmem [simp]:
  "cpu_ok (s\<lparr>mem := x\<rparr>) = cpu_ok s" "lock_free l (s\<lparr>mem := x\<rparr>) = lock_free l s"
  "cpu_ok (s\<lparr>freelist := f\<rparr>) = cpu_ok s" "lock_free l (s\<lparr>freelist := f\<rparr>) = lock_free l s"
  "cpu_ok (s\<lparr>use_lock := b\<rparr>) = cpu_ok s" "lock_free l (s\<lparr>use_lock := b\<rparr>) = lock_free l s"
  by (auto intro!: same_cpu_ok same_cpu_free simp: same_cpu_def)

lemma unacq_kmem [simp]:
  "unacq s (t\<lparr>mem := x\<rparr>) = (unacq s t)\<lparr>mem := x\<rparr>"
  "unacq s (t\<lparr>freelist := f\<rparr>) = (unacq s t)\<lparr>freelist := f\<rparr>"
  by (simp_all add: unacq_def)

lemma acq_mem [simp]: "acq l (s\<lparr>mem := x\<rparr>) = (acq l s)\<lparr>mem := x\<rparr>"
  by (simp add: acq_def this_cpu_def Let_def)

definition kfree_state :: "uint \<Rightarrow> 'a kmem_scheme \<Rightarrow> 'a kmem_scheme" where
  "kfree_state v s =
     s\<lparr>mem := store32 (memset (mem s) v 1 PGSIZE) v (freelist s), freelist := v\<rparr>"

lemma kfree_Ret:
  assumes "cpu_ok s" "lock_free KmemLock s" "page_ok (kend s) v"
  shows "kfree v s = Ret (kfree_state v s)"
proof -
  have ok: "\<not> (unat v mod unat PGSIZE \<noteq> 0 \<or> v < kend s \<or> V2P v \<ge> PHYSTOP)"
    using assms(3) by (auto simp: page_ok_def PGSIZE_def)
  let ?m = "memset (mem s) v 1 PGSIZE"
  let ?t = "(acq KmemLock s)\<lparr>mem := store32 ?m v (freelist s), freelist := v\<rparr>"
  have "release KmemLock ?t = Ret (unacq s ?t)"
    by (intro release_acq assms(1,2)) simp
  then show ?thesis
    using assms ok by (simp add: kfree_def acquire_free kfree_state_def Let_def)
qed

lemma kfree_panic:
  "\<not> page_ok (kend s) v \<Longrightarrow> kfree v s = Panic ''kfree''"
  by (auto simp: kfree_def page_ok_def PGSIZE_def not_le not_less)

lemma kmem_inv_kfree:
  assumes inv: "kmem_inv s xs" and v: "page_ok (kend s) v" "v \<notin> set xs"
  shows "kmem_inv (kfree_state v s) (v # xs)"
proof -
  have al: "unat v mod 4096 = 0" using v(1) by (simp add: page_ok_def)
  have "v \<noteq> 0" using v(1) inv by (auto simp: page_ok_def kmem_inv_def)
  moreover have "run_list (mem (kfree_state v s)) (freelist s) xs"
    using inv v run_list_frame [OF page_frame_kfree [OF al], of xs]
    by (simp add: kmem_inv_def page_ok_def kfree_state_def)
  ultimately show ?thesis
    using inv v by (simp add: kmem_inv_def kfree_state_def)
qed

definition kalloc_state :: "'a kmem_scheme \<Rightarrow> 'a kmem_scheme" where
  "kalloc_state s = (if freelist s \<noteq> 0 then s\<lparr>freelist := load32 (mem s) (freelist s)\<rparr> else s)"

lemma kalloc_Ret:
  assumes "cpu_ok s" "lock_free KmemLock s"
  shows "kalloc s = Ret (freelist s, kalloc_state s)"
proof -
  have r: "release KmemLock (acq KmemLock s) = Ret s"
    using release_acq [OF assms, of "acq KmemLock s"] by simp
  let ?t = "(acq KmemLock s)\<lparr>freelist := load32 (mem s) (freelist s)\<rparr>"
  have "release KmemLock ?t = Ret (unacq s ?t)"
    by (intro release_acq assms) simp
  with r show ?thesis
    using assms by (simp add: kalloc_def acquire_free kalloc_state_def Let_def)
qed

lemma kmem_inv_kalloc:
  "kmem_inv s (x # xs) \<Longrightarrow> freelist s = x \<and> kmem_inv (kalloc_state s) xs"
  by (auto simp: kmem_inv_def kalloc_state_def)

lemma kmem_inv_empty: "kmem_inv s [] \<Longrightarrow> freelist s = 0 \<and> kalloc_state s = s"
  by (simp add: kmem_inv_def kalloc_state_def)

subsection \<open>The interface\<close>

text \<open>
  What the users of \<^verbatim>\<open>kalloc\<close> and \<^verbatim>\<open>kfree\<close> rely on, with the pages that are free as the state.
\<close>

locale page_allocator =
  fixes alloc :: "'s \<Rightarrow> (uint \<times> 's) result"
    and free :: "uint \<Rightarrow> 's \<Rightarrow> 's result"
    and avail :: "'s \<Rightarrow> uint list \<Rightarrow> bool"
    and good :: "'s \<Rightarrow> uint \<Rightarrow> bool"
  assumes alloc_page: "avail s (x # xs) \<Longrightarrow> \<exists>t. alloc s = Ret (x, t) \<and> avail t xs"
    and alloc_none: "avail s [] \<Longrightarrow> alloc s = Ret (0, s)"
    and free_page: "avail s xs \<Longrightarrow> good s v \<Longrightarrow> v \<notin> set xs \<Longrightarrow>
      \<exists>t. free v s = Ret t \<and> avail t (v # xs)"
    and free_bad: "\<not> good s v \<Longrightarrow> free v s = Panic ''kfree''"
    and avail_distinct: "avail s xs \<Longrightarrow> distinct xs \<and> 0 \<notin> set xs"
begin

fun alloc_n :: "nat \<Rightarrow> 's \<Rightarrow> (uint list \<times> 's) result" where
  "alloc_n 0 s = Ret ([], s)"
| "alloc_n (Suc n) s =
     rbind (alloc s) (\<lambda>(p, s). rbind (alloc_n n s) (\<lambda>(ps, s). Ret (p # ps, s)))"

lemma alloc_n_take:
  "avail s xs \<Longrightarrow> n \<le> length xs \<Longrightarrow> \<exists>t. alloc_n n s = Ret (take n xs, t) \<and> avail t (drop n xs)"
proof (induction n arbitrary: s xs)
  case (Suc n)
  then obtain x ys where xs: "xs = x # ys" by (cases xs) auto
  with Suc.prems(1) obtain t where t: "alloc s = Ret (x, t)" "avail t ys"
    using alloc_page by blast
  obtain u where "alloc_n n t = Ret (take n ys, u)" "avail u (drop n ys)"
    using Suc.IH [OF t(2)] Suc.prems(2) xs by auto
  with t xs show ?case by simp
qed simp

lemma alloc_after_free:
  assumes "avail s xs" "good s v" "v \<notin> set xs"
  shows "\<exists>t u. free v s = Ret t \<and> alloc t = Ret (v, u) \<and> avail u xs"
  using free_page [OF assms] alloc_page by blast

lemma alloc_null_iff:
  "avail s xs \<Longrightarrow> \<exists>p t. alloc s = Ret (p, t) \<and> (p = 0 \<longleftrightarrow> xs = [])"
  using alloc_page alloc_none avail_distinct by (cases xs) fastforce+

end

interpretation kmem: page_allocator kalloc kfree kmem_inv "\<lambda>s. page_ok (kend s)"
proof
  fix s :: "'a kmem_scheme" and x v xs
  show "kmem_inv s (x # xs) \<Longrightarrow> \<exists>t. kalloc s = Ret (x, t) \<and> kmem_inv t xs"
    using kmem_inv_kalloc [of s x xs] by (auto simp: kalloc_Ret kmem_inv_def)
  show "kmem_inv s [] \<Longrightarrow> kalloc s = Ret (0, s)"
    using kmem_inv_empty [of s] by (simp add: kalloc_Ret kmem_inv_def)
  show "kmem_inv s xs \<Longrightarrow> page_ok (kend s) v \<Longrightarrow> v \<notin> set xs \<Longrightarrow>
      \<exists>t. kfree v s = Ret t \<and> kmem_inv t (v # xs)"
    using kmem_inv_kfree [of s xs v] by (simp add: kfree_Ret kmem_inv_def)
  show "\<not> page_ok (kend s) v \<Longrightarrow> kfree v s = Panic ''kfree''"
    by (rule kfree_panic)
  show "kmem_inv s xs \<Longrightarrow> distinct xs \<and> 0 \<notin> set xs"
    by (auto simp: kmem_inv_def page_ok_def)
qed

subsection \<open>Filling the free list\<close>

definition page_range :: "uint \<Rightarrow> nat \<Rightarrow> uint list" where
  "page_range p n = map (\<lambda>k. p + of_nat (4096 * k)) [0..<n]"

lemma page_range_Suc: "page_range p (Suc n) = p # page_range (p + 4096) n"
proof -
  have "[0..<Suc n] = 0 # map Suc [0..<n]" by (simp add: map_Suc_upt upt_conv_Cons del: upt_Suc)
  then show ?thesis by (simp add: page_range_def algebra_simps del: upt_Suc)
qed

lemma V2P_low: "unat v < 0x8E000000 \<Longrightarrow> 0x80000000 \<le> unat v \<Longrightarrow> V2P v < PHYSTOP"
  using unat_sub_if' [of v "0x80000000"]
  by (simp add: V2P_def const_simps word_less_nat_alt)

lemma page_step:
  assumes "unat p + 4096 \<le> unat vend" "unat vend \<le> 0x8E000000"
  shows "unat (p + PGSIZE) = unat p + 4096" "p + PGSIZE = p + 4096" "p + PGSIZE \<le> vend"
proof -
  show u: "unat (p + PGSIZE) = unat p + 4096"
    using assms by (simp add: PGSIZE_def unat_word_ariths)
  show "p + PGSIZE = p + 4096" by (simp add: PGSIZE_def)
  show "p + PGSIZE \<le> vend" using u assms by (simp add: word_le_nat_alt)
qed

lemma freerange_stop:
  assumes "\<not> unat p + 4096 \<le> unat vend" "unat p \<le> 0x8E000000"
  shows "freerange_loop p vend s = Ret s"
proof -
  have "unat (p + PGSIZE) = unat p + 4096"
    using assms(2) by (simp add: PGSIZE_def unat_word_ariths)
  with assms(1) have "\<not> p + PGSIZE \<le> vend" by (simp add: word_le_nat_alt)
  then show ?thesis by (simp add: freerange_loop.simps)
qed

lemma freerange_loop_inv:
  assumes "n = (unat vend - unat p) div 4096" "unat p mod 4096 = 0" "kend s \<le> p"
    "0x80000000 \<le> unat p" "unat p \<le> 0x8E000000" "unat vend \<le> 0x8E000000"
    "kmem_inv s xs" "\<forall>x \<in> set xs. x < p \<or> vend \<le> x"
  shows "\<exists>t. freerange_loop p vend s = Ret t \<and> kmem_inv t (rev (page_range p n) @ xs)"
  using assms
proof (induction n arbitrary: p s xs)
  case 0
  then have "(unat vend - unat p) div 4096 = 0" by simp
  then have "unat vend - unat p < 4096" by simp
  then have "\<not> unat p + 4096 \<le> unat vend" by linarith
  with 0 freerange_stop [of p vend s] show ?case by (simp add: page_range_def)
next
  case (Suc n)
  have "4096 * Suc n \<le> unat vend - unat p"
    unfolding Suc.prems(1) by (rule times_div_less_eq_dividend)
  then have room: "unat p + 4096 \<le> unat vend" by simp
  note st = page_step [OF room Suc.prems(6)]
  have ok: "page_ok (kend s) p"
    using Suc.prems room by (simp add: page_ok_def V2P_low)
  have new: "p \<notin> set xs"
  proof
    assume "p \<in> set xs"
    with Suc.prems(8) have "vend \<le> p" by auto
    with room show False by (simp add: word_le_nat_alt)
  qed
  have kf: "kfree p s = Ret (kfree_state p s)"
    using Suc.prems(7) ok by (simp add: kfree_Ret kmem_inv_def)
  have inv: "kmem_inv (kfree_state p s) (p # xs)"
    by (rule kmem_inv_kfree [OF Suc.prems(7) ok new])
  have "p < p + 4096" using st by (simp add: word_less_nat_alt)
  then have sep: "\<forall>x \<in> set (p # xs). x < p + 4096 \<or> vend \<le> x"
    using Suc.prems(8) by (auto intro: less_trans)
  have "\<exists>t. freerange_loop (p + 4096) vend (kfree_state p s) = Ret t \<and>
      kmem_inv t (rev (page_range (p + 4096) n) @ p # xs)"
  proof (rule Suc.IH [OF _ _ _ _ _ _ inv sep])
    have "unat vend - unat p = (unat vend - unat (p + 4096)) + 4096"
      using st room by simp
    with Suc.prems(1) show "n = (unat vend - unat (p + 4096)) div 4096" by simp
    show "unat (p + 4096) mod 4096 = 0" using st Suc.prems(2) by simp
    show "kend (kfree_state p s) \<le> p + 4096"
      using Suc.prems(3) \<open>p < p + 4096\<close> by (simp add: kfree_state_def)
    show "0x80000000 \<le> unat (p + 4096)" "unat (p + 4096) \<le> 0x8E000000" "unat vend \<le> 0x8E000000"
      using st Suc.prems room by simp_all
  qed
  then show ?case
    using kf st by (subst freerange_loop.simps) (simp add: page_range_Suc)
qed

subsection \<open>Properties\<close>

lemma kinit1_pages:
  assumes "cpu_ok s" "freelist s = 0" "0 < kend s" "kend s \<le> vstart" "0x80000000 \<le> unat vstart"
    "unat vstart \<le> unat vend" "unat vend \<le> 0x8E000000" "unat vstart mod 4096 = 0"
  shows "\<exists>t. kinit1 vstart vend s = Ret t \<and>
    kmem_inv t (rev (page_range vstart ((unat vend - unat vstart) div 4096)))"
proof -
  let ?s = "(initlock KmemLock ''kmem'' s)\<lparr>use_lock := False\<rparr>"
  have ok: "cpu_ok (initlock KmemLock ''kmem'' s)"
    using assms(1) by simp
  have e: "kend ?s = kend s" "freelist ?s = 0" using assms(2) by (simp_all add: initlock_def)
  have lf: "lock_free KmemLock (initlock KmemLock ''kmem'' s)" by (simp add: lock_free_def initlock_def)
  have inv: "kmem_inv ?s []" using ok lf e assms(3) by (simp add: kmem_inv_def)
  have up: "PGROUNDUP vstart = vstart" by (rule PGROUNDUP_aligned) (use assms in simp_all)
  show ?thesis
    using freerange_loop_inv [OF refl, of vstart ?s vend "[]"] assms inv e up
    by (simp add: kinit1_def freerange_def Let_def)
qed

text \<open>
  C12.  The page allocator never hands out a page twice: from a free list that holds the pages
  \<open>xs\<close>, any number of calls of \<^verbatim>\<open>kalloc\<close> up to their count returns that many different pages,
  none of them null, each page aligned and between the end of the kernel and \<^verbatim>\<open>PHYSTOP\<close>, and leaves the rest
  of the list, which the C links in the free pages represent.
\<close>

theorem kalloc_no_double:
  assumes "kmem_inv s xs" "n \<le> length xs"
  shows "\<exists>t. page_allocator.alloc_n kalloc n s = Ret (take n xs, t) \<and> kmem_inv t (drop n xs) \<and>
    distinct (take n xs) \<and> 0 \<notin> set (take n xs) \<and> (\<forall>p \<in> set (take n xs). page_ok (kend s) p)"
proof -
  have "distinct xs" "0 \<notin> set xs" using kmem.avail_distinct [OF assms(1)] by simp_all
  moreover have "\<forall>p \<in> set xs. page_ok (kend s) p" using assms(1) by (simp add: kmem_inv_def)
  ultimately show ?thesis
    using kmem.alloc_n_take [OF assms] by (auto dest: in_set_takeD)
qed

definition kmem0 :: kmem where
  "kmem0 = \<lparr>cpus = [\<lparr>apicid = 0, ncli = 0, intena = False, cpu_proc = None\<rparr>], lapicid = 0, eflags_IF = False,
     spin = (\<lambda>_. \<lparr>locked = 0, lkname = [], lkcpu = None\<rparr>), ptable = [], initproc = None, nextpid = 1,
     sleepl = (\<lambda>_. \<lparr>sl_locked = 0, sl_name = [], sl_pid = 0\<rparr>),
     mem = (\<lambda>_. 0), use_lock = True, freelist = 0, kend = 0x80110000\<rparr>"

lemma kmem0_ok: "cpu_ok kmem0" "lock_free l kmem0" "freelist kmem0 = 0" "kend kmem0 = 0x80110000"
  "kmem_inv kmem0 []"
  by (simp_all add: kmem0_def cpu_ok_def nest_ok_def this_cpu_def lock_free_def kmem_inv_def)

lemma page_ok_example: "page_ok 0x80110000 0x80110000" "page_ok 0x80110000 0x80111000"
  by (simp_all add: page_ok_def V2P_def const_simps)

lemma kmem_inv_example:
  "kmem_inv (kfree_state 0x80110000 (kfree_state 0x80111000 kmem0)) [0x80110000, 0x80111000]"
proof -
  have "kmem_inv (kfree_state 0x80111000 kmem0) [0x80111000]"
    by (rule kmem_inv_kfree) (simp_all add: kmem0_ok page_ok_example)
  then show ?thesis
    by (rule kmem_inv_kfree) (simp_all add: kmem0_ok page_ok_example kfree_state_def)
qed

theorem kalloc_no_double_witness:
  "\<exists>t. page_allocator.alloc_n kalloc 2 (kfree_state 0x80110000 (kfree_state 0x80111000 kmem0)) =
     Ret ([0x80110000, 0x80111000], t) \<and> kmem_inv t []"
  using kalloc_no_double [OF kmem_inv_example, of 2] by auto

text \<open>
  C16.  A page given back is the next one handed out, with the free list as it was: \<^verbatim>\<open>kalloc\<close> after
  \<^verbatim>\<open>kfree\<close> of a page that was in use.  \<^verbatim>\<open>kfree\<close> of an address that is not a page of the
  allocator's range panics.
\<close>

theorem kalloc_kfree_roundtrip:
  assumes "kmem_inv s xs" "v \<notin> set xs"
  shows "if page_ok (kend s) v then \<exists>t u. kfree v s = Ret t \<and> kalloc t = Ret (v, u) \<and> kmem_inv u xs
    else kfree v s = Panic ''kfree''"
  using kmem.alloc_after_free [OF assms(1)] kfree_panic assms(2) by auto

theorem kalloc_kfree_roundtrip_witness:
  "(\<exists>t u. kfree 0x80111000 kmem0 = Ret t \<and> kalloc t = Ret (0x80111000, u) \<and> kmem_inv u []) \<and>
   kfree 0x80111004 kmem0 = Panic ''kfree''"
  using kalloc_kfree_roundtrip [OF kmem0_ok(5), where v = "0x80111000"]
    kalloc_kfree_roundtrip [OF kmem0_ok(5), where v = "0x80111004"]
  by (simp add: kmem0_ok page_ok_def V2P_def const_simps)



end
