(* ===== verification/Bio.thy ===== *)
theory Bio
  imports Kalloc
begin

text \<open>
  The buffer cache (\<^verbatim>\<open>bio.c\<close>) over the memory disk driver (\<^verbatim>\<open>memide.c\<close>).  Buffers are the
  indices of \<^verbatim>\<open>bcache.buf\<close>, and \<^verbatim>\<open>bcache.head\<close> is the index \<open>NBUF\<close>; the list that orders
  them by their last use is the C one, doubly linked through \<^verbatim>\<open>prev\<close> and \<^verbatim>\<open>next\<close>.  The disk
  keeps, beside its blocks, the sequence of writes it has carried out, which is what is left
  of a run when the machine stops.
\<close>

named_theorems bio_simps \<open>effect of the buffer cache's operations\<close>

subsection \<open>State\<close>

record buf =
  flags :: uint
  bdev :: uint
  blockno :: uint
  refcnt :: uint
  prev :: nat
  "next" :: nat
  bdata :: block

record kbio = kmem +
  bufs :: "buf list"
  memdisk :: "block list"
  dwrites :: "(nat \<times> block) list"

definition head :: nat where "head = NBUF"

abbreviation upd_buf :: "nat \<Rightarrow> (buf \<Rightarrow> buf) \<Rightarrow> 'a kbio_scheme \<Rightarrow> 'a kbio_scheme" where
  "upd_buf b f s \<equiv> s\<lparr>bufs := (bufs s)[b := f (bufs s ! b)]\<rparr>"

definition set_next :: "nat \<Rightarrow> nat \<Rightarrow> buf list \<Rightarrow> buf list" where
  "set_next i v bs = bs[i := (bs ! i)\<lparr>next := v\<rparr>]"

definition set_prev :: "nat \<Rightarrow> nat \<Rightarrow> buf list \<Rightarrow> buf list" where
  "set_prev i v bs = bs[i := (bs ! i)\<lparr>prev := v\<rparr>]"

subsection \<open>The disk driver\<close>

definition iderw :: "nat \<Rightarrow> 'a kbio_scheme \<Rightarrow> 'a kbio_scheme result" where
  "iderw b s =
     rbind (holdingsleep (BufLock b) s) (\<lambda>(h, s).
     let x = bufs s ! b in
     if \<not> h then Panic ''iderw: buf not locked''
     else if flags x AND (B_VALID OR B_DIRTY) = B_VALID then Panic ''iderw: nothing to do''
     else if bdev x \<noteq> 1 then Panic ''iderw: request not for disk 1''
     else if unat (blockno x) \<ge> length (memdisk s) then Panic ''iderw: block out of range''
     else if flags x AND B_DIRTY \<noteq> 0
     then Ret (s\<lparr>bufs := (bufs s)[b := x\<lparr>flags := (flags x AND NOT B_DIRTY) OR B_VALID\<rparr>],
                 memdisk := (memdisk s)[unat (blockno x) := bdata x],
                 dwrites := dwrites s @ [(unat (blockno x), bdata x)]\<rparr>)
     else Ret (s\<lparr>bufs := (bufs s)[b := x\<lparr>bdata := memdisk s ! unat (blockno x),
                                       flags := flags x OR B_VALID\<rparr>]\<rparr>))"

subsection \<open>The cache\<close>

definition binit_one :: "nat \<Rightarrow> buf list \<Rightarrow> buf list" where
  "binit_one b bs =
     (let bs = set_next b (next (bs ! head)) bs;
          bs = set_prev b head bs;
          bs = set_prev (next (bs ! head)) b bs
      in set_next head b bs)"

fun binit_loop :: "nat \<Rightarrow> nat \<Rightarrow> 'a kbio_scheme \<Rightarrow> 'a kbio_scheme" where
  "binit_loop b 0 s = s"
| "binit_loop b (Suc n) s =
     (let s = initsleeplock (BufLock b) ''buffer'' s
      in binit_loop (Suc b) n (s\<lparr>bufs := binit_one b (bufs s)\<rparr>))"

definition binit :: "'a kbio_scheme \<Rightarrow> 'a kbio_scheme" where
  "binit s =
     (let s = initlock BcacheLock ''bcache'' s;
          s = s\<lparr>bufs := set_next head head (set_prev head head (bufs s))\<rparr>
      in binit_loop 0 NBUF s)"

partial_function (option) scan ::
  "(buf \<Rightarrow> nat) \<Rightarrow> (buf \<Rightarrow> bool) \<Rightarrow> buf list \<Rightarrow> nat \<Rightarrow> nat option option" where
  "scan link P bs b =
     (if b = head then Some None
      else if P (bs ! b) then Some (Some b)
      else scan link P bs (link (bs ! b)))"

definition bget :: "uint \<Rightarrow> uint \<Rightarrow> 'a kbio_scheme \<Rightarrow> (nat \<times> 'a kbio_scheme) result" where
  "bget dev bno s =
     rbind (acquire BcacheLock s) (\<lambda>s.
     case scan next (\<lambda>b. bdev b = dev \<and> blockno b = bno) (bufs s) (next (bufs s ! head)) of
       None \<Rightarrow> Hang
     | Some (Some b) \<Rightarrow>
         let s = upd_buf b (\<lambda>x. x\<lparr>refcnt := refcnt x + 1\<rparr>) s
         in rbind (release BcacheLock s) (\<lambda>s.
            rbind (acquiresleep (BufLock b) s) (\<lambda>s. Ret (b, s)))
     | Some None \<Rightarrow>
        (case scan prev (\<lambda>b. refcnt b = 0 \<and> flags b AND B_DIRTY = 0) (bufs s) (prev (bufs s ! head)) of
           None \<Rightarrow> Hang
         | Some (Some b) \<Rightarrow>
             let s = upd_buf b (\<lambda>x. x\<lparr>bdev := dev, blockno := bno, flags := 0, refcnt := 1\<rparr>) s
             in rbind (release BcacheLock s) (\<lambda>s.
                rbind (acquiresleep (BufLock b) s) (\<lambda>s. Ret (b, s)))
         | Some None \<Rightarrow> Panic ''bget: no buffers''))"

definition bread :: "uint \<Rightarrow> uint \<Rightarrow> 'a kbio_scheme \<Rightarrow> (nat \<times> 'a kbio_scheme) result" where
  "bread dev bno s =
     rbind (bget dev bno s) (\<lambda>(b, s).
     if flags (bufs s ! b) AND B_VALID = 0
     then rbind (iderw b s) (\<lambda>s. Ret (b, s)) else Ret (b, s))"

definition bwrite :: "nat \<Rightarrow> 'a kbio_scheme \<Rightarrow> 'a kbio_scheme result" where
  "bwrite b s =
     rbind (holdingsleep (BufLock b) s) (\<lambda>(h, s).
     if \<not> h then Panic ''bwrite''
     else iderw b (upd_buf b (\<lambda>x. x\<lparr>flags := flags x OR B_DIRTY\<rparr>) s))"

text \<open>\<^verbatim>\<open>brelse\<close>'s relinking of a buffer that is no longer used to the front of the list.\<close>

definition to_front :: "nat \<Rightarrow> buf list \<Rightarrow> buf list" where
  "to_front b bs =
     (let bs = set_prev (next (bs ! b)) (prev (bs ! b)) bs;
          bs = set_next (prev (bs ! b)) (next (bs ! b)) bs;
          bs = set_next b (next (bs ! head)) bs;
          bs = set_prev b head bs;
          bs = set_prev (next (bs ! head)) b bs
      in set_next head b bs)"

definition brelse :: "nat \<Rightarrow> 'a kbio_scheme \<Rightarrow> 'a kbio_scheme result" where
  "brelse b s =
     rbind (holdingsleep (BufLock b) s) (\<lambda>(h, s).
     if \<not> h then Panic ''brelse''
     else rbind (releasesleep (BufLock b) s) (\<lambda>s.
       rbind (acquire BcacheLock s) (\<lambda>s.
       let s = upd_buf b (\<lambda>x. x\<lparr>refcnt := refcnt x - 1\<rparr>) s;
           s = (if refcnt (bufs s ! b) = 0 then s\<lparr>bufs := to_front b (bufs s)\<rparr> else s)
       in release BcacheLock s)))"

text \<open>Storing into \<^verbatim>\<open>b->data\<close>, which the holder of a buffer does between \<^verbatim>\<open>bread\<close> and its release.\<close>

definition set_bdata :: "nat \<Rightarrow> block \<Rightarrow> 'a kbio_scheme \<Rightarrow> 'a kbio_scheme" where
  "set_bdata b d s = upd_buf b (\<lambda>x. x\<lparr>bdata := d\<rparr>) s"

subsection \<open>Cyclic chains\<close>

text \<open>\<open>chain f a xs z\<close>: following \<open>f\<close> from \<open>a\<close> visits \<open>xs\<close> and then arrives at \<open>z\<close>.\<close>

fun chain :: "(nat \<Rightarrow> nat) \<Rightarrow> nat \<Rightarrow> nat list \<Rightarrow> nat \<Rightarrow> bool" where
  "chain f a [] z \<longleftrightarrow> f a = z"
| "chain f a (x # xs) z \<longleftrightarrow> f a = x \<and> chain f x xs z"

lemma chain_append: "chain f a (xs @ y # ys) z \<longleftrightarrow> chain f a xs y \<and> chain f y ys z"
  by (induction xs arbitrary: a) auto

lemma chain_cong: "(\<And>x. x = a \<or> x \<in> set xs \<Longrightarrow> f x = g x) \<Longrightarrow> chain f a xs z = chain g a xs z"
  by (induction xs arbitrary: a) auto

lemma chain_upd [simp]: "u \<noteq> a \<Longrightarrow> u \<notin> set xs \<Longrightarrow> chain (f(u := v)) a xs z = chain f a xs z"
  by (rule chain_cong) auto

lemma chain_first: "chain f a xs z \<Longrightarrow> f a = hd (xs @ [z])"
  by (cases xs) auto

lemma chain_redirect:
  "chain f a xs y \<Longrightarrow> distinct (a # xs) \<Longrightarrow> chain (f(last (a # xs) := z)) a xs z"
proof (induction xs arbitrary: a)
  case (Cons x xs)
  have "last (a # x # xs) = last (x # xs)" by simp
  moreover have "last (x # xs) \<in> set (x # xs)" by (rule last_in_set) simp
  ultimately show ?case using Cons by (metis chain.simps(2) distinct.simps(2) fun_upd_other)
qed simp

lemma chain_unlink:
  assumes "chain f h (ys @ b # zs) h" "distinct (h # ys @ b # zs)"
  shows "chain (f(last (h # ys) := f b)) h (ys @ zs) h"
proof -
  let ?g = "f(last (h # ys) := f b)"
  have y: "chain f h ys b" and z: "chain f b zs h" using assms(1) by (simp_all add: chain_append)
  have r: "chain ?g h ys (f b)" by (rule chain_redirect [OF y]) (use assms(2) in auto)
  show ?thesis
  proof (cases zs)
    case Nil
    with z r show ?thesis by simp
  next
    case (Cons w ws)
    have "last (h # ys) \<in> set (h # ys)" by (rule last_in_set) simp
    then have "last (h # ys) \<notin> set (w # ws)" using assms(2) Cons by auto
    then have "chain ?g w ws h" using z Cons by simp
    moreover have "f b = w" using z Cons by simp
    ultimately show ?thesis using r Cons by (simp add: chain_append)
  qed
qed

lemma chain_push_front:
  "chain f h ws h \<Longrightarrow> distinct (h # b # ws) \<Longrightarrow> chain (f(b := f h, h := b)) h (b # ws) h"
  by (cases ws) auto

lemma chain_push_back:
  assumes "chain f h vs h" "distinct (h # b # vs)"
  shows "chain (f(b := h, last (h # vs) := b)) h (vs @ [b]) h"
proof -
  have l: "last (h # vs) \<in> set (h # vs)" by (rule last_in_set) simp
  have "chain (f(b := h)) h vs h" using assms by simp
  then have "chain (f(b := h, last (h # vs) := b)) h vs b"
    by (rule chain_redirect) (use assms(2) in auto)
  moreover have "(f(b := h, last (h # vs) := b)) b = h" using l assms(2) by auto
  ultimately show ?thesis by (simp add: chain_append)
qed

subsection \<open>The list of buffers\<close>

abbreviation nexts :: "buf list \<Rightarrow> nat \<Rightarrow> nat" where "nexts bs \<equiv> \<lambda>i. next (bs ! i)"
abbreviation prevs :: "buf list \<Rightarrow> nat \<Rightarrow> nat" where "prevs bs \<equiv> \<lambda>i. prev (bs ! i)"

definition dll :: "buf list \<Rightarrow> nat list \<Rightarrow> bool" where
  "dll bs xs \<longleftrightarrow> length bs = Suc NBUF \<and> distinct xs \<and> set xs \<subseteq> {..<NBUF} \<and>
     chain (nexts bs) head xs head \<and> chain (prevs bs) head (rev xs) head"

lemma nexts_set_next [simp]: "i < length bs \<Longrightarrow> nexts (set_next i v bs) = (nexts bs)(i := v)"
  by (auto simp: set_next_def nth_list_update fun_eq_iff)

lemma nexts_set_prev [simp]: "nexts (set_prev i v bs) = nexts bs"
proof
  fix x show "nexts (set_prev i v bs) x = nexts bs x"
    by (cases "i < length bs") (simp_all add: set_prev_def nth_list_update list_update_beyond)
qed

lemma prevs_set_prev [simp]: "i < length bs \<Longrightarrow> prevs (set_prev i v bs) = (prevs bs)(i := v)"
  by (auto simp: set_prev_def nth_list_update fun_eq_iff)

lemma prevs_set_next [simp]: "prevs (set_next i v bs) = prevs bs"
proof
  fix x show "prevs (set_next i v bs) x = prevs bs x"
    by (cases "i < length bs") (simp_all add: set_next_def nth_list_update list_update_beyond)
qed

lemma length_set [simp]:
  "length (set_next i v bs) = length bs" "length (set_prev i v bs) = length bs"
  by (simp_all add: set_next_def set_prev_def)

lemma dll_head_less: "dll bs xs \<Longrightarrow> head < length bs \<and> head \<notin> set xs"
  by (auto simp: dll_def head_def)

lemma dll_push:
  assumes "dll bs ws" "b < NBUF" "b \<notin> set ws"
  shows "dll (binit_one b bs) (b # ws)"
proof -
  let ?f = "next (bs ! head)"
  have len: "length bs = Suc NBUF" "distinct ws" "set ws \<subseteq> {..<NBUF}"
    and N: "chain (nexts bs) head ws head" and P: "chain (prevs bs) head (rev ws) head"
    using assms(1) by (simp_all add: dll_def)
  have hd: "head \<noteq> b" "head \<notin> set ws" using assms(2) len(3) by (auto simp: head_def)
  have f: "?f = last (head # rev ws)"
    using chain_first [OF N] by (cases ws) auto
  have flt: "?f < length bs"
    using f len hd by (cases ws) (auto simp: head_def)
  let ?b1 = "set_prev b head (set_next b ?f bs)"
  have b1: "nexts ?b1 = (nexts bs)(b := ?f)" "prevs ?b1 = (prevs bs)(b := head)"
    using assms(2) len(1) by simp_all
  have n1: "next (?b1 ! head) = ?f" using fun_cong [OF b1(1), of head] hd by simp
  have res: "binit_one b bs = set_next head b (set_prev ?f b ?b1)"
    by (simp add: binit_one_def Let_def n1)
  have "nexts (binit_one b bs) = (nexts bs)(b := ?f, head := b)"
    using len(1) b1 by (simp add: res head_def)
  moreover have "prevs (binit_one b bs) = (prevs bs)(b := head, ?f := b)"
    using flt b1 by (simp add: res)
  moreover have "chain ((nexts bs)(b := ?f, head := b)) head (b # ws) head"
    using chain_push_front [OF N, of b] hd assms(3) len(2) by auto
  moreover have "chain ((prevs bs)(b := head, ?f := b)) head (rev ws @ [b]) head"
    unfolding f using chain_push_back [OF P, of b] hd assms(3) len(2) by auto
  ultimately show ?thesis
    using assms(2,3) len by (simp add: dll_def res)
qed

definition unlink :: "nat \<Rightarrow> buf list \<Rightarrow> buf list" where
  "unlink b bs =
     (let bs = set_prev (next (bs ! b)) (prev (bs ! b)) bs
      in set_next (prev (bs ! b)) (next (bs ! b)) bs)"

lemma to_front_unlink: "to_front b bs = binit_one b (unlink b bs)"
  by (simp add: to_front_def unlink_def binit_one_def Let_def)

lemma dll_unlink:
  assumes "dll bs (ys @ b # zs)"
  shows "dll (unlink b bs) (ys @ zs)"
proof -
  let ?n = "next (bs ! b)" and ?p = "prev (bs ! b)"
  have len: "length bs = Suc NBUF" and d: "distinct (ys @ b # zs)"
    and sub: "set (ys @ b # zs) \<subseteq> {..<NBUF}"
    and N: "chain (nexts bs) head (ys @ b # zs) head"
    and P: "chain (prevs bs) head (rev zs @ b # rev ys) head"
    using assms by (simp_all add: dll_def)
  have h: "head \<notin> set (ys @ b # zs)" using sub by (auto simp: head_def)
  have n: "?n = last (head # rev zs)"
    using N chain_first [of "nexts bs" b zs head] by (cases zs) (auto simp: chain_append)
  have p: "?p = last (head # ys)"
    using P chain_first [of "prevs bs" b "rev ys" head]
    by (cases ys rule: rev_cases) (auto simp: chain_append)
  have bnds: "?n < length bs" "?p < length bs" "?n \<noteq> b"
  proof -
    have "?n \<in> set (head # rev zs)" unfolding n by (rule last_in_set) simp
    then show "?n < length bs" "?n \<noteq> b" using sub len h d by (auto simp: head_def)
    have "?p \<in> set (head # ys)" unfolding p by (rule last_in_set) simp
    then show "?p < length bs" using sub len by (auto simp: head_def)
  qed
  let ?b1 = "set_prev ?n ?p bs"
  have "prev (?b1 ! b) = ?p"
    using fun_cong [OF prevs_set_prev [OF bnds(1), of ?p], of b] bnds(3) by simp
  moreover have "next (?b1 ! b) = ?n"
    using fun_cong [OF nexts_set_prev [of ?n ?p bs], of b] by simp
  ultimately have u: "unlink b bs = set_next ?p ?n ?b1" by (simp add: unlink_def Let_def)
  have "nexts (unlink b bs) = (nexts bs)(last (head # ys) := ?n)"
    using bnds unfolding u by (simp add: p)
  moreover have "prevs (unlink b bs) = (prevs bs)(last (head # rev zs) := ?p)"
    using bnds unfolding u by (simp add: n)
  moreover have "chain ((nexts bs)(last (head # ys) := ?n)) head (ys @ zs) head"
    by (rule chain_unlink [OF N]) (use h d in auto)
  moreover have "chain ((prevs bs)(last (head # rev zs) := ?p)) head (rev zs @ rev ys) head"
    by (rule chain_unlink [OF P]) (use h d in auto)
  ultimately show ?thesis
    using len d sub by (simp add: dll_def u)
qed

lemma dll_to_front:
  assumes "dll bs xs" "b \<in> set xs"
  shows "dll (to_front b bs) (b # remove1 b xs)"
proof -
  from assms(2) obtain ys zs where xs: "xs = ys @ b # zs" "b \<notin> set ys"
    by (meson split_list_first)
  have "b \<notin> set (ys @ zs)" "b < NBUF" using assms(1) xs by (auto simp: dll_def)
  moreover have "dll (unlink b bs) (ys @ zs)" using assms(1) xs by (simp add: dll_unlink)
  ultimately show ?thesis
    using dll_push [of "unlink b bs" "ys @ zs" b] xs by (simp add: to_front_unlink remove1_append)
qed

lemma dll_cong:
  assumes "length bs = length bs'" "\<And>i. i < length bs \<Longrightarrow> next (bs ! i) = next (bs' ! i) \<and> prev (bs ! i) = prev (bs' ! i)"
  shows "dll bs xs = dll bs' xs"
proof (cases "length bs = Suc NBUF \<and> set xs \<subseteq> {..<NBUF}")
  case True
  then have "x < length bs" if "x = head \<or> x \<in> set xs" for x
    using that by (auto simp: head_def)
  with assms(2) have "chain (nexts bs) head xs head = chain (nexts bs') head xs head"
    "chain (prevs bs) head (rev xs) head = chain (prevs bs') head (rev xs) head"
    by (auto intro!: chain_cong)
  with assms(1) show ?thesis by (simp add: dll_def)
qed (use assms(1) in \<open>auto simp: dll_def\<close>)

lemma scan_chain:
  "chain (\<lambda>i. link (bs ! i)) a xs head \<Longrightarrow> head \<notin> set xs \<Longrightarrow>
   scan link P bs (link (bs ! a)) = Some (find (\<lambda>i. P (bs ! i)) xs)"
proof (induction xs arbitrary: a)
  case Nil
  then show ?case by (subst scan.simps) simp
next
  case (Cons x xs)
  then show ?case by (subst scan.simps) auto
qed

lemma scan_next: "dll bs xs \<Longrightarrow>
    scan next P bs (next (bs ! head)) = Some (find (\<lambda>i. P (bs ! i)) xs)"
  using dll_head_less [of bs xs] by (intro scan_chain) (auto simp: dll_def)

lemma scan_prev: "dll bs xs \<Longrightarrow>
    scan prev P bs (prev (bs ! head)) = Some (find (\<lambda>i. P (bs ! i)) (rev xs))"
  using dll_head_less [of bs xs] by (intro scan_chain) (auto simp: dll_def)

subsection \<open>Flags\<close>

definition is_valid :: "buf \<Rightarrow> bool" where "is_valid b \<longleftrightarrow> flags b AND B_VALID \<noteq> 0"
definition is_dirty :: "buf \<Rightarrow> bool" where "is_dirty b \<longleftrightarrow> flags b AND B_DIRTY \<noteq> 0"

lemma flag_bits:
  "f AND B_VALID = 0 \<longleftrightarrow> \<not> bit f 1" "f AND B_DIRTY = 0 \<longleftrightarrow> \<not> bit f 2"
  using and_exp_eq_0_iff_not_bit [of f 1] and_exp_eq_0_iff_not_bit [of f 2]
  by (simp_all add: const_simps)

lemma bit_B: "bit B_VALID n \<longleftrightarrow> n = 1" "bit B_DIRTY n \<longleftrightarrow> n = 2"
proof -
  have v: "B_VALID = 2 ^ 1" and d: "B_DIRTY = 2 ^ 2" by (simp_all add: const_simps)
  show "bit B_VALID n \<longleftrightarrow> n = 1" unfolding v bit_exp_iff by (auto simp: possible_bit_word)
  show "bit B_DIRTY n \<longleftrightarrow> n = 2" unfolding d bit_exp_iff by (auto simp: possible_bit_word)
qed

lemma valid_bit: "is_valid b \<longleftrightarrow> bit (flags b) 1" and dirty_bit: "is_dirty b \<longleftrightarrow> bit (flags b) 2"
  by (simp_all add: is_valid_def is_dirty_def flag_bits)

lemma flags_done_iff:
  "flags b AND (B_VALID OR B_DIRTY) = B_VALID \<longleftrightarrow> is_valid b \<and> \<not> is_dirty b"
proof
  assume eq: "flags b AND (B_VALID OR B_DIRTY) = B_VALID"
  from arg_cong [OF eq, of "\<lambda>w. bit w 1"] arg_cong [OF eq, of "\<lambda>w. bit w 2"]
  show "is_valid b \<and> \<not> is_dirty b"
    by (simp add: valid_bit dirty_bit bit_and_iff bit_or_iff bit_B)
next
  assume "is_valid b \<and> \<not> is_dirty b"
  then show "flags b AND (B_VALID OR B_DIRTY) = B_VALID"
    by (intro bit_word_eqI) (auto simp: valid_bit dirty_bit bit_and_iff bit_or_iff bit_B)
qed

lemma flag_updates [simp]:
  "is_valid (b\<lparr>flags := f OR B_VALID\<rparr>)" "is_dirty (b\<lparr>flags := f OR B_DIRTY\<rparr>)"
  "is_valid (b\<lparr>flags := flags b OR B_DIRTY\<rparr>) = is_valid b"
  "is_dirty (b\<lparr>flags := flags b OR B_VALID\<rparr>) = is_dirty b"
  "\<not> is_dirty (b\<lparr>flags := (f AND NOT B_DIRTY) OR B_VALID\<rparr>)"
  "\<not> is_valid (b\<lparr>flags := 0\<rparr>)" "\<not> is_dirty (b\<lparr>flags := 0\<rparr>)"
  by (simp_all add: valid_bit dirty_bit bit_or_iff bit_and_iff bit_not_iff bit_B)

lemma flag_frame [simp]:
  "is_valid (b\<lparr>refcnt := r\<rparr>) = is_valid b" "is_dirty (b\<lparr>refcnt := r\<rparr>) = is_dirty b"
  "is_valid (b\<lparr>bdata := d\<rparr>) = is_valid b" "is_dirty (b\<lparr>bdata := d\<rparr>) = is_dirty b"
  "is_valid (b\<lparr>bdata := d, flags := f\<rparr>) = is_valid (b\<lparr>flags := f\<rparr>)"
  "is_dirty (b\<lparr>bdata := d, flags := f\<rparr>) = is_dirty (b\<lparr>flags := f\<rparr>)"
  "is_valid (b\<lparr>next := i\<rparr>) = is_valid b" "is_dirty (b\<lparr>next := i\<rparr>) = is_dirty b"
  "is_valid (b\<lparr>prev := i\<rparr>) = is_valid b" "is_dirty (b\<lparr>prev := i\<rparr>) = is_dirty b"
  by (simp_all add: is_valid_def is_dirty_def)

subsection \<open>Lifting the locks\<close>

lemma acq_kbio [simp]:
  "bufs (acq l s) = bufs s" "memdisk (acq l s) = memdisk s" "dwrites (acq l s) = dwrites s"
  by (simp_all add: acq_def Let_def)

lemma same_cpu_kbio [simp]:
  "same_cpu (s\<lparr>bufs := x\<rparr>) t = same_cpu s t" "same_cpu (s\<lparr>memdisk := y\<rparr>) t = same_cpu s t"
  "same_cpu (s\<lparr>dwrites := w\<rparr>) t = same_cpu s t"
  by (simp_all add: same_cpu_def)

lemma unacq_kbio [simp]: "unacq s (t\<lparr>bufs := x\<rparr>) = (unacq s t)\<lparr>bufs := x\<rparr>"
  by (simp add: unacq_def)

lemma quiet_kbio [simp]:
  "quiet (s\<lparr>bufs := x\<rparr>) = quiet s" "quiet (s\<lparr>memdisk := y\<rparr>) = quiet s"
  "quiet (s\<lparr>dwrites := w\<rparr>) = quiet s"
  by (rule quiet_same; simp)+

lemma cur_pid_kbio [simp]:
  "cur_pid (s\<lparr>bufs := x\<rparr>) = cur_pid s" "cur_pid (s\<lparr>memdisk := y\<rparr>) = cur_pid s"
  "cur_pid (s\<lparr>dwrites := w\<rparr>) = cur_pid s"
  by (simp_all add: cur_pid_def cur_same [of "s\<lparr>bufs := x\<rparr>" s] cur_same [of "s\<lparr>memdisk := y\<rparr>" s]
      cur_same [of "s\<lparr>dwrites := w\<rparr>" s])

lemma slheld_kbio [simp]:
  "slheld l (s\<lparr>bufs := x\<rparr>) = slheld l s" "slheld l (s\<lparr>memdisk := y\<rparr>) = slheld l s"
  "slheld l (s\<lparr>dwrites := w\<rparr>) = slheld l s"
  by (simp_all add: slheld_def)

lemma kbio_tables [simp]:
  "bufs (slock l s) = bufs s" "memdisk (slock l s) = memdisk s" "dwrites (slock l s) = dwrites s"
  "bufs (sunlock l s) = bufs s" "memdisk (sunlock l s) = memdisk s" "dwrites (sunlock l s) = dwrites s"
  by (simp_all add: slock_def sunlock_def wakeup1_def)

subsection \<open>The invariant and the contents of a block\<close>

text \<open>
  Invariant of the cache as the running process sees it.  A buffer is referenced exactly while
  its lock is held; a buffer that nobody holds and that is not pinned by \<^verbatim>\<open>B_DIRTY\<close> agrees with
  the disk; no block of disk 1 has two buffers.
\<close>

definition unlocked :: "'a kbio_scheme \<Rightarrow> nat \<Rightarrow> bool" where
  "unlocked s i \<longleftrightarrow> sl_locked (sleepl s (BufLock i)) = 0"

definition buf_ok :: "'a kbio_scheme \<Rightarrow> nat \<Rightarrow> bool" where
  "buf_ok s i \<longleftrightarrow> (let b = bufs s ! i in
     length (bdata b) = BSIZE \<and> refcnt b = (if unlocked s i then 0 else 1) \<and>
     (is_dirty b \<longrightarrow> is_valid b) \<and> (\<not> unlocked s i \<longrightarrow> is_valid b) \<and>
     (is_valid b \<longrightarrow> bdev b = 1 \<and> unat (blockno b) < length (memdisk s)) \<and>
     (is_valid b \<and> \<not> is_dirty b \<and> unlocked s i \<longrightarrow> bdata b = memdisk s ! unat (blockno b)))"

definition uniq :: "'a kbio_scheme \<Rightarrow> bool" where
  "uniq s \<longleftrightarrow> (\<forall>i < NBUF. \<forall>j < NBUF. bdev (bufs s ! i) = 1 \<longrightarrow> bdev (bufs s ! j) = 1 \<longrightarrow>
     blockno (bufs s ! i) = blockno (bufs s ! j) \<longrightarrow> i = j)"

definition bio_inv :: "'a kbio_scheme \<Rightarrow> nat list \<Rightarrow> bool" where
  "bio_inv s xs \<longleftrightarrow> quiet s \<and> dll (bufs s) xs \<and> set xs = {..<NBUF} \<and>
     (\<forall>i < NBUF. buf_ok s i) \<and> uniq s \<and> (\<forall>d \<in> set (memdisk s). length d = BSIZE)"

definition has_buf :: "'a kbio_scheme \<Rightarrow> uint \<Rightarrow> nat \<Rightarrow> bool" where
  "has_buf s bn i \<longleftrightarrow> i < NBUF \<and> bdev (bufs s ! i) = 1 \<and> blockno (bufs s ! i) = bn"

definition spare :: "'a kbio_scheme \<Rightarrow> nat \<Rightarrow> bool" where
  "spare s i \<longleftrightarrow> i < NBUF \<and> refcnt (bufs s ! i) = 0 \<and> \<not> is_dirty (bufs s ! i)"

definition view :: "'a kbio_scheme \<Rightarrow> uint \<Rightarrow> block" where
  "view s bn =
     (case find (\<lambda>i. bdev (bufs s ! i) = 1 \<and> blockno (bufs s ! i) = bn \<and> is_valid (bufs s ! i)) [0..<NBUF] of
        Some i \<Rightarrow> bdata (bufs s ! i)
      | None \<Rightarrow> memdisk s ! unat bn)"

lemma view_hit:
  assumes "uniq s" "has_buf s bn i" "is_valid (bufs s ! i)"
  shows "view s bn = bdata (bufs s ! i)"
proof (cases "find (\<lambda>i. bdev (bufs s ! i) = 1 \<and> blockno (bufs s ! i) = bn \<and> is_valid (bufs s ! i)) [0..<NBUF]")
  case None
  with assms(2,3) show ?thesis by (auto simp: find_None_iff has_buf_def)
next
  case (Some j)
  then have "j < NBUF" "bdev (bufs s ! j) = 1" "blockno (bufs s ! j) = bn"
    by (auto simp: find_Some_iff)
  with assms have "j = i" by (auto simp: uniq_def has_buf_def)
  with Some show ?thesis by (simp add: view_def)
qed

lemma view_miss:
  assumes "\<And>i. has_buf s bn i \<Longrightarrow> \<not> is_valid (bufs s ! i)"
  shows "view s bn = memdisk s ! unat bn"
proof -
  have "find (\<lambda>i. bdev (bufs s ! i) = 1 \<and> blockno (bufs s ! i) = bn \<and> is_valid (bufs s ! i)) [0..<NBUF] = None"
    using assms by (auto simp: find_None_iff has_buf_def)
  then show ?thesis by (simp add: view_def)
qed

lemma bio_invD:
  assumes "bio_inv s xs"
  shows "quiet s" "dll (bufs s) xs" "set xs = {..<NBUF}" "uniq s"
    "\<And>d. d \<in> set (memdisk s) \<Longrightarrow> length d = BSIZE"
    "\<And>i. i < NBUF \<Longrightarrow> buf_ok s i"
  using assms by (simp_all add: bio_inv_def)

lemma buf_okD:
  assumes "buf_ok s i"
  shows "length (bdata (bufs s ! i)) = BSIZE"
    "refcnt (bufs s ! i) = (if unlocked s i then 0 else 1)"
    "is_dirty (bufs s ! i) \<Longrightarrow> is_valid (bufs s ! i)"
    "is_valid (bufs s ! i) \<Longrightarrow> bdev (bufs s ! i) = 1"
    "is_valid (bufs s ! i) \<Longrightarrow> unat (blockno (bufs s ! i)) < length (memdisk s)"
    "is_valid (bufs s ! i) \<Longrightarrow> \<not> is_dirty (bufs s ! i) \<Longrightarrow> unlocked s i \<Longrightarrow>
       bdata (bufs s ! i) = memdisk s ! unat (blockno (bufs s ! i))"
    "\<not> unlocked s i \<Longrightarrow> is_valid (bufs s ! i)"
  using assms by (simp_all add: buf_ok_def Let_def)

lemma spare_unlocked: "bio_inv s xs \<Longrightarrow> spare s i \<Longrightarrow> unlocked s i"
  using buf_okD(2) [OF bio_invD(6), of s xs i] by (simp add: spare_def split: if_splits)

text \<open>All of a buffer but its place in the list.\<close>

definition core :: "buf \<Rightarrow> uint \<times> uint \<times> uint \<times> uint \<times> block" where
  "core b = (flags b, bdev b, blockno b, refcnt b, bdata b)"

lemma core_set [simp]:
  "core (set_next i v bs ! j) = core (bs ! j)" "core (set_prev i v bs ! j) = core (bs ! j)"
  "length (set_next i v bs) = length bs" "length (set_prev i v bs) = length bs"
  by (cases "i = j"; cases "i < length bs";
      simp add: set_next_def set_prev_def core_def nth_list_update list_update_beyond)+

lemma core_to_front [simp]:
  "core (to_front b bs ! j) = core (bs ! j)" "length (to_front b bs) = length bs"
  by (simp_all add: to_front_def Let_def)

lemma find_SomeD: "find P xs = Some i \<Longrightarrow> i \<in> set xs \<and> P i"
  by (auto simp: find_Some_iff)

lemma find_unique:
  assumes "i \<in> set xs" "P i" "\<And>j. j \<in> set xs \<Longrightarrow> P j \<Longrightarrow> j = i"
  shows "find P xs = Some i"
proof (cases "find P xs")
  case None
  with assms(1,2) show ?thesis by (simp add: find_None_iff)
next
  case (Some j)
  then have "j \<in> set xs" "P j" by (auto simp: find_Some_iff)
  with assms(3) [of j] Some show ?thesis by simp
qed

lemma slock_bufs [simp]: "(slock l s)\<lparr>bufs := x\<rparr> = slock l (s\<lparr>bufs := x\<rparr>)"
  by (simp add: slock_def)

lemma sunlock_bufs [simp]: "(sunlock l s)\<lparr>bufs := x\<rparr> = sunlock l (s\<lparr>bufs := x\<rparr>)"
  by (simp add: sunlock_def wakeup1_def)

lemma quiet_locks: "quiet s \<Longrightarrow> cpu_ok s \<and> lock_free l s"
  by (auto elim: quietE)

lemma bcache_section:
  assumes "quiet s"
  shows "acquire BcacheLock s = Ret (acq BcacheLock s)"
    "release BcacheLock ((acq BcacheLock s)\<lparr>bufs := x\<rparr>) = Ret (s\<lparr>bufs := x\<rparr>)"
    "release BcacheLock (acq BcacheLock s) = Ret s"
proof -
  have q: "cpu_ok s" "lock_free BcacheLock s" using quiet_locks [OF assms] by auto
  show "acquire BcacheLock s = Ret (acq BcacheLock s)" by (rule acquire_free [OF q])
  show "release BcacheLock ((acq BcacheLock s)\<lparr>bufs := x\<rparr>) = Ret (s\<lparr>bufs := x\<rparr>)"
    using release_acq [OF q, of "(acq BcacheLock s)\<lparr>bufs := x\<rparr>"] by simp
  show "release BcacheLock (acq BcacheLock s) = Ret s"
    using release_acq [OF q, of "acq BcacheLock s"] by simp
qed

lemma bget_hit:
  assumes inv: "bio_inv s xs" and i: "has_buf s bn i" "unlocked s i"
  shows "bget 1 bn s = Ret (i, slock (BufLock i) (upd_buf i (\<lambda>x. x\<lparr>refcnt := refcnt x + 1\<rparr>) s))"
proof -
  have q: "quiet s" and d: "dll (bufs s) xs" "set xs = {..<NBUF}" "uniq s"
    using inv by (simp_all add: bio_inv_def)
  have "find (\<lambda>i. bdev (bufs s ! i) = 1 \<and> blockno (bufs s ! i) = bn) xs = Some i"
    using i d by (intro find_unique) (auto simp: has_buf_def uniq_def)
  then have "scan next (\<lambda>b. bdev b = 1 \<and> blockno b = bn) (bufs s) (next (bufs s ! head)) = Some (Some i)"
    using scan_next [OF d(1)] by simp
  then show ?thesis
    using q i(2) by (simp add: bget_def bcache_section acquiresleep_Ret unlocked_def)
qed

lemma bget_miss:
  assumes inv: "bio_inv s xs" and no: "\<And>i. \<not> has_buf s bn i" and sp: "spare s j"
  obtains i where "spare s i" "find (spare s) (rev xs) = Some i"
    "bget 1 bn s = Ret (i, slock (BufLock i)
       (upd_buf i (\<lambda>x. x\<lparr>bdev := 1, blockno := bn, flags := 0, refcnt := 1\<rparr>) s))"
proof -
  have q: "quiet s" and d: "dll (bufs s) xs" "set xs = {..<NBUF}"
    using inv by (simp_all add: bio_inv_def)
  have none: "find (\<lambda>i. bdev (bufs s ! i) = 1 \<and> blockno (bufs s ! i) = bn) xs = None"
    using no d(2) by (auto simp: find_None_iff has_buf_def)
  have s1: "scan next (\<lambda>b. bdev b = 1 \<and> blockno b = bn) (bufs s) (next (bufs s ! head)) = Some None"
    using scan_next [OF d(1)] none by simp
  let ?P = "\<lambda>i. refcnt (bufs s ! i) = 0 \<and> flags (bufs s ! i) AND B_DIRTY = 0"
  obtain i where i: "find ?P (rev xs) = Some i"
    using sp d(2) find_None_iff [of ?P "rev xs"]
    by (cases "find ?P (rev xs)") (auto simp: spare_def is_dirty_def)
  have s2: "scan prev (\<lambda>b. refcnt b = 0 \<and> flags b AND B_DIRTY = 0) (bufs s) (prev (bufs s ! head)) = Some (Some i)"
    using scan_prev [OF d(1)] i by simp
  have P: "i \<in> set xs" "?P i" using find_SomeD [OF i] by simp_all
  have "spare s i" using P d(2) by (auto simp: spare_def is_dirty_def)
  moreover have "unlocked s i"
    by (rule spare_unlocked [OF inv \<open>spare s i\<close>])
  moreover have "find (spare s) (rev xs) = find ?P (rev xs)"
    using d(2) by (intro find_cong) (auto simp: spare_def is_dirty_def)
  ultimately show thesis
    using that [of i] q s1 s2 i by (simp add: bget_def bcache_section acquiresleep_Ret unlocked_def)
qed

lemma bget_full:
  assumes inv: "bio_inv s xs" and no: "\<And>i. \<not> has_buf s bn i" and sp: "\<And>j. \<not> spare s j"
  shows "bget 1 bn s = Panic ''bget: no buffers''"
proof -
  have q: "quiet s" and d: "dll (bufs s) xs" "set xs = {..<NBUF}"
    using inv by (simp_all add: bio_inv_def)
  have "find (\<lambda>i. bdev (bufs s ! i) = 1 \<and> blockno (bufs s ! i) = bn) xs = None"
    using no d(2) by (auto simp: find_None_iff has_buf_def)
  then have "scan next (\<lambda>b. bdev b = 1 \<and> blockno b = bn) (bufs s) (next (bufs s ! head)) = Some None"
    using scan_next [OF d(1)] by simp
  moreover have "find (\<lambda>i. refcnt (bufs s ! i) = 0 \<and> flags (bufs s ! i) AND B_DIRTY = 0) (rev xs) = None"
    using sp d(2) by (auto simp: find_None_iff spare_def is_dirty_def)
  then have "scan prev (\<lambda>b. refcnt b = 0 \<and> flags b AND B_DIRTY = 0) (bufs s) (prev (bufs s ! head)) = Some None"
    using scan_prev [OF d(1)] by simp
  ultimately show ?thesis using q by (simp add: bget_def bcache_section)
qed

lemma iderw_read:
  assumes "quiet s" "slheld (BufLock b) s" "\<not> is_valid (bufs s ! b)" "\<not> is_dirty (bufs s ! b)"
    "bdev (bufs s ! b) = 1" "unat (blockno (bufs s ! b)) < length (memdisk s)"
  shows "iderw b s = Ret (upd_buf b (\<lambda>x. x\<lparr>bdata := memdisk s ! unat (blockno x), flags := flags x OR B_VALID\<rparr>) s)"
proof -
  have "flags (bufs s ! b) AND (B_VALID OR B_DIRTY) \<noteq> B_VALID"
    "flags (bufs s ! b) AND B_DIRTY = 0"
    using assms(3,4) by (simp_all add: flags_done_iff) (simp add: is_dirty_def)
  with assms show ?thesis by (simp add: iderw_def holdingsleep_Ret Let_def)
qed

lemma iderw_write:
  assumes "quiet s" "slheld (BufLock b) s" "is_dirty (bufs s ! b)"
    "bdev (bufs s ! b) = 1" "unat (blockno (bufs s ! b)) < length (memdisk s)"
  shows "iderw b s = Ret (s\<lparr>bufs := (bufs s)[b := (bufs s ! b)\<lparr>flags := (flags (bufs s ! b) AND NOT B_DIRTY) OR B_VALID\<rparr>],
                 memdisk := (memdisk s)[unat (blockno (bufs s ! b)) := bdata (bufs s ! b)],
                 dwrites := dwrites s @ [(unat (blockno (bufs s ! b)), bdata (bufs s ! b))]\<rparr>)"
proof -
  have "flags (bufs s ! b) AND (B_VALID OR B_DIRTY) \<noteq> B_VALID"
    "flags (bufs s ! b) AND B_DIRTY \<noteq> 0"
    using assms(3) by (simp_all add: flags_done_iff) (simp add: is_dirty_def)
  with assms show ?thesis by (simp add: iderw_def holdingsleep_Ret Let_def)
qed

lemma dll_length: "dll bs xs \<Longrightarrow> length bs = Suc NBUF"
  by (simp add: dll_def)

lemma bread_exact:
  assumes inv: "bio_inv s xs" and bn: "unat bn < length (memdisk s)"
    and free: "\<And>i. has_buf s bn i \<Longrightarrow> unlocked s i"
    and room: "has_buf s bn j \<or> spare s j"
  obtains b x where "bread 1 bn s = Ret (b, slock (BufLock b) (s\<lparr>bufs := (bufs s)[b := x]\<rparr>))"
    "b < NBUF" "unlocked s b" "bdev x = 1" "blockno x = bn" "is_valid x" "bdata x = view s bn"
    "is_dirty x = is_dirty (bufs s ! b)" "refcnt x = 1"
    "next x = next (bufs s ! b)" "prev x = prev (bufs s ! b)"
    "has_buf s bn b \<or> spare s b \<and> (\<forall>i. \<not> has_buf s bn i)"
proof -
  note I = bio_invD [OF inv]
  have len: "length (bufs s) = Suc NBUF" by (rule dll_length [OF I(2)])
  show thesis
  proof (cases "\<exists>i. has_buf s bn i")
    case True
    then obtain i where i: "has_buf s bn i" "unlocked s i" "i < NBUF" using free by (auto simp: has_buf_def)
    note ok = buf_okD [OF I(6) [OF i(3)]]
    let ?x = "(bufs s ! i)\<lparr>refcnt := 1\<rparr>"
    have g: "bget 1 bn s = Ret (i, slock (BufLock i) (s\<lparr>bufs := (bufs s)[i := ?x]\<rparr>))"
      using bget_hit [OF inv i(1,2)] ok(2) i(2) by simp
    show thesis
    proof (cases "is_valid (bufs s ! i)")
      case True
      then show thesis
        using that [of i ?x] g i len view_hit [OF I(4) i(1) True]
        by (simp add: bread_def is_valid_def has_buf_def)
    next
      case False
      let ?t = "slock (BufLock i) (s\<lparr>bufs := (bufs s)[i := ?x]\<rparr>)"
      let ?y = "?x\<lparr>bdata := memdisk s ! unat bn, flags := flags ?x OR B_VALID\<rparr>"
      have nd: "\<not> is_dirty (bufs s ! i)" using False ok(3) by blast
      have "iderw i ?t = Ret (slock (BufLock i) (s\<lparr>bufs := (bufs s)[i := ?y]\<rparr>))"
        using iderw_read [of ?t i] I(1) False nd i bn len by (simp add: has_buf_def)
      moreover have "view s bn = memdisk s ! unat bn"
        using False i I(4) by (intro view_miss) (metis has_buf_def uniq_def)
      moreover have "is_valid ?y" "\<not> is_dirty ?y"
        using nd by (simp_all add: valid_bit dirty_bit bit_or_iff bit_B)
      ultimately show thesis
        using that [of i ?y] False nd i len by (simp add: bread_def g is_valid_def [of "bufs s ! i"] has_buf_def)
    qed
  next
    case False
    then have no: "\<And>i. \<not> has_buf s bn i" by blast
    with room obtain i where i: "spare s i" and g: "bget 1 bn s = Ret (i, slock (BufLock i)
       (upd_buf i (\<lambda>x. x\<lparr>bdev := 1, blockno := bn, flags := 0, refcnt := 1\<rparr>) s))"
      using bget_miss [OF inv no] by blast
    let ?x = "(bufs s ! i)\<lparr>bdev := 1, blockno := bn, flags := 0, refcnt := 1\<rparr>"
    let ?t = "slock (BufLock i) (s\<lparr>bufs := (bufs s)[i := ?x]\<rparr>)"
    let ?y = "?x\<lparr>bdata := memdisk s ! unat bn, flags := 0 OR B_VALID\<rparr>"
    have ii: "i < NBUF" "\<not> is_dirty (bufs s ! i)" using i by (auto simp: spare_def)
    have z: "\<not> is_valid ?x" "\<not> is_dirty ?x" by (simp_all add: is_valid_def is_dirty_def)
    have "iderw i ?t = Ret (slock (BufLock i) (s\<lparr>bufs := (bufs s)[i := ?y]\<rparr>))"
      using iderw_read [of ?t i] I(1) z ii bn len by simp
    moreover have "\<not> is_dirty ?y" "is_valid ?y" by (simp_all add: valid_bit dirty_bit bit_B)
    moreover have "view s bn = memdisk s ! unat bn" using no by (intro view_miss) blast
    ultimately show thesis
      using that [of i ?y] i ii len no spare_unlocked [OF inv i] by (simp add: bread_def g)
  qed
qed

lemma bwrite_exact:
  assumes "quiet s" "slheld (BufLock b) s" "length (bufs s) = Suc NBUF" "b < NBUF"
    "bdev (bufs s ! b) = 1" "unat (blockno (bufs s ! b)) < length (memdisk s)"
  obtains f where "bwrite b s = Ret (s\<lparr>bufs := (bufs s)[b := (bufs s ! b)\<lparr>flags := f\<rparr>],
      memdisk := (memdisk s)[unat (blockno (bufs s ! b)) := bdata (bufs s ! b)],
      dwrites := dwrites s @ [(unat (blockno (bufs s ! b)), bdata (bufs s ! b))]\<rparr>)"
    "is_valid ((bufs s ! b)\<lparr>flags := f\<rparr>)" "\<not> is_dirty ((bufs s ! b)\<lparr>flags := f\<rparr>)"
proof -
  let ?t = "upd_buf b (\<lambda>x. x\<lparr>flags := flags x OR B_DIRTY\<rparr>) s"
  let ?f = "(flags (bufs s ! b) OR B_DIRTY) AND NOT B_DIRTY OR B_VALID"
  have "bwrite b s = iderw b ?t" using assms by (simp add: bwrite_def holdingsleep_Ret)
  also have "\<dots> = Ret (s\<lparr>bufs := (bufs s)[b := (bufs s ! b)\<lparr>flags := ?f\<rparr>],
      memdisk := (memdisk s)[unat (blockno (bufs s ! b)) := bdata (bufs s ! b)],
      dwrites := dwrites s @ [(unat (blockno (bufs s ! b)), bdata (bufs s ! b))]\<rparr>)"
    using iderw_write [of ?t b] assms by simp
  finally show thesis using that [of ?f] by simp
qed

lemma brelse_exact:
  assumes "quiet s" "slheld (BufLock b) s" "length (bufs s) = Suc NBUF" "b < NBUF"
    "refcnt (bufs s ! b) = 1"
  shows "brelse b s = Ret (sunlock (BufLock b)
    (s\<lparr>bufs := to_front b ((bufs s)[b := (bufs s ! b)\<lparr>refcnt := 0\<rparr>])\<rparr>))"
  using assms bcache_section [of "sunlock (BufLock b) s"]
  by (simp add: brelse_def holdingsleep_Ret releasesleep_Ret Let_def)

subsection \<open>The interface of the cache\<close>

text \<open>
  What the layers above see of the cache: the contents of every block, the blocks whose
  buffers are held, and the blocks that are pinned because they are dirty.
\<close>

definition held :: "'a kbio_scheme \<Rightarrow> uint set" where
  "held s = {bn. \<exists>i. has_buf s bn i \<and> \<not> unlocked s i}"

definition pinned :: "'a kbio_scheme \<Rightarrow> uint set" where
  "pinned s = {bn. \<exists>i. has_buf s bn i \<and> is_dirty (bufs s ! i)}"

definition holds :: "'a kbio_scheme \<Rightarrow> nat \<Rightarrow> uint \<Rightarrow> bool" where
  "holds s b bn \<longleftrightarrow> has_buf s bn b \<and> slheld (BufLock b) s"

definition bio_frame :: "'a kbio_scheme \<Rightarrow> 'a kbio_scheme \<Rightarrow> bool" where
  "bio_frame s t \<longleftrightarrow> (\<exists>p l b m w. t = s\<lparr>ptable := p, sleepl := l, bufs := b, memdisk := m, dwrites := w\<rparr>) \<and>
     (\<forall>i. sleepl t (InodeLock i) = sleepl s (InodeLock i)) \<and> cur t = cur s \<and> cur_pid t = cur_pid s"

lemma bio_frame_refl [simp]: "bio_frame s s"
  unfolding bio_frame_def
  by (intro conjI exI [of _ "ptable s"] exI [of _ "sleepl s"] exI [of _ "bufs s"]
      exI [of _ "memdisk s"] exI [of _ "dwrites s"]) simp_all

lemma bio_frame_trans [trans]: "bio_frame s t \<Longrightarrow> bio_frame t u \<Longrightarrow> bio_frame s u"
  unfolding bio_frame_def by (elim conjE exE) (auto 0 0, metis)

lemma bio_inv_change:
  assumes inv: "bio_inv s xs" and b: "b < NBUF" "quiet t"
    and bs: "bufs t = (bufs s)[b := x]" "next x = next (bufs s ! b)" "prev x = prev (bufs s ! b)"
    and lk: "\<And>i. i \<noteq> b \<Longrightarrow> unlocked t i = unlocked s i"
    and ok: "buf_ok t b" and new: "\<And>j. bdev x = 1 \<Longrightarrow> has_buf s (blockno x) j \<Longrightarrow> j = b"
    and disk: "length (memdisk t) = length (memdisk s)"
      "\<And>n. n \<noteq> unat (blockno x) \<Longrightarrow> memdisk t ! n = memdisk s ! n"
      "memdisk t = memdisk s \<or> bdev x = 1"
      "\<And>d. d \<in> set (memdisk t) \<Longrightarrow> length d = BSIZE"
  shows "bio_inv t xs"
proof -
  note I = bio_invD [OF inv]
  have len: "length (bufs s) = Suc NBUF" by (rule dll_length [OF I(2)])
  have "buf_ok t i" if i: "i < NBUF" for i
  proof (cases "i = b")
    case False
    then have e: "bufs t ! i = bufs s ! i" "unlocked t i = unlocked s i" using bs lk by simp_all
    have k: "memdisk t ! unat (blockno (bufs s ! i)) = memdisk s ! unat (blockno (bufs s ! i))"
      if "is_valid (bufs s ! i)"
    proof (cases "blockno (bufs s ! i) = blockno x \<and> bdev x = 1")
      case True
      then have "i = b" using new [of i] i buf_okD(4) [OF I(6) [OF i] that] by (simp add: has_buf_def)
      with False show ?thesis by simp
    next
      case False
      then show ?thesis using disk(2,3) by (metis unsigned_word_eqI)
    qed
    show ?thesis using I(6) [OF i] k by (auto simp: buf_ok_def e disk(1) Let_def)
  qed (simp add: ok)
  moreover have "uniq t"
    using I(4) new b(1) len unfolding uniq_def bs(1) has_buf_def
    by (simp add: nth_list_update) metis
  moreover have "dll (bufs s) xs = dll (bufs t) xs"
    using bs len b(1) by (intro dll_cong) (auto simp: nth_list_update)
  ultimately show ?thesis using I b(2) disk(4) by (simp add: bio_inv_def)
qed

lemma view_other:
  assumes u: "uniq s" "uniq t" and eq: "\<And>i. i < NBUF \<Longrightarrow> i \<noteq> b \<Longrightarrow> core (bufs t ! i) = core (bufs s ! i)"
    and new: "\<not> has_buf t n b"
    and old: "has_buf s n b \<Longrightarrow> is_valid (bufs s ! b) \<Longrightarrow> bdata (bufs s ! b) = memdisk s ! unat n"
    and disk: "memdisk t ! unat n = memdisk s ! unat n"
  shows "view t n = view s n"
proof (cases "\<exists>i. i \<noteq> b \<and> has_buf s n i \<and> is_valid (bufs s ! i)")
  case True
  then obtain i where i: "i \<noteq> b" "has_buf s n i" "is_valid (bufs s ! i)" by blast
  have "core (bufs t ! i) = core (bufs s ! i)" using eq [of i] i by (simp add: has_buf_def)
  then have "has_buf t n i" "is_valid (bufs t ! i)" "bdata (bufs t ! i) = bdata (bufs s ! i)"
    using i by (simp_all add: has_buf_def core_def is_valid_def)
  with i u show ?thesis by (simp add: view_hit)
next
  case False
  have "view t n = memdisk t ! unat n"
  proof (rule view_miss)
    fix i assume i: "has_buf t n i"
    then have "i \<noteq> b" using new by blast
    moreover have "core (bufs t ! i) = core (bufs s ! i)"
      using eq [of i] i \<open>i \<noteq> b\<close> by (simp add: has_buf_def)
    ultimately show "\<not> is_valid (bufs t ! i)"
      using False i by (auto simp: has_buf_def core_def is_valid_def)
  qed
  moreover have "view s n = memdisk s ! unat n"
  proof (cases "has_buf s n b \<and> is_valid (bufs s ! b)")
    case True
    then show ?thesis using view_hit [OF u(1), of n b] old by simp
  next
    case nb: False
    have "\<not> is_valid (bufs s ! i)" if "has_buf s n i" for i
      using nb False that by (cases "i = b") auto
    then show ?thesis by (rule view_miss)
  qed
  ultimately show ?thesis using disk by simp
qed

lemma unlocked_simps [simp]:
  "unlocked (slock (BufLock b) s) i = (i \<noteq> b \<and> unlocked s i)"
  "unlocked (sunlock (BufLock b) s) i = (i = b \<or> unlocked s i)"
  "unlocked (s\<lparr>bufs := x\<rparr>) i = unlocked s i" "unlocked (s\<lparr>memdisk := m\<rparr>) i = unlocked s i"
  "unlocked (s\<lparr>dwrites := w\<rparr>) i = unlocked s i"
  by (simp_all add: unlocked_def)

lemma slheld_tables [simp]:
  "k \<noteq> l \<Longrightarrow> slheld k (slock l s) = slheld k s"
  "quiet s \<Longrightarrow> k \<noteq> l \<Longrightarrow> slheld k (sunlock l s) = slheld k s"
  by (simp_all add: slheld_def)

lemma slheld_unlocked: "slheld (BufLock b) s \<Longrightarrow> \<not> unlocked s b"
  by (simp add: slheld_def unlocked_def)

lemma bio_frameI:
  assumes "t = s\<lparr>ptable := p, sleepl := l, bufs := b, memdisk := m, dwrites := w\<rparr>"
    "\<And>i. l (InodeLock i) = sleepl s (InodeLock i)" "cur_pid t = cur_pid s"
  shows "bio_frame s t"
proof -
  have "cur t = cur s" unfolding assms(1) by (rule cur_same) simp
  moreover have "\<forall>i. sleepl t (InodeLock i) = sleepl s (InodeLock i)" using assms by simp
  ultimately show ?thesis unfolding bio_frame_def using assms(1,3) by blast
qed

lemma bio_frame_slock: "bio_frame s (slock (BufLock b) (s\<lparr>bufs := x\<rparr>))"
  by (rule bio_frameI [where p = "ptable s" and l = "sleepl (slock (BufLock b) s)" and b = x
        and m = "memdisk s" and w = "dwrites s"]) (simp_all, simp add: slock_def)

lemma exists_spare:
  assumes inv: "bio_inv s xs" and c: "card (held s \<union> pinned s) < NBUF"
  obtains j where "spare s j"
proof -
  note I = bio_invD [OF inv]
  have "\<exists>j. spare s j"
  proof (rule ccontr)
    assume no: "\<nexists>j. spare s j"
    have busy: "bdev (bufs s ! i) = 1 \<and> blockno (bufs s ! i) \<in> held s \<union> pinned s" if i: "i < NBUF" for i
    proof -
      note ok = buf_okD [OF I(6) [OF i]]
      have or: "\<not> unlocked s i \<or> is_dirty (bufs s ! i)"
        using no i ok(2) by (auto simp: spare_def)
      then have "bdev (bufs s ! i) = 1" using ok(3,4,7) by blast
      with or i show ?thesis by (auto simp: held_def pinned_def has_buf_def)
    qed
    have "inj_on (\<lambda>i. blockno (bufs s ! i)) {..<NBUF}"
      using I(4) busy by (auto simp: inj_on_def uniq_def)
    moreover have "(\<lambda>i. blockno (bufs s ! i)) ` {..<NBUF} \<subseteq> held s \<union> pinned s" using busy by auto
    ultimately have "card {..<NBUF} \<le> card (held s \<union> pinned s)"
      by (rule card_inj_on_le) simp
    with c show False by simp
  qed
  with that show thesis by blast
qed

lemma bread_ok:
  assumes inv: "bio_inv s xs" and bn: "unat bn < length (memdisk s)" "bn \<notin> held s"
    and room: "bn \<in> pinned s \<or> card (held s \<union> pinned s) < NBUF"
  obtains b t where "bread 1 bn s = Ret (b, t)" "bio_inv t xs" "holds t b bn" "view t = view s"
    "held t = insert bn (held s)" "pinned t = pinned s" "memdisk t = memdisk s" "dwrites t = dwrites s"
    "bio_frame s t" "\<And>b' n. holds s b' n \<Longrightarrow> holds t b' n"
proof -
  note I = bio_invD [OF inv]
  have len: "length (bufs s) = Suc NBUF" by (rule dll_length [OF I(2)])
  have free: "unlocked s i" if "has_buf s bn i" for i using bn(2) that by (auto simp: held_def)
  obtain j where room': "has_buf s bn j \<or> spare s j"
    using room exists_spare [OF inv] by (auto simp: pinned_def)
  obtain b x where r: "bread 1 bn s = Ret (b, slock (BufLock b) (s\<lparr>bufs := (bufs s)[b := x]\<rparr>))"
    and b: "b < NBUF" "unlocked s b" and x: "bdev x = 1" "blockno x = bn" "is_valid x" "bdata x = view s bn"
    "is_dirty x = is_dirty (bufs s ! b)" "refcnt x = 1"
    "next x = next (bufs s ! b)" "prev x = prev (bufs s ! b)"
    and src: "has_buf s bn b \<or> spare s b \<and> (\<forall>i. \<not> has_buf s bn i)"
    by (rule bread_exact [OF inv bn(1) free room'])
  let ?t = "slock (BufLock b) (s\<lparr>bufs := (bufs s)[b := x]\<rparr>)"
  note ok = buf_okD [OF I(6) [OF b(1)]]
  have tb: "bufs ?t ! b = x" "\<And>i. i \<noteq> b \<Longrightarrow> bufs ?t ! i = bufs s ! i" using len b by simp_all
  have only: "j = b" if "has_buf s bn j" for j
    using src that I(4) by (auto simp: has_buf_def uniq_def)
  have lenx: "length (bdata x) = BSIZE"
  proof (cases "has_buf s bn b \<and> is_valid (bufs s ! b)")
    case True
    then show ?thesis using view_hit [OF I(4), of bn b] ok(1) x(4) by simp
  next
    case False
    then have "view s bn = memdisk s ! unat bn" using only by (intro view_miss) auto
    then show ?thesis using x(4) I(5) bn(1) by simp
  qed
  have inv': "bio_inv ?t xs"
    by (rule bio_inv_change [OF inv b(1), of ?t x])
      (use I x b len bn lenx ok only in \<open>auto simp: buf_ok_def Let_def\<close>)
  have hb: "has_buf ?t n i \<longleftrightarrow> (if i = b then n = bn else has_buf s n i)" for n i
    using x b len by (auto simp: has_buf_def)
  have "view ?t n = view s n" for n
  proof (cases "n = bn")
    case True
    then show ?thesis using view_hit [OF bio_invD(4) [OF inv'], of bn b] hb [of bn b] tb(1) x by simp
  next
    case False
    have "bdata (bufs s ! b) = memdisk s ! unat n" if "has_buf s n b" "is_valid (bufs s ! b)"
      using that False src ok(6) b by (auto simp: has_buf_def spare_def)
    then show ?thesis using False hb tb I(4) bio_invD(4) [OF inv'] by (intro view_other [of s ?t b]) simp_all
  qed
  moreover have "held ?t = insert bn (held s)"
    using b by (auto simp: held_def hb)
  moreover have dirty: "has_buf ?t n i \<and> is_dirty (bufs ?t ! i) \<longleftrightarrow> has_buf s n i \<and> is_dirty (bufs s ! i)" for n i
    using src x(5) tb hb [of n i] by (cases "i = b") (auto simp: has_buf_def spare_def)
  then have "pinned ?t = pinned s" by (simp only: pinned_def)
  moreover have "holds ?t b' n" if "holds s b' n" for b' n
    using that b(2) slheld_unlocked [of b' s] by (auto simp: holds_def hb)
  moreover have "holds ?t b bn" by (simp add: holds_def hb)
  ultimately show thesis
    using that [of b ?t] r inv' bio_frame_slock [of s b "(bufs s)[b := x]"] by (simp add: fun_eq_iff)
qed

lemma holdsD:
  assumes inv: "bio_inv s xs" and h: "holds s b bn"
  shows "b < NBUF" "slheld (BufLock b) s" "bdev (bufs s ! b) = 1" "blockno (bufs s ! b) = bn"
    "is_valid (bufs s ! b)" "unat bn < length (memdisk s)" "\<not> unlocked s b"
    "refcnt (bufs s ! b) = 1" "bdata (bufs s ! b) = view s bn" "length (view s bn) = BSIZE"
    "\<And>j. has_buf s bn j \<Longrightarrow> j = b"
proof -
  note I = bio_invD [OF inv]
  show b: "b < NBUF" "slheld (BufLock b) s" "bdev (bufs s ! b) = 1" "blockno (bufs s ! b) = bn"
    using h by (auto simp: holds_def has_buf_def)
  show u: "\<not> unlocked s b" using slheld_unlocked b by blast
  note ok = buf_okD [OF I(6) [OF b(1)]]
  show v: "is_valid (bufs s ! b)" "unat bn < length (memdisk s)" "refcnt (bufs s ! b) = 1"
    using ok(2,5,7) u b(4) by auto
  show d: "bdata (bufs s ! b) = view s bn" using view_hit [OF I(4), of bn b] h v(1) by (simp add: holds_def)
  show "length (view s bn) = BSIZE" using ok(1) d by simp
  show "j = b" if "has_buf s bn j" for j using that b I(4) by (auto simp: has_buf_def uniq_def)
qed

lemma holds_data: "bio_inv s xs \<Longrightarrow> holds s b bn \<Longrightarrow> bdata (bufs s ! b) = view s bn"
  by (rule holdsD(9))

text \<open>
  A change of the flags or the data of a held buffer, with the disk following or not.
\<close>

lemma held_change:
  fixes w :: "(nat \<times> block) list"
  assumes inv: "bio_inv s xs" and h: "holds s b bn"
    and x: "bdev x = 1" "blockno x = bn" "refcnt x = 1" "next x = next (bufs s ! b)"
      "prev x = prev (bufs s ! b)" "length (bdata x) = BSIZE" "is_valid x"
    and m: "m = memdisk s \<or> m = (memdisk s)[unat bn := bdata x]"
  defines "t \<equiv> s\<lparr>bufs := (bufs s)[b := x], memdisk := m, dwrites := w\<rparr>"
  shows "bio_inv t xs" "holds t b' n = holds s b' n" "view t = (view s)(bn := bdata x)"
    "held t = held s" "pinned t = (if is_dirty x then insert bn (pinned s) else pinned s - {bn})"
    "bio_frame s t"
proof -
  note I = bio_invD [OF inv] and H = holdsD [OF inv h]
  have len: "length (bufs s) = Suc NBUF" by (rule dll_length [OF I(2)])
  have tb: "bufs t ! b = x" "\<And>i. i \<noteq> b \<Longrightarrow> bufs t ! i = bufs s ! i" using len H(1) by (simp_all add: t_def)
  have hb: "has_buf t k i \<longleftrightarrow> has_buf s k i" for k i
    using tb H(3,4) x by (cases "i = b") (auto simp: has_buf_def)
  have u: "unlocked t i = unlocked s i" for i by (simp add: t_def)
  have mt: "memdisk t = m" "length m = length (memdisk s)" "\<And>k. k \<noteq> unat bn \<Longrightarrow> m ! k = memdisk s ! k"
    using m by (auto simp: t_def)
  have ms: "length d = BSIZE" if "d \<in> set m" for d
    using that m I(5) x(6) set_update_subset_insert [of "memdisk s" "unat bn" "bdata x"] by auto
  have ok: "buf_ok t b"
    using x H(6,7) u tb(1) mt by (simp add: buf_ok_def Let_def)
  have t: "bufs t = (bufs s)[b := x]" "quiet t" using I(1) by (simp_all add: t_def)
  have new: "j = b" if "has_buf s (blockno x) j" for j using H(11) that x(2) by simp
  show inv': "bio_inv t xs"
    by (rule bio_inv_change [OF inv H(1) t(2,1) x(4,5) u ok new]) (use x mt ms in simp_all)
  show "holds t b' n = holds s b' n" by (simp add: holds_def hb) (simp add: t_def)
  show "held t = held s" by (simp add: held_def hb u)
  have pin: "k \<in> pinned t \<longleftrightarrow> (if k = bn then is_dirty x else k \<in> pinned s)" for k
  proof (cases "k = bn")
    case True
    then show ?thesis using H(11) h tb(1) by (auto simp: pinned_def hb holds_def)
  next
    case False
    have "i \<noteq> b" if "has_buf s k i" for i using that False H(4) by (auto simp: has_buf_def)
    then show ?thesis using False tb(2) by (auto simp: pinned_def hb)
  qed
  show "pinned t = (if is_dirty x then insert bn (pinned s) else pinned s - {bn})"
    by (rule set_eqI) (simp add: pin)
  have "view t k = ((view s)(bn := bdata x)) k" for k
  proof (cases "k = bn")
    case True
    then show ?thesis using view_hit [OF bio_invD(4) [OF inv'], of bn b] h x(7) tb(1)
      by (simp add: hb holds_def)
  next
    case False
    then have "\<not> has_buf s k b" using H(4) by (auto simp: has_buf_def)
    moreover have "unat k \<noteq> unat bn" using False by (simp add: word_unat_eq_iff)
    ultimately have "view t k = view s k"
      using I(4) bio_invD(4) [OF inv'] tb(2) mt by (intro view_other [of s t b]) (simp_all add: hb)
    with False show ?thesis by simp
  qed
  then show "view t = (view s)(bn := bdata x)" by blast
  show "bio_frame s t"
    by (rule bio_frameI [where p = "ptable s" and l = "sleepl s" and b = "(bufs s)[b := x]"
        and m = m and w = w]) (simp_all add: t_def)
qed

lemma bwrite_ok:
  assumes inv: "bio_inv s xs" and h: "holds s b bn"
  obtains t where "bwrite b s = Ret t" "bio_inv t xs" "\<And>b' n. holds t b' n = holds s b' n"
    "view t = view s" "held t = held s" "pinned t = pinned s - {bn}"
    "memdisk t = (memdisk s)[unat bn := view s bn]"
    "dwrites t = dwrites s @ [(unat bn, view s bn)]" "bio_frame s t"
proof -
  note I = bio_invD [OF inv] and H = holdsD [OF inv h]
  obtain f where f: "bwrite b s = Ret (s\<lparr>bufs := (bufs s)[b := (bufs s ! b)\<lparr>flags := f\<rparr>],
      memdisk := (memdisk s)[unat bn := view s bn], dwrites := dwrites s @ [(unat bn, view s bn)]\<rparr>)"
    "is_valid ((bufs s ! b)\<lparr>flags := f\<rparr>)" "\<not> is_dirty ((bufs s ! b)\<lparr>flags := f\<rparr>)"
    using bwrite_exact [OF I(1) H(2) dll_length [OF I(2)] H(1,3)] unfolding H(4,9) using H(6) by blast
  let ?x = "(bufs s ! b)\<lparr>flags := f\<rparr>"
  have "(view s)(bn := bdata ?x) = view s" using H(9) by auto
  with held_change [OF inv h, of ?x "(memdisk s)[unat bn := view s bn]" "dwrites s @ [(unat bn, view s bn)]"]
  show thesis using that H(3-10) f by simp
qed

lemma set_bdata_ok:
  assumes inv: "bio_inv s xs" and h: "holds s b bn" and d: "length d = BSIZE"
  shows "bio_inv (set_bdata b d s) xs" "holds (set_bdata b d s) b' n = holds s b' n"
    "view (set_bdata b d s) = (view s)(bn := d)" "held (set_bdata b d s) = held s"
    "pinned (set_bdata b d s) = pinned s" "bio_frame s (set_bdata b d s)"
    "memdisk (set_bdata b d s) = memdisk s" "dwrites (set_bdata b d s) = dwrites s"
proof -
  note H = holdsD [OF inv h]
  let ?x = "(bufs s ! b)\<lparr>bdata := d\<rparr>"
  have "set_bdata b d s = s\<lparr>bufs := (bufs s)[b := ?x], memdisk := memdisk s, dwrites := dwrites s\<rparr>"
    by (simp add: set_bdata_def)
  moreover have "bn \<in> pinned s \<longleftrightarrow> is_dirty (bufs s ! b)"
    using H(11) h by (auto simp: pinned_def holds_def)
  ultimately show "bio_inv (set_bdata b d s) xs" "holds (set_bdata b d s) b' n = holds s b' n"
    "view (set_bdata b d s) = (view s)(bn := d)" "held (set_bdata b d s) = held s"
    "pinned (set_bdata b d s) = pinned s" "bio_frame s (set_bdata b d s)"
    "memdisk (set_bdata b d s) = memdisk s" "dwrites (set_bdata b d s) = dwrites s"
    using held_change [OF inv h, of ?x "memdisk s" "dwrites s"] H(3-10) d by (auto split: if_splits)
qed

lemma has_buf_core: "core (bufs t ! i) = core (bufs s ! i) \<Longrightarrow> has_buf t n i = has_buf s n i"
  by (simp add: has_buf_def core_def)

lemma core_eqD:
  assumes "core x = core y"
  shows "flags x = flags y" "bdev x = bdev y" "blockno x = blockno y" "refcnt x = refcnt y"
    "bdata x = bdata y" "is_valid x = is_valid y" "is_dirty x = is_dirty y"
  using assms by (simp_all add: core_def is_valid_def is_dirty_def)

lemma bio_frame_sunlock:
  assumes "quiet s"
  shows "bio_frame s (sunlock (BufLock b) (s\<lparr>bufs := x\<rparr>))"
proof (rule bio_frameI [where p = "ptable (sunlock (BufLock b) s)" and l = "sleepl (sunlock (BufLock b) s)"
      and b = x and m = "memdisk s" and w = "dwrites s"])
  show "sunlock (BufLock b) (s\<lparr>bufs := x\<rparr>) = s\<lparr>ptable := ptable (sunlock (BufLock b) s),
      sleepl := sleepl (sunlock (BufLock b) s), bufs := x, memdisk := memdisk s, dwrites := dwrites s\<rparr>"
    by (cases s) (simp add: sunlock_def wakeup1_def)
qed (use assms in simp_all)

lemma brelse_ok:
  assumes inv: "bio_inv s xs" and h: "holds s b bn"
    and clean: "bn \<in> pinned s \<or> view s bn = memdisk s ! unat bn"
  obtains t where "brelse b s = Ret t" "bio_inv t (b # remove1 b xs)" "view t = view s"
    "held t = held s - {bn}" "pinned t = pinned s" "memdisk t = memdisk s" "dwrites t = dwrites s"
    "bio_frame s t" "\<And>b' n. b' \<noteq> b \<Longrightarrow> holds t b' n = holds s b' n"
proof -
  note I = bio_invD [OF inv] and H = holdsD [OF inv h]
  have len: "length (bufs s) = Suc NBUF" by (rule dll_length [OF I(2)])
  define x where "x = (bufs s ! b)\<lparr>refcnt := 0\<rparr>"
  define t where "t = sunlock (BufLock b) (s\<lparr>bufs := to_front b ((bufs s)[b := x])\<rparr>)"
  have r: "brelse b s = Ret t"
    using brelse_exact [OF I(1) H(2) len H(1,8)] by (simp add: t_def x_def)
  have c: "core (bufs t ! i) = (if i = b then core x else core (bufs s ! i))" for i
    using len H(1) by (simp add: t_def)
  have hb: "has_buf t n i = has_buf s n i" for n i
    using c [of i] H(1) by (cases "i = b") (auto simp: has_buf_def core_def x_def)
  have fl: "is_valid (bufs t ! i) = is_valid (bufs s ! i)" "is_dirty (bufs t ! i) = is_dirty (bufs s ! i)"
    "bdata (bufs t ! i) = bdata (bufs s ! i)" "blockno (bufs t ! i) = blockno (bufs s ! i)"
    "bdev (bufs t ! i) = bdev (bufs s ! i)" for i
    using c [of i] by (cases "i = b"; simp add: core_def x_def is_valid_def is_dirty_def)+
  have u: "unlocked t i = (i = b \<or> unlocked s i)" for i by (simp add: t_def)
  have m: "memdisk t = memdisk s" "dwrites t = dwrites s" "quiet t" using I(1) by (simp_all add: t_def)
  have dirty: "bn \<in> pinned s \<longleftrightarrow> is_dirty (bufs s ! b)"
    using H(11) h by (auto simp: pinned_def holds_def)
  have "buf_ok t i" if i: "i < NBUF" for i
  proof (cases "i = b")
    case True
    have "refcnt (bufs t ! b) = 0" using c [of b] by (simp add: core_def x_def)
    then show ?thesis
      using True I(6) [OF H(1)] clean dirty H(9) H(4) by (auto simp: buf_ok_def Let_def fl u m)
  next
    case False
    then have "refcnt (bufs t ! i) = refcnt (bufs s ! i)" using c [of i] by (simp add: core_def)
    then show ?thesis using False I(6) [OF i] by (auto simp: buf_ok_def Let_def fl u m)
  qed
  moreover have "uniq t" using I(4) by (simp add: uniq_def fl)
  moreover have "dll ((bufs s)[b := x]) xs"
    using I(2) dll_cong [of "bufs s" "(bufs s)[b := x]" xs] len H(1) by (simp add: x_def nth_list_update)
  then have "dll (bufs t) (b # remove1 b xs)"
    using dll_to_front [of "(bufs s)[b := x]" xs b] I(3) H(1) by (simp add: t_def)
  moreover have "set (b # remove1 b xs) = {..<NBUF}"
    using I(2,3) H(1) by (auto simp: dll_def set_remove1_eq)
  ultimately have inv': "bio_inv t (b # remove1 b xs)" using m I(5) by (simp add: bio_inv_def)
  have "view t = view s" by (rule ext) (simp add: view_def fl m split: option.split)
  moreover have "has_buf s n b \<longleftrightarrow> n = bn" for n using H(1,3,4) by (auto simp: has_buf_def)
  then have "held t = held s - {bn}"
    using H(11) by (auto simp: held_def hb u)
  moreover have "pinned t = pinned s" by (simp add: pinned_def hb fl)
  moreover have "holds t b' n = holds s b' n" if "b' \<noteq> b" for b' n
    using that I(1) by (simp add: holds_def hb) (simp add: t_def)
  moreover have "bio_frame s t" unfolding t_def by (rule bio_frame_sunlock [OF I(1)])
  ultimately show thesis using that r inv' m by blast
qed

subsection \<open>Start of the cache\<close>

lemma core_binit_one [simp]:
  "core (binit_one b bs ! j) = core (bs ! j)" "length (binit_one b bs) = length bs"
  by (simp_all add: binit_one_def Let_def)

lemma initsleeplock_kbio [simp]:
  "bufs (initsleeplock l n s) = bufs s" "memdisk (initsleeplock l n s) = memdisk s"
  by (simp_all add: initsleeplock_def initlock_def)

lemma unlocked_init [simp]: "unlocked (initsleeplock (BufLock b) n s) i = (i = b \<or> unlocked s i)"
  by (simp add: unlocked_def initsleeplock_def initlock_def)

lemma binit_loop_ok:
  assumes "dll (bufs s) ws" "b + n \<le> NBUF" "set ws = {..<b}"
  shows "dll (bufs (binit_loop b n s)) (rev [b..<b + n] @ ws) \<and> memdisk (binit_loop b n s) = memdisk s \<and>
    (\<forall>i. core (bufs (binit_loop b n s) ! i) = core (bufs s ! i)) \<and>
    (\<forall>i. unlocked (binit_loop b n s) i \<longleftrightarrow> (b \<le> i \<and> i < b + n) \<or> unlocked s i)"
  using assms
proof (induction n arbitrary: b s ws)
  case (Suc n)
  define t where "t = (initsleeplock (BufLock b) ''buffer'' s)\<lparr>bufs := binit_one b (bufs s)\<rparr>"
  have "dll (bufs t) (b # ws)" using dll_push [OF Suc.prems(1), of b] Suc.prems(2,3) by (simp add: t_def)
  moreover have "set (b # ws) = {..<Suc b}" by (simp add: Suc.prems(3) lessThan_Suc)
  ultimately have IH: "dll (bufs (binit_loop (Suc b) n t)) (rev [Suc b..<Suc b + n] @ b # ws) \<and>
    memdisk (binit_loop (Suc b) n t) = memdisk t \<and>
    (\<forall>i. core (bufs (binit_loop (Suc b) n t) ! i) = core (bufs t ! i)) \<and>
    (\<forall>i. unlocked (binit_loop (Suc b) n t) i \<longleftrightarrow> (Suc b \<le> i \<and> i < Suc b + n) \<or> unlocked t i)"
    using Suc.prems(2) by (intro Suc.IH) simp_all
  have step: "binit_loop b (Suc n) s = binit_loop (Suc b) n t" by (simp add: t_def Let_def)
  have "rev [b..<b + Suc n] @ ws = rev [Suc b..<Suc b + n] @ b # ws"
    by (simp add: upt_conv_Cons del: upt_Suc)
  with IH show ?case unfolding step by (auto simp: t_def)
next
  case 0
  then show ?case by simp (meson leD)
qed

lemma binit_ok:
  assumes len: "length (bufs s) = Suc NBUF"
    and zero: "\<And>i. i < NBUF \<Longrightarrow> flags (bufs s ! i) = 0 \<and> bdev (bufs s ! i) = 0 \<and>
      refcnt (bufs s ! i) = 0 \<and> length (bdata (bufs s ! i)) = BSIZE"
  shows "dll (bufs (binit s)) (rev [0..<NBUF])" "i < NBUF \<Longrightarrow> buf_ok (binit s) i" "uniq (binit s)"
    "memdisk (binit s) = memdisk s" "core (bufs (binit s) ! j) = core (bufs s ! j)"
    "i < NBUF \<Longrightarrow> unlocked (binit s) i"
proof -
  let ?s = "(initlock BcacheLock ''bcache'' s)\<lparr>bufs := set_next head head (set_prev head head (bufs s))\<rparr>"
  have b: "binit s = binit_loop 0 NBUF ?s" by (simp add: binit_def Let_def initlock_def)
  have "dll (bufs ?s) []" using len by (simp add: dll_def set_next_def set_prev_def head_def)
  then have L: "dll (bufs (binit s)) (rev [0..<NBUF])" "memdisk (binit s) = memdisk s"
    "\<And>i. core (bufs (binit s) ! i) = core (bufs s ! i)" "\<And>i. i < NBUF \<Longrightarrow> unlocked (binit s) i"
    using binit_loop_ok [of ?s "[]" 0 NBUF] by (auto simp: b initlock_def)
  have z: "flags (bufs (binit s) ! i) = 0 \<and> bdev (bufs (binit s) ! i) = 0 \<and>
      refcnt (bufs (binit s) ! i) = 0 \<and> length (bdata (bufs (binit s) ! i)) = BSIZE" if "i < NBUF" for i
    using zero [OF that] core_eqD [OF L(3) [of i]] by simp
  show "dll (bufs (binit s)) (rev [0..<NBUF])" "memdisk (binit s) = memdisk s"
    "core (bufs (binit s) ! j) = core (bufs s ! j)" "i < NBUF \<Longrightarrow> unlocked (binit s) i" by (rule L)+
  show "i < NBUF \<Longrightarrow> buf_ok (binit s) i"
    using z [of i] L(4) [of i] by (simp add: buf_ok_def Let_def is_valid_def is_dirty_def)
  show "uniq (binit s)" using z by (simp add: uniq_def)
qed

subsection \<open>The cache for its clients\<close>

text \<open>The facts above without the order of the list.\<close>

definition bio_ok :: "'a kbio_scheme \<Rightarrow> bool" where
  "bio_ok s \<longleftrightarrow> (\<exists>xs. bio_inv s xs)"

lemma bio_okI: "bio_inv s xs \<Longrightarrow> bio_ok s"
  by (auto simp: bio_ok_def)

lemma bread_step:
  assumes "bio_ok s" "unat bn < length (memdisk s)" "bn \<notin> held s"
    "bn \<in> pinned s \<or> card (held s \<union> pinned s) < NBUF"
  obtains b t where "bread 1 bn s = Ret (b, t)" "bio_ok t" "holds t b bn" "view t = view s"
    "held t = insert bn (held s)" "pinned t = pinned s" "memdisk t = memdisk s" "dwrites t = dwrites s"
    "bio_frame s t" "\<And>b' n. holds s b' n \<Longrightarrow> holds t b' n"
proof -
  obtain xs where inv: "bio_inv s xs" using assms(1) by (auto simp: bio_ok_def)
  show thesis
    by (rule bread_ok [OF inv assms(2-4)], rule that) (assumption | erule bio_okI | blast)+
qed

lemma bwrite_step:
  assumes "bio_ok s" "holds s b bn"
  obtains t where "bwrite b s = Ret t" "bio_ok t" "\<And>b' n. holds t b' n = holds s b' n"
    "view t = view s" "held t = held s" "pinned t = pinned s - {bn}"
    "memdisk t = (memdisk s)[unat bn := view s bn]"
    "dwrites t = dwrites s @ [(unat bn, view s bn)]" "bio_frame s t"
proof -
  obtain xs where inv: "bio_inv s xs" using assms(1) by (auto simp: bio_ok_def)
  show thesis
    by (rule bwrite_ok [OF inv assms(2)], rule that) (assumption | erule bio_okI | blast)+
qed

lemma brelse_step:
  assumes "bio_ok s" "holds s b bn" "bn \<in> pinned s \<or> view s bn = memdisk s ! unat bn"
  obtains t where "brelse b s = Ret t" "bio_ok t" "view t = view s"
    "held t = held s - {bn}" "pinned t = pinned s" "memdisk t = memdisk s" "dwrites t = dwrites s"
    "bio_frame s t" "\<And>b' n. b' \<noteq> b \<Longrightarrow> holds t b' n = holds s b' n"
proof -
  obtain xs where inv: "bio_inv s xs" using assms(1) by (auto simp: bio_ok_def)
  show thesis
    by (rule brelse_ok [OF inv assms(2,3)], rule that) (assumption | erule bio_okI | blast)+
qed

lemma set_bdata_step:
  assumes "bio_ok s" "holds s b bn" "length d = BSIZE"
  shows "bio_ok (set_bdata b d s)" "holds (set_bdata b d s) b' n = holds s b' n"
    "view (set_bdata b d s) = (view s)(bn := d)" "held (set_bdata b d s) = held s"
    "pinned (set_bdata b d s) = pinned s" "bio_frame s (set_bdata b d s)"
    "memdisk (set_bdata b d s) = memdisk s" "dwrites (set_bdata b d s) = dwrites s"
proof -
  obtain xs where "bio_inv s xs" using assms(1) by (auto simp: bio_ok_def)
  note * = set_bdata_ok [OF this assms(2,3)]
  show "bio_ok (set_bdata b d s)" by (rule bio_okI [OF *(1)])
  show "holds (set_bdata b d s) b' n = holds s b' n" by (rule *(2))
  show "view (set_bdata b d s) = (view s)(bn := d)" "held (set_bdata b d s) = held s"
    "pinned (set_bdata b d s) = pinned s" "bio_frame s (set_bdata b d s)"
    "memdisk (set_bdata b d s) = memdisk s" "dwrites (set_bdata b d s) = dwrites s"
    by (rule *(3-))+
qed

lemma holds_view:
  assumes "bio_ok s" "holds s b bn"
  shows "bdata (bufs s ! b) = view s bn" "length (view s bn) = BSIZE" "unat bn < length (memdisk s)"
    "bn \<in> held s" "blockno (bufs s ! b) = bn"
proof -
  obtain xs where "bio_inv s xs" using assms(1) by (auto simp: bio_ok_def)
  note * = holdsD [OF this assms(2)]
  show "bdata (bufs s ! b) = view s bn" "length (view s bn) = BSIZE" "unat bn < length (memdisk s)"
    "blockno (bufs s ! b) = bn" by (rule *)+
  show "bn \<in> held s" using assms(2) *(7) by (auto simp: held_def holds_def)
qed

lemma holds_inj: "bio_ok s \<Longrightarrow> holds s b n \<Longrightarrow> holds s b m \<Longrightarrow> n = m"
  by (auto simp: holds_def has_buf_def)

lemma view_clean:
  assumes ok: "bio_ok s" and bn: "bn \<notin> held s" "bn \<notin> pinned s"
  shows "view s bn = memdisk s ! unat bn"
proof -
  obtain xs where inv: "bio_inv s xs" using ok by (auto simp: bio_ok_def)
  show ?thesis
  proof (cases "\<exists>i. has_buf s bn i \<and> is_valid (bufs s ! i)")
    case True
    then obtain i where i: "has_buf s bn i" "is_valid (bufs s ! i)" by blast
    then have "i < NBUF" "blockno (bufs s ! i) = bn" "unlocked s i" "\<not> is_dirty (bufs s ! i)"
      using bn by (auto simp: has_buf_def held_def pinned_def)
    then show ?thesis
      using view_hit [OF bio_invD(4) [OF inv] i] buf_okD(6) [OF bio_invD(6) [OF inv], of i] i(2) by simp
  next
    case False
    then show ?thesis by (intro view_miss) blast
  qed
qed

lemma length_view:
  assumes ok: "bio_ok s" and bn: "unat bn < length (memdisk s)"
  shows "length (view s bn) = BSIZE"
proof -
  obtain xs where inv: "bio_inv s xs" using ok by (auto simp: bio_ok_def)
  show ?thesis
  proof (cases "\<exists>i. has_buf s bn i \<and> is_valid (bufs s ! i)")
    case True
    then obtain i where i: "has_buf s bn i" "is_valid (bufs s ! i)" by blast
    then show ?thesis
      using view_hit [OF bio_invD(4) [OF inv] i] buf_okD(1) [OF bio_invD(6) [OF inv], of i]
      by (simp add: has_buf_def)
  next
    case False
    then have "view s bn = memdisk s ! unat bn" by (intro view_miss) blast
    then show ?thesis using bio_invD(5) [OF inv] bn by simp
  qed
qed

text \<open>
  One block copied to the place of another: two reads, the copy, a write and two releases, in
  the two orders in which the log does it.
\<close>

definition copied :: "uint \<Rightarrow> uint \<Rightarrow> 'a kbio_scheme \<Rightarrow> 'a kbio_scheme \<Rightarrow> bool" where
  "copied a b s t \<longleftrightarrow> bio_ok t \<and> held t = {} \<and> pinned t = pinned s - {b} \<and>
     view t = (view s)(b := view s a) \<and> memdisk t = (memdisk s)[unat b := view s a] \<and>
     dwrites t = dwrites s @ [(unat b, view s a)] \<and> bio_frame s t"

subsection \<open>Properties\<close>

definition kbio0 :: "uchar \<Rightarrow> 'a \<Rightarrow> 'a kbio_scheme" where
  "kbio0 v x = \<lparr>cpus = [\<lparr>apicid = 0, ncli = 0, intena = True, cpu_proc = Some 0\<rparr>], lapicid = 0, eflags_IF = True,
     spin = (\<lambda>_. \<lparr>locked = 0, lkname = [], lkcpu = None\<rparr>),
     ptable = [proc0\<lparr>pstate := RUNNING, pid := 1\<rparr>], initproc = Some 0, nextpid = 2,
     sleepl = (\<lambda>_. \<lparr>sl_locked = 0, sl_name = [], sl_pid = 0\<rparr>),
     mem = (\<lambda>_. 0), use_lock = True, freelist = 0, kend = 0x80110000,
     bufs = replicate (Suc NBUF) \<lparr>flags = 0, bdev = 0, blockno = 0, refcnt = 0, prev = 0, next = 0,
       bdata = replicate BSIZE 0\<rparr>,
     memdisk = replicate 64 (replicate BSIZE v), dwrites = [], \<dots> = x\<rparr>"

lemma quiet_initlock [simp]: "quiet s \<Longrightarrow> quiet (initlock l n s)"
  by (auto simp: quiet_def lock_free_def initlock_def cur_def this_cpu_def
      cpu_ok_def nest_ok_def split: option.splits)

lemma quiet_initsleeplock [simp]: "quiet s \<Longrightarrow> quiet (initsleeplock l n s)"
proof -
  assume "quiet s"
  then have "quiet (initlock (SleepLk l) ''sleep lock'' s)" by simp
  moreover have "quiet (t\<lparr>sleepl := x\<rparr>) = quiet t" for t :: "'a kproc_scheme" and x
    by (rule quiet_same) simp_all
  ultimately show ?thesis by (simp add: initsleeplock_def)
qed

lemma quiet_binit: "quiet s \<Longrightarrow> quiet (binit s)"
proof -
  have "quiet s \<Longrightarrow> quiet (binit_loop b n s)" for b n and s :: "'a kbio_scheme"
    by (induction b n s rule: binit_loop.induct) (simp_all add: Let_def)
  then show "quiet s \<Longrightarrow> quiet (binit s)" by (simp add: binit_def Let_def)
qed

lemma kbio0_quiet: "quiet (kbio0 v x)"
  by (simp add: quiet_def kbio0_def cpu_ok_def nest_ok_def this_cpu_def lock_free_def cur_def)

text \<open>
  \<^verbatim>\<open>binit\<close> on zeroed buffers establishes the cache's invariant: the links form one cycle
  through all buffers, last buffer first, every buffer is free and empty, and the disk is
  untouched.
\<close>

lemma binit_establishes:
  assumes "quiet s" "length (bufs s) = Suc NBUF"
    "\<And>i. i < NBUF \<Longrightarrow> flags (bufs s ! i) = 0 \<and> bdev (bufs s ! i) = 0 \<and>
      refcnt (bufs s ! i) = 0 \<and> length (bdata (bufs s ! i)) = BSIZE"
    "\<And>d. d \<in> set (memdisk s) \<Longrightarrow> length d = BSIZE"
  shows "bio_inv (binit s) (rev [0..<NBUF]) \<and> memdisk (binit s) = memdisk s"
  using binit_ok [OF assms(2,3)] quiet_binit [OF assms(1)] assms(4) by (auto simp: bio_inv_def)

lemma kbio0_zero: "length (bufs (kbio0 v x)) = Suc NBUF"
  "i < NBUF \<Longrightarrow> flags (bufs (kbio0 v x) ! i) = 0 \<and> bdev (bufs (kbio0 v x) ! i) = 0 \<and>
      refcnt (bufs (kbio0 v x) ! i) = 0 \<and> length (bdata (bufs (kbio0 v x) ! i)) = BSIZE"
  "d \<in> set (memdisk (kbio0 v x)) \<Longrightarrow> length d = BSIZE"
  by (simp_all add: kbio0_def nth_append del: replicate_Suc)

lemma binit_establishes_witness:
  "bio_inv (binit (kbio0 7 ())) (rev [0..<NBUF]) \<and> memdisk (binit (kbio0 7 ())) = replicate 64 (replicate BSIZE 7)"
proof -
  have "memdisk (kbio0 7 ()) = replicate 64 (replicate BSIZE 7)" by (simp add: kbio0_def)
  then show ?thesis
    using binit_establishes [of "kbio0 7 ()", OF kbio0_quiet kbio0_zero(1)]
      kbio0_zero(2) [where v = 7 and x = "()"] by simp
qed

lemma kbio0_binit:
  "dll (bufs (binit (kbio0 v x))) (rev [0..<NBUF])" "i < NBUF \<Longrightarrow> buf_ok (binit (kbio0 v x)) i"
  "uniq (binit (kbio0 v x))" "memdisk (binit (kbio0 v x)) = memdisk (kbio0 v x)"
  "core (bufs (binit (kbio0 v x)) ! i) = core (bufs (kbio0 v x) ! i)"
  "i < NBUF \<Longrightarrow> unlocked (binit (kbio0 v x)) i" "quiet (binit (kbio0 v x))"
  using binit_ok [of "kbio0 v x", OF kbio0_zero(1) kbio0_zero(2)] quiet_binit [OF kbio0_quiet]
  by simp_all

lemma kbio0_inv: "bio_inv (binit (kbio0 v x)) (rev [0..<NBUF])"
  "memdisk (binit (kbio0 v x)) = replicate 64 (replicate BSIZE v)"
proof -
  show m: "memdisk (binit (kbio0 v x)) = replicate 64 (replicate BSIZE v)"
    using kbio0_binit(4) [where v = v and x = x] by (simp add: kbio0_def)
  have "set (rev [0..<NBUF]) = {..<NBUF}" by auto
  then show "bio_inv (binit (kbio0 v x)) (rev [0..<NBUF])"
    using kbio0_binit(1-3,7) [where v = v and x = x] m by (auto simp: bio_inv_def)
qed

lemma kbio0_fresh: "i < NBUF \<Longrightarrow> spare (binit (kbio0 v x)) i" "i < NBUF \<Longrightarrow> unlocked (binit (kbio0 v x)) i"
  "\<not> has_buf (binit (kbio0 v x)) bn i" "held (binit (kbio0 v x)) = {}" "pinned (binit (kbio0 v x)) = {}"
proof -
  note C = core_eqD [OF kbio0_binit(5) [where v = v and x = x]]
  show "spare (binit (kbio0 v x)) i" if "i < NBUF" for i
    using kbio0_zero(2) [OF that, where v = v and x = x] that by (simp add: spare_def C is_dirty_def)
  show "unlocked (binit (kbio0 v x)) i" if "i < NBUF" for i by (rule kbio0_binit(6) [OF that])
  show h: "\<not> has_buf (binit (kbio0 v x)) bn i" for bn i
    using kbio0_zero(2) [where v = v and x = x and i = i] by (auto simp: has_buf_def C)
  show "held (binit (kbio0 v x)) = {}" "pinned (binit (kbio0 v x)) = {}" by (simp_all add: held_def pinned_def h)
qed

text \<open>
  C3.  Reads are coherent.  For a block of disk 1 that nobody holds, \<^verbatim>\<open>bread\<close> returns a buffer
  that the caller now holds and that contains the current contents of the block (the cached
  version where there is one, the disk's otherwise), provided it is pinned in the cache or
  fewer than \<^verbatim>\<open>NBUF\<close> blocks are held or pinned.  It changes the contents of no block, writes
  nothing to the disk and keeps the cache's invariant.
\<close>

theorem bread_coherent:
  assumes "bio_inv s xs" "unat bn < length (memdisk s)" "bn \<notin> held s"
    "bn \<in> pinned s \<or> card (held s \<union> pinned s) < NBUF"
  shows "\<exists>b t. bread 1 bn s = Ret (b, t) \<and> holds t b bn \<and> bdata (bufs t ! b) = view s bn \<and>
    bio_inv t xs \<and> view t = view s \<and> held t = insert bn (held s) \<and> pinned t = pinned s \<and>
    memdisk t = memdisk s \<and> dwrites t = dwrites s"
proof -
  obtain b t where "bread 1 bn s = Ret (b, t)" "bio_inv t xs" "holds t b bn" "view t = view s"
    "held t = insert bn (held s)" "pinned t = pinned s" "memdisk t = memdisk s" "dwrites t = dwrites s"
    by (rule bread_ok [OF assms])
  then show ?thesis using holds_data [of t xs b bn] by auto
qed

theorem bread_coherent_witness:
  "\<exists>b t. bread 1 5 (binit (kbio0 7 ())) = Ret (b, t) \<and> holds t b 5 \<and> bdata (bufs t ! b) = replicate BSIZE 7"
proof -
  have v: "view (binit (kbio0 7 ())) 5 = replicate BSIZE 7"
    using view_miss [of "binit (kbio0 7 ())" 5] by (simp add: kbio0_fresh kbio0_inv(2))
  show ?thesis
    using bread_coherent [OF kbio0_inv(1), of 5 7 "()"] v
    by (auto simp: kbio0_inv(2) kbio0_fresh NBUF_def MAXOPBLOCKS_def)
qed

text \<open>
  C13.  Eviction is least recently used: a block that is not in the cache gets the buffer that is
  last in the list among those that are neither referenced nor dirty, and \<^verbatim>\<open>bget\<close> panics
  exactly when there is none.
\<close>

theorem bget_evicts_lru:
  assumes "bio_inv s xs" "\<And>i. \<not> has_buf s bn i"
  shows "bget 1 bn s =
    (case find (spare s) (rev xs) of
       None \<Rightarrow> Panic ''bget: no buffers''
     | Some i \<Rightarrow> Ret (i, slock (BufLock i)
         (upd_buf i (\<lambda>x. x\<lparr>bdev := 1, blockno := bn, flags := 0, refcnt := 1\<rparr>) s)))"
proof (cases "\<exists>j. spare s j")
  case True
  then obtain j where j: "spare s j" by blast
  obtain i where "find (spare s) (rev xs) = Some i"
    "bget 1 bn s = Ret (i, slock (BufLock i)
       (upd_buf i (\<lambda>x. x\<lparr>bdev := 1, blockno := bn, flags := 0, refcnt := 1\<rparr>) s))"
    by (rule bget_miss [OF assms j])
  then show ?thesis by simp
next
  case False
  then have "find (spare s) (rev xs) = None" by (simp add: find_None_iff)
  then show ?thesis using bget_full [OF assms] False by simp
qed

theorem bget_evicts_lru_witness:
  "\<exists>t. bget 1 5 (binit (kbio0 7 ())) = Ret (0, t) \<and> blockno (bufs t ! 0) = 5"
proof -
  have "find (spare (binit (kbio0 7 ()))) [0..<NBUF] = Some 0"
    using kbio0_fresh(1) [of 0 7 "()"] by (simp add: NBUF_def MAXOPBLOCKS_def upt_conv_Cons)
  moreover have "0 < length (bufs (binit (kbio0 7 ())))"
    using dll_length [OF kbio0_binit(1), of 7 "()"] by simp
  ultimately show ?thesis
    using bget_evicts_lru [of "binit (kbio0 7 ())" _ 5, OF kbio0_inv(1) kbio0_fresh(3)] by simp
qed

text \<open>
  C14.  \<^verbatim>\<open>brelse\<close> of a buffer that the caller holds, and whose contents are on the disk or pinned,
  frees its lock and its reference and moves it to the front of the list; no block changes.
\<close>

theorem brelse_moves_to_front:
  assumes "bio_inv s xs" "holds s b bn" "bn \<in> pinned s \<or> view s bn = memdisk s ! unat bn"
  shows "\<exists>t. brelse b s = Ret t \<and> bio_inv t (b # remove1 b xs) \<and> view t = view s \<and>
    held t = held s - {bn} \<and> pinned t = pinned s \<and> memdisk t = memdisk s \<and> dwrites t = dwrites s"
proof -
  obtain t where "brelse b s = Ret t" "bio_inv t (b # remove1 b xs)" "view t = view s"
    "held t = held s - {bn}" "pinned t = pinned s" "memdisk t = memdisk s" "dwrites t = dwrites s"
    by (rule brelse_ok [OF assms])
  then show ?thesis by blast
qed

theorem brelse_moves_to_front_witness:
  "\<exists>b s t. bread 1 5 (binit (kbio0 7 ())) = Ret (b, s) \<and> brelse b s = Ret t \<and>
     bio_inv t (b # remove1 b (rev [0..<NBUF]))"
proof -
  obtain b s where b: "bread 1 5 (binit (kbio0 7 ())) = Ret (b, s)" "bio_inv s (rev [0..<NBUF])" "holds s b 5"
    "view s = view (binit (kbio0 7 ()))" "memdisk s = memdisk (binit (kbio0 7 ()))"
    by (rule bread_ok [OF kbio0_inv(1), of 5])
      (auto simp: kbio0_inv(2) kbio0_fresh NBUF_def MAXOPBLOCKS_def)
  have "view (binit (kbio0 7 ())) 5 = memdisk (binit (kbio0 7 ())) ! unat (5 :: uint)"
    by (rule view_miss) (simp add: kbio0_fresh)
  with b show ?thesis using brelse_moves_to_front [OF b(2,3)] by auto
qed

end
