(* ===== verification/Log.thy ===== *)
theory Log
  imports Bio
begin

text \<open>
  The write-ahead log (\<^verbatim>\<open>log.c\<close>) over the buffer cache, with \<^verbatim>\<open>readsb\<close> of \<^verbatim>\<open>fs.c\<close>, which
  \<^verbatim>\<open>initlog\<close> calls.  The header block of the log on the disk is \<^verbatim>\<open>struct logheader\<close> in the
  machine's layout: the count in the first four bytes, the block numbers after it.
\<close>

subsection \<open>State\<close>

record klog = kbio +
  log_start :: uint
  log_size :: int
  outstanding :: int
  committing :: bool
  log_dev :: uint
  lh_n :: int
  lh_block :: "uint list"

record superblock =
  sb_size :: uint
  sb_nblocks :: uint
  sb_ninodes :: uint
  sb_nlog :: uint
  sb_logstart :: uint
  sb_inodestart :: uint
  sb_bmapstart :: uint

definition sb_decode :: "block \<Rightarrow> superblock" where
  "sb_decode d = \<lparr>sb_size = get32 d 0, sb_nblocks = get32 d 4, sb_ninodes = get32 d 8,
     sb_nlog = get32 d 12, sb_logstart = get32 d 16, sb_inodestart = get32 d 20,
     sb_bmapstart = get32 d 24\<rparr>"

definition readsb :: "uint \<Rightarrow> 'a kbio_scheme \<Rightarrow> (superblock \<times> 'a kbio_scheme) result" where
  "readsb dev s =
     rbind (bread dev 1 s) (\<lambda>(bp, s).
     let sb = sb_decode (bdata (bufs s ! bp))
     in rbind (brelse bp s) (\<lambda>s. Ret (sb, s)))"

subsection \<open>The log on the disk\<close>

fun install_loop :: "nat \<Rightarrow> nat \<Rightarrow> 'a klog_scheme \<Rightarrow> 'a klog_scheme result" where
  "install_loop tail 0 s = Ret s"
| "install_loop tail (Suc k) s =
     rbind (bread (log_dev s) (log_start s + of_nat tail + 1) s) (\<lambda>(lbuf, s).
     if length (lh_block s) \<le> tail then Fault
     else rbind (bread (log_dev s) (lh_block s ! tail) s) (\<lambda>(dbuf, s).
       let s = set_bdata dbuf (bdata (bufs s ! lbuf)) s
       in rbind (bwrite dbuf s) (\<lambda>s.
          rbind (brelse lbuf s) (\<lambda>s.
          rbind (brelse dbuf s) (\<lambda>s. install_loop (Suc tail) k s)))))"

definition install_trans :: "'a klog_scheme \<Rightarrow> 'a klog_scheme result" where
  "install_trans s = install_loop 0 (nat (lh_n s)) s"

text \<open>\<^verbatim>\<open>lh->block[i]\<close> of a header block.\<close>

abbreviation hd_block :: "block \<Rightarrow> nat \<Rightarrow> uint" where
  "hd_block d i \<equiv> get32 d (4 + 4 * i)"

fun read_head_loop :: "block \<Rightarrow> nat \<Rightarrow> nat \<Rightarrow> uint list \<Rightarrow> uint list result" where
  "read_head_loop d i 0 bs = Ret bs"
| "read_head_loop d i (Suc k) bs =
     (if length bs \<le> i then Fault else read_head_loop d (Suc i) k (bs[i := hd_block d i]))"

definition read_head :: "'a klog_scheme \<Rightarrow> 'a klog_scheme result" where
  "read_head s =
     rbind (bread (log_dev s) (log_start s) s) (\<lambda>(buf, s).
     let lh = bdata (bufs s ! buf);
         s = s\<lparr>lh_n := sint (get32 lh 0)\<rparr>
     in rbind (read_head_loop lh 0 (nat (lh_n s)) (lh_block s)) (\<lambda>bs.
        brelse buf (s\<lparr>lh_block := bs\<rparr>)))"

fun write_head_loop :: "uint list \<Rightarrow> nat \<Rightarrow> nat \<Rightarrow> block \<Rightarrow> block result" where
  "write_head_loop bs i 0 d = Ret d"
| "write_head_loop bs i (Suc k) d =
     (if length bs \<le> i then Fault else write_head_loop bs (Suc i) k (put32 d (4 + 4 * i) (bs ! i)))"

definition write_head :: "'a klog_scheme \<Rightarrow> 'a klog_scheme result" where
  "write_head s =
     rbind (bread (log_dev s) (log_start s) s) (\<lambda>(buf, s).
     let hb = put32 (bdata (bufs s ! buf)) 0 (of_int (lh_n s))
     in rbind (write_head_loop (lh_block s) 0 (nat (lh_n s)) hb) (\<lambda>hb.
        let s = set_bdata buf hb s
        in rbind (bwrite buf s) (brelse buf)))"

definition recover_from_log :: "'a klog_scheme \<Rightarrow> 'a klog_scheme result" where
  "recover_from_log s =
     rbind (read_head s) (\<lambda>s.
     rbind (install_trans s) (\<lambda>s.
     write_head (s\<lparr>lh_n := 0\<rparr>)))"

definition initlog :: "uint \<Rightarrow> 'a klog_scheme \<Rightarrow> 'a klog_scheme result" where
  "initlog dev s =
     (if BSIZE \<le> 4 + 4 * LOGSIZE then Panic ''initlog: too big logheader''
      else let s = initlock LogLock ''log'' s
        in rbind (readsb dev s) (\<lambda>(sb, s).
           recover_from_log (s\<lparr>log_start := sb_logstart sb, log_size := sint (sb_nlog sb), log_dev := dev\<rparr>)))"

subsection \<open>Transactions\<close>

definition begin_op :: "'a klog_scheme \<Rightarrow> 'a klog_scheme result" where
  "begin_op s =
     rbind (acquire LogLock s) (\<lambda>s.
     if committing s then Wait (Sleeps ChLog)
     else if lh_n s + (outstanding s + 1) * int MAXOPBLOCKS > int LOGSIZE then Wait (Sleeps ChLog)
     else release LogLock (s\<lparr>outstanding := outstanding s + 1\<rparr>))"

fun write_log_loop :: "nat \<Rightarrow> nat \<Rightarrow> 'a klog_scheme \<Rightarrow> 'a klog_scheme result" where
  "write_log_loop tail 0 s = Ret s"
| "write_log_loop tail (Suc k) s =
     rbind (bread (log_dev s) (log_start s + of_nat tail + 1) s) (\<lambda>(to, s).
     if length (lh_block s) \<le> tail then Fault
     else rbind (bread (log_dev s) (lh_block s ! tail) s) (\<lambda>(src, s).
       let s = set_bdata to (bdata (bufs s ! src)) s
       in rbind (bwrite to s) (\<lambda>s.
          rbind (brelse src s) (\<lambda>s.
          rbind (brelse to s) (\<lambda>s. write_log_loop (Suc tail) k s)))))"

definition write_log :: "'a klog_scheme \<Rightarrow> 'a klog_scheme result" where
  "write_log s = write_log_loop 0 (nat (lh_n s)) s"

definition commit :: "'a klog_scheme \<Rightarrow> 'a klog_scheme result" where
  "commit s =
     (if lh_n s > 0
      then rbind (write_log s) (\<lambda>s.
           rbind (write_head s) (\<lambda>s.
           rbind (install_trans s) (\<lambda>s.
           write_head (s\<lparr>lh_n := 0\<rparr>))))
      else Ret s)"

definition end_op :: "'a klog_scheme \<Rightarrow> 'a klog_scheme result" where
  "end_op s =
     rbind (acquire LogLock s) (\<lambda>s.
     let s = s\<lparr>outstanding := outstanding s - 1\<rparr>
     in if committing s then Panic ''log.committing''
        else if outstanding s = 0
        then rbind (release LogLock (s\<lparr>committing := True\<rparr>)) (\<lambda>s.
             rbind (commit s) (\<lambda>s.
             rbind (acquire LogLock s) (\<lambda>s.
             rbind (wakeup ChLog (s\<lparr>committing := False\<rparr>)) (\<lambda>s.
             release LogLock s))))
        else rbind (wakeup ChLog s) (release LogLock))"

definition log_write :: "nat \<Rightarrow> 'a klog_scheme \<Rightarrow> 'a klog_scheme result" where
  "log_write b s =
     (if lh_n s \<ge> int LOGSIZE \<or> lh_n s \<ge> log_size s - 1 then Panic ''too big a transaction''
      else if outstanding s < 1 then Panic ''log_write outside of trans''
      else rbind (acquire LogLock s) (\<lambda>s.
        let n = nat (lh_n s);
            i = (case find_idx (\<lambda>x. x = blockno (bufs s ! b)) (take n (lh_block s)) of
                   Some i \<Rightarrow> i | None \<Rightarrow> n);
            s = s\<lparr>lh_block := (lh_block s)[i := blockno (bufs s ! b)]\<rparr>;
            s = (if int i = lh_n s then s\<lparr>lh_n := lh_n s + 1\<rparr> else s);
            s = upd_buf b (\<lambda>x. x\<lparr>flags := flags x OR B_DIRTY\<rparr>) s
        in release LogLock s))"

subsection \<open>Copying blocks\<close>

lemma copy_second:
  assumes ok: "bio_ok s" "held s = {}" and ne: "a \<noteq> b"
    and len: "unat a < length (memdisk s)" "unat b < length (memdisk s)"
    and room: "a \<notin> pinned s" "card (pinned s) < NBUF" "b \<in> pinned s \<or> card (insert a (pinned s)) < NBUF"
  obtains x s1 y s2 s3 s4 t where "bread 1 a s = Ret (x, s1)" "bread 1 b s1 = Ret (y, s2)"
    "bwrite y (set_bdata y (bdata (bufs s2 ! x)) s2) = Ret s3" "brelse x s3 = Ret s4" "brelse y s4 = Ret t"
    "bio_frame s s1" "bio_frame s s2" "copied a b s t"
proof -
  obtain x s1 where 1: "bread 1 a s = Ret (x, s1)" "bio_ok s1" "holds s1 x a" "view s1 = view s"
    "held s1 = {a}" "pinned s1 = pinned s" "memdisk s1 = memdisk s" "dwrites s1 = dwrites s" "bio_frame s s1"
    by (rule bread_step [OF ok(1) len(1)]) (use ok room in auto)
  obtain y s2 where 2: "bread 1 b s1 = Ret (y, s2)" "bio_ok s2" "holds s2 y b" "view s2 = view s"
    "held s2 = {a, b}" "pinned s2 = pinned s" "memdisk s2 = memdisk s" "dwrites s2 = dwrites s"
    "bio_frame s1 s2" "holds s2 x a"
    by (rule bread_step [of s1 b]) (use 1 ok len ne room in auto)
  define d where "d = set_bdata y (bdata (bufs s2 ! x)) s2"
  have dx: "bdata (bufs s2 ! x) = view s a" "length (view s a) = BSIZE" using holds_view [OF 2(2,10)] 2(4) by simp_all
  note D = set_bdata_step [OF 2(2,3), of "bdata (bufs s2 ! x)", folded d_def]
  have d: "bio_ok d" "holds d x a" "holds d y b" "view d = (view s)(b := view s a)" "held d = {a, b}"
    "pinned d = pinned s" "bio_frame s2 d" "memdisk d = memdisk s" "dwrites d = dwrites s"
    using D 2 dx by simp_all
  obtain s3 where 3: "bwrite y d = Ret s3" "bio_ok s3" "holds s3 x a" "holds s3 y b"
    "view s3 = (view s)(b := view s a)" "held s3 = {a, b}" "pinned s3 = pinned s - {b}"
    "memdisk s3 = (memdisk s)[unat b := view s a]" "dwrites s3 = dwrites s @ [(unat b, view s a)]"
    "bio_frame d s3"
    by (rule bwrite_step [OF d(1,3)]) (use d in auto)
  have ab: "unat b \<noteq> unat a" using ne by (simp add: word_unat_eq_iff)
  have va: "view s a = memdisk s ! unat a" by (rule view_clean) (use ok room in auto)
  have xy: "x \<noteq> y" using 2(3,10) holds_inj [OF 2(2)] ne by blast
  obtain s4 where 4: "brelse x s3 = Ret s4" "bio_ok s4" "view s4 = view s3" "held s4 = {b}"
    "pinned s4 = pinned s3" "memdisk s4 = memdisk s3" "dwrites s4 = dwrites s3" "bio_frame s3 s4" "holds s4 y b"
    by (rule brelse_step [OF 3(2,3)]) (use 3 ne ab va xy in auto)
  obtain t where 5: "brelse y s4 = Ret t" "bio_ok t" "view t = view s4" "held t = {}"
    "pinned t = pinned s4" "memdisk t = memdisk s4" "dwrites t = dwrites s4" "bio_frame s4 t"
    by (rule brelse_step [OF 4(2,9)]) (use 3 4 len in auto)
  have "bio_frame s t"
    using 1(9) 2(9) d(7) 3(10) 4(8) 5(8) by (meson bio_frame_trans)
  then have "copied a b s t" using 3 4 5 by (simp add: copied_def)
  moreover have "bio_frame s s2" using 1(9) 2(9) by (rule bio_frame_trans)
  ultimately show thesis using that 1(1,9) 2(1) 3(1) 4(1) 5(1) by (simp add: d_def)
qed

lemma copy_first:
  assumes ok: "bio_ok s" "held s = {}" and ne: "a \<noteq> b"
    and len: "unat a < length (memdisk s)" "unat b < length (memdisk s)"
    and room: "a \<notin> pinned s" "card (pinned s) < NBUF" "b \<in> pinned s"
  obtains x s1 y s2 s3 s4 t where "bread 1 a s = Ret (x, s1)" "bread 1 b s1 = Ret (y, s2)"
    "bwrite x (set_bdata x (bdata (bufs s2 ! y)) s2) = Ret s3" "brelse y s3 = Ret s4" "brelse x s4 = Ret t"
    "bio_frame s s1" "bio_frame s s2" "copied b a s t"
proof -
  obtain x s1 where 1: "bread 1 a s = Ret (x, s1)" "bio_ok s1" "holds s1 x a" "view s1 = view s"
    "held s1 = {a}" "pinned s1 = pinned s" "memdisk s1 = memdisk s" "dwrites s1 = dwrites s" "bio_frame s s1"
    by (rule bread_step [OF ok(1) len(1)]) (use ok room in auto)
  obtain y s2 where 2: "bread 1 b s1 = Ret (y, s2)" "bio_ok s2" "holds s2 y b" "view s2 = view s"
    "held s2 = {a, b}" "pinned s2 = pinned s" "memdisk s2 = memdisk s" "dwrites s2 = dwrites s"
    "bio_frame s1 s2" "holds s2 x a"
    by (rule bread_step [of s1 b]) (use 1 ok len ne room in auto)
  define d where "d = set_bdata x (bdata (bufs s2 ! y)) s2"
  have dy: "bdata (bufs s2 ! y) = view s b" "length (view s b) = BSIZE" using holds_view [OF 2(2,3)] 2(4) by simp_all
  note D = set_bdata_step [OF 2(2,10), of "bdata (bufs s2 ! y)", folded d_def]
  have d: "bio_ok d" "holds d x a" "holds d y b" "view d = (view s)(a := view s b)" "held d = {a, b}"
    "pinned d = pinned s" "bio_frame s2 d" "memdisk d = memdisk s" "dwrites d = dwrites s"
    using D 2 dy by simp_all
  obtain s3 where 3: "bwrite x d = Ret s3" "bio_ok s3" "holds s3 x a" "holds s3 y b"
    "view s3 = (view s)(a := view s b)" "held s3 = {a, b}" "pinned s3 = pinned s"
    "memdisk s3 = (memdisk s)[unat a := view s b]" "dwrites s3 = dwrites s @ [(unat a, view s b)]"
    "bio_frame d s3"
    by (rule bwrite_step [OF d(1,2)]) (use d room in auto)
  have xy: "x \<noteq> y" using 2(3,10) holds_inj [OF 2(2)] ne by blast
  obtain s4 where 4: "brelse y s3 = Ret s4" "bio_ok s4" "view s4 = view s3" "held s4 = {a}"
    "pinned s4 = pinned s3" "memdisk s4 = memdisk s3" "dwrites s4 = dwrites s3" "bio_frame s3 s4" "holds s4 x a"
    by (rule brelse_step [OF 3(2,4)]) (use 3 ne room xy in auto)
  obtain t where 5: "brelse x s4 = Ret t" "bio_ok t" "view t = view s4" "held t = {}"
    "pinned t = pinned s4" "memdisk t = memdisk s4" "dwrites t = dwrites s4" "bio_frame s4 t"
    by (rule brelse_step [OF 4(2,9)]) (use 3 4 len in auto)
  have "bio_frame s t"
    using 1(9) 2(9) d(7) 3(10) 4(8) 5(8) by (meson bio_frame_trans)
  then have "copied b a s t" using 3 4 5 room by (simp add: copied_def)
  moreover have "bio_frame s s2" using 1(9) 2(9) by (rule bio_frame_trans)
  ultimately show thesis using that 1(1,9) 2(1) 3(1) 4(1) 5(1) by (simp add: d_def)
qed

lemma log_frame:
  assumes "bio_frame s t"
  shows "log_start t = log_start s" "log_size t = log_size s" "outstanding t = outstanding s"
    "committing t = committing s" "log_dev t = log_dev s" "lh_n t = lh_n s" "lh_block t = lh_block s"
  using assms by (auto simp: bio_frame_def)

lemma bio_cong:
  assumes "same_cpu s t" "ptable s = ptable t" "sleepl s = sleepl t" "bufs s = bufs t" "memdisk s = memdisk t"
  shows "bio_ok s = bio_ok t" "view s = view t" "held s = held t" "pinned s = pinned t"
    "holds s = holds t"
proof -
  have u: "unlocked s = unlocked t" using assms by (simp add: unlocked_def fun_eq_iff)
  have h: "has_buf s = has_buf t" using assms by (simp add: has_buf_def fun_eq_iff)
  have "quiet s = quiet t" by (rule quiet_same) (use assms in simp_all)
  then show "bio_ok s = bio_ok t"
    using assms u by (simp add: bio_ok_def bio_inv_def buf_ok_def uniq_def)
  show "view s = view t" using assms by (auto simp: view_def split: option.split)
  show "held s = held t" "pinned s = pinned t" using assms u h by (simp_all add: held_def pinned_def)
  have "slheld l s = slheld l t" for l
    using assms cur_same [OF assms(1)] by (simp add: slheld_def cur_pid_def)
  then show "holds s = holds t" using h by (simp add: holds_def fun_eq_iff)
qed

lemma bio_log_simps [simp]:
  "bio_ok (s\<lparr>lh_n := n\<rparr>) = bio_ok s" "view (s\<lparr>lh_n := n\<rparr>) = view s" "held (s\<lparr>lh_n := n\<rparr>) = held s"
  "pinned (s\<lparr>lh_n := n\<rparr>) = pinned s" "holds (s\<lparr>lh_n := n\<rparr>) = holds s"
  "bio_ok (s\<lparr>lh_block := bs\<rparr>) = bio_ok s" "view (s\<lparr>lh_block := bs\<rparr>) = view s" "held (s\<lparr>lh_block := bs\<rparr>) = held s"
  "pinned (s\<lparr>lh_block := bs\<rparr>) = pinned s" "holds (s\<lparr>lh_block := bs\<rparr>) = holds s"
  by (rule bio_cong; simp add: same_cpu_def)+

subsection \<open>The log area\<close>

text \<open>
  Where the log lies: header block, then one block for every slot.  The blocks of a
  transaction are outside of it, and there are fewer of them than buffers.
\<close>

definition log_slot :: "'a klog_scheme \<Rightarrow> nat \<Rightarrow> uint" where
  "log_slot s i = log_start s + of_nat i + 1"

definition log_geom :: "'a klog_scheme \<Rightarrow> bool" where
  "log_geom s \<longleftrightarrow> log_dev s = 1 \<and> 1 \<le> log_size s \<and> log_size s \<le> int LOGSIZE \<and>
     unat (log_start s) + nat (log_size s) \<le> length (memdisk s) \<and> length (memdisk s) < 2 ^ 32 \<and>
     length (lh_block s) = LOGSIZE"

definition log_area :: "'a klog_scheme \<Rightarrow> uint set" where
  "log_area s = {bn. unat (log_start s) \<le> unat bn \<and> unat bn < unat (log_start s) + nat (log_size s)}"

definition trans_ok :: "'a klog_scheme \<Rightarrow> uint list \<Rightarrow> bool" where
  "trans_ok s bs \<longleftrightarrow> distinct bs \<and> int (length bs) < log_size s \<and>
     (\<forall>bn \<in> set bs. bn \<notin> log_area s \<and> unat bn < length (memdisk s))"

lemma unat_log_slot:
  assumes "log_geom s" "int i < log_size s - 1"
  shows "unat (log_slot s i) = unat (log_start s) + i + 1"
proof -
  have "unat (log_start s) + i + 1 < 2 ^ 32" using assms by (auto simp: log_geom_def)
  then show ?thesis by (simp add: log_slot_def unat_word_ariths unat_of_nat)
qed

lemma log_slot_props:
  assumes g: "log_geom s" and i: "int i < log_size s - 1"
  shows "log_slot s i \<in> log_area s" "unat (log_slot s i) < length (memdisk s)"
    "log_slot s i \<noteq> log_start s" "log_start s \<in> log_area s"
    "int j < log_size s - 1 \<Longrightarrow> log_slot s i = log_slot s j \<longleftrightarrow> i = j"
  using g i unat_log_slot [OF g i] unat_log_slot [OF g, of j]
  by (auto simp: log_area_def log_geom_def word_unat_eq_iff)

text \<open>The writes of one pass over the transaction, and the disk after a sequence of writes.\<close>

definition apply_writes :: "(nat \<times> block) list \<Rightarrow> block list \<Rightarrow> block list" where
  "apply_writes ws d = foldl (\<lambda>d (n, x). d[n := x]) d ws"

lemma apply_writes_simps [simp]:
  "apply_writes [] d = d" "apply_writes ((n, x) # ws) d = apply_writes ws (d[n := x])"
  "apply_writes (vs @ ws) d = apply_writes ws (apply_writes vs d)"
  by (simp_all add: apply_writes_def)

lemma length_apply_writes [simp]: "length (apply_writes ws d) = length d"
  by (induction ws arbitrary: d) auto

lemma apply_writes_other: "n \<notin> fst ` set ws \<Longrightarrow> apply_writes ws d ! n = d ! n"
  by (induction ws arbitrary: d) auto

lemma apply_writes_in:
  "distinct (map fst ws) \<Longrightarrow> (n, x) \<in> set ws \<Longrightarrow> n < length d \<Longrightarrow> apply_writes ws d ! n = x"
proof (induction ws arbitrary: d)
  case (Cons w ws)
  then show ?case by (cases w) (auto simp: apply_writes_other rev_image_eqI)
qed simp

subsection \<open>Installing and writing the log\<close>

abbreviation home :: "'a klog_scheme \<Rightarrow> nat \<Rightarrow> uint" where
  "home s i \<equiv> lh_block s ! i"

definition homes_ok :: "'a klog_scheme \<Rightarrow> nat list \<Rightarrow> bool" where
  "homes_ok s is \<longleftrightarrow> distinct (map (home s) is) \<and>
     (\<forall>i \<in> set is. i < length (lh_block s) \<and> int i < log_size s - 1 \<and>
        home s i \<notin> log_area s \<and> unat (home s i) < length (memdisk s))"

lemma log_geom_frame:
  assumes "bio_frame s t" "length (memdisk t) = length (memdisk s)"
  shows "log_geom t = log_geom s" "log_area t = log_area s" "log_slot t = log_slot s"
    "homes_ok t is = homes_ok s is"
  using log_frame [OF assms(1)] assms(2)
  by (simp_all add: log_geom_def log_area_def log_slot_def homes_ok_def fun_eq_iff)

lemma homes_ok_ConsD:
  assumes "homes_ok s (i # is)"
  shows "homes_ok s is" "i < length (lh_block s)" "int i < log_size s - 1" "home s i \<notin> log_area s"
    "unat (home s i) < length (memdisk s)" "home s i \<notin> home s ` set is"
  using assms by (auto simp: homes_ok_def)

lemma install_step:
  assumes ok: "bio_ok s" "held s = {}" "log_geom s" and h: "homes_ok s [tail]"
    and room: "pinned s \<inter> log_area s = {}" "card (pinned s) < NBUF" "home s tail \<in> pinned s \<or> pinned s = {}"
  obtains t where "\<And>k. install_loop tail (Suc k) s = install_loop (Suc tail) k t"
    "copied (log_slot s tail) (home s tail) s t"
proof -
  note H = homes_ok_ConsD [OF h]
  note L = log_slot_props [OF ok(3) H(3)]
  have dev: "log_dev s = 1" using ok(3) by (simp add: log_geom_def)
  obtain x s1 y s2 s3 s4 t where *: "bread 1 (log_slot s tail) s = Ret (x, s1)"
    "bread 1 (home s tail) s1 = Ret (y, s2)"
    "bwrite y (set_bdata y (bdata (bufs s2 ! x)) s2) = Ret s3" "brelse x s3 = Ret s4" "brelse y s4 = Ret t"
    "bio_frame s s1" "bio_frame s s2" "copied (log_slot s tail) (home s tail) s t"
    by (rule copy_second [OF ok(1,2), of "log_slot s tail" "home s tail"])
      (use L H room in \<open>auto simp: NBUF_def MAXOPBLOCKS_def\<close>)
  have "install_loop tail (Suc k) s = install_loop (Suc tail) k t" for k
    using *(1-5) H(2) log_frame [OF *(6)] dev by (simp add: log_slot_def Let_def)
  with *(8) that show thesis by blast
qed

lemma write_log_step:
  assumes ok: "bio_ok s" "held s = {}" "log_geom s" and h: "homes_ok s [tail]"
    and room: "pinned s \<inter> log_area s = {}" "card (pinned s) < NBUF" "home s tail \<in> pinned s"
  obtains t where "\<And>k. write_log_loop tail (Suc k) s = write_log_loop (Suc tail) k t"
    "copied (home s tail) (log_slot s tail) s t"
proof -
  note H = homes_ok_ConsD [OF h]
  note L = log_slot_props [OF ok(3) H(3)]
  have dev: "log_dev s = 1" using ok(3) by (simp add: log_geom_def)
  obtain x s1 y s2 s3 s4 t where *: "bread 1 (log_slot s tail) s = Ret (x, s1)"
    "bread 1 (home s tail) s1 = Ret (y, s2)"
    "bwrite x (set_bdata x (bdata (bufs s2 ! y)) s2) = Ret s3" "brelse y s3 = Ret s4" "brelse x s4 = Ret t"
    "bio_frame s s1" "bio_frame s s2" "copied (home s tail) (log_slot s tail) s t"
    by (rule copy_first [OF ok(1,2), of "log_slot s tail" "home s tail"])
      (use L H room in auto)
  have "write_log_loop tail (Suc k) s = write_log_loop (Suc tail) k t" for k
    using *(1-5) H(2) log_frame [OF *(6)] dev by (simp add: log_slot_def Let_def)
  with *(8) that show thesis by blast
qed

definition install_writes :: "'a klog_scheme \<Rightarrow> nat list \<Rightarrow> (nat \<times> block) list" where
  "install_writes s is = map (\<lambda>i. (unat (home s i), view s (log_slot s i))) is"

definition log_writes :: "'a klog_scheme \<Rightarrow> nat list \<Rightarrow> (nat \<times> block) list" where
  "log_writes s is = map (\<lambda>i. (unat (log_slot s i), view s (home s i))) is"

lemma upt_Cons_Suc: "[a..<a + Suc k] = a # [Suc a..<Suc a + k]"
  by (simp add: upt_conv_Cons del: upt_Suc)

lemma install_loop_ok:
  assumes "bio_ok s" "held s = {}" "log_geom s" "homes_ok s [tail..<tail + k]"
    "pinned s \<inter> log_area s = {}" "card (pinned s) < NBUF"
    "home s ` {tail..<tail + k} \<subseteq> pinned s \<or> pinned s = {}"
  shows "\<exists>t. install_loop tail k s = Ret t \<and> bio_ok t \<and> held t = {} \<and> bio_frame s t \<and>
    pinned t = pinned s - home s ` {tail..<tail + k} \<and>
    dwrites t = dwrites s @ install_writes s [tail..<tail + k] \<and>
    memdisk t = apply_writes (install_writes s [tail..<tail + k]) (memdisk s) \<and>
    (\<forall>bn \<in> log_area s. view t bn = view s bn)"
  using assms
proof (induction k arbitrary: tail s)
  case 0
  then show ?case by (simp add: install_writes_def)
next
  case (Suc k)
  let ?is = "[Suc tail..<Suc tail + k]"
  have hs: "homes_ok s (tail # ?is)" using Suc.prems(4) unfolding upt_Cons_Suc .
  note H = homes_ok_ConsD [OF hs]
  have h1: "homes_ok s [tail]" using H by (simp add: homes_ok_def)
  have set: "{tail..<tail + Suc k} = insert tail {Suc tail..<Suc tail + k}" by auto
  obtain t where t: "\<And>k. install_loop tail (Suc k) s = install_loop (Suc tail) k t"
    and c: "copied (log_slot s tail) (home s tail) s t"
    by (rule install_step [OF Suc.prems(1-3) h1 Suc.prems(5,6)]) (use Suc.prems(7) set in auto)
  then have C: "bio_ok t" "held t = {}" "pinned t = pinned s - {home s tail}"
    "view t = (view s)(home s tail := view s (log_slot s tail))"
    "memdisk t = (memdisk s)[unat (home s tail) := view s (log_slot s tail)]"
    "dwrites t = dwrites s @ [(unat (home s tail), view s (log_slot s tail))]" "bio_frame s t"
    by (simp_all add: copied_def)
  have g: "log_geom t = log_geom s" "log_area t = log_area s" "log_slot t = log_slot s"
    "homes_ok t ?is = homes_ok s ?is" "lh_block t = lh_block s"
    using log_geom_frame [OF C(7)] C(5) log_frame(7) [OF C(7)] by simp_all
  have va: "view t bn = view s bn" if "bn \<in> log_area s" for bn using C(4) H(4) that by auto
  have sl: "log_slot s i \<in> log_area s" if "i \<in> set ?is" for i
    using log_slot_props(1) [OF Suc.prems(3)] H(1) that by (auto simp: homes_ok_def)
  have iw: "install_writes t ?is = install_writes s ?is"
    unfolding install_writes_def g using va sl by (intro map_cong) simp_all
  have "card (pinned t) < NBUF" 
    using Suc.prems(6) card_Diff1_le [of "pinned s" "home s tail"] by (simp add: C(3))
  moreover have "home t ` {Suc tail..<Suc tail + k} \<subseteq> pinned t \<or> pinned t = {}"
  proof -
    have "home s tail \<notin> home s ` {Suc tail..<Suc tail + k}" using H(6) unfolding set_upt .
    then show ?thesis using Suc.prems(7) unfolding g C(3) set by blast
  qed
  ultimately obtain u where u: "install_loop (Suc tail) k t = Ret u" "bio_ok u" "held u = {}" "bio_frame t u"
    "pinned u = pinned t - home t ` {Suc tail..<Suc tail + k}"
    "dwrites u = dwrites t @ install_writes t ?is" "memdisk u = apply_writes (install_writes t ?is) (memdisk t)"
    "\<forall>bn \<in> log_area t. view u bn = view t bn"
    using Suc.IH [of t "Suc tail"] C Suc.prems(3,5) H(1) unfolding g by blast
  have "install_writes s [tail..<tail + Suc k] = (unat (home s tail), view s (log_slot s tail)) # install_writes s ?is"
    unfolding upt_Cons_Suc by (simp add: install_writes_def)
  moreover have "pinned u = pinned s - home s ` {tail..<tail + Suc k}" using u(5) unfolding C(3) g set by blast
  moreover have "bio_frame s u" by (rule bio_frame_trans [OF C(7) u(4)])
  ultimately show ?case using u t C va iw by (auto simp: g)
qed

lemma write_log_loop_ok:
  assumes "bio_ok s" "held s = {}" "log_geom s" "homes_ok s [tail..<tail + k]"
    "pinned s \<inter> log_area s = {}" "card (pinned s) < NBUF" "home s ` {tail..<tail + k} \<subseteq> pinned s"
  shows "\<exists>t. write_log_loop tail k s = Ret t \<and> bio_ok t \<and> held t = {} \<and> bio_frame s t \<and> pinned t = pinned s \<and>
    dwrites t = dwrites s @ log_writes s [tail..<tail + k] \<and>
    memdisk t = apply_writes (log_writes s [tail..<tail + k]) (memdisk s) \<and>
    (\<forall>bn. bn \<notin> log_slot s ` {tail..<tail + k} \<longrightarrow> view t bn = view s bn)"
  using assms
proof (induction k arbitrary: tail s)
  case 0
  then show ?case by (simp add: log_writes_def)
next
  case (Suc k)
  let ?is = "[Suc tail..<Suc tail + k]"
  have hs: "homes_ok s (tail # ?is)" using Suc.prems(4) unfolding upt_Cons_Suc .
  note H = homes_ok_ConsD [OF hs]
  have h1: "homes_ok s [tail]" using H by (simp add: homes_ok_def)
  have set: "{tail..<tail + Suc k} = insert tail {Suc tail..<Suc tail + k}" by auto
  have sl: "log_slot s tail \<in> log_area s" by (rule log_slot_props(1) [OF Suc.prems(3) H(3)])
  obtain t where t: "\<And>k. write_log_loop tail (Suc k) s = write_log_loop (Suc tail) k t"
    and c: "copied (home s tail) (log_slot s tail) s t"
    by (rule write_log_step [OF Suc.prems(1-3) h1 Suc.prems(5,6)]) (use Suc.prems(7) set in auto)
  then have C: "bio_ok t" "held t = {}" "pinned t = pinned s"
    "view t = (view s)(log_slot s tail := view s (home s tail))"
    "memdisk t = (memdisk s)[unat (log_slot s tail) := view s (home s tail)]"
    "dwrites t = dwrites s @ [(unat (log_slot s tail), view s (home s tail))]" "bio_frame s t"
    using Suc.prems(5) sl by (auto simp: copied_def)
  have g: "log_geom t = log_geom s" "log_area t = log_area s" "log_slot t = log_slot s"
    "homes_ok t ?is = homes_ok s ?is" "lh_block t = lh_block s"
    using log_geom_frame [OF C(7)] C(5) log_frame(7) [OF C(7)] by simp_all
  have va: "view t bn = view s bn" if "bn \<notin> log_area s" for bn using C(4) sl that by auto
  have lw: "log_writes t ?is = log_writes s ?is"
    unfolding log_writes_def g using va H(1) by (intro map_cong) (auto simp: homes_ok_def)
  have ht: "homes_ok t ?is" using H(1) g(4) by blast
  have ob: "\<exists>u. write_log_loop (Suc tail) k t = Ret u \<and> bio_ok u \<and> held u = {} \<and> bio_frame t u \<and> pinned u = pinned t \<and>
    dwrites u = dwrites t @ log_writes t ?is \<and> memdisk u = apply_writes (log_writes t ?is) (memdisk t) \<and>
    (\<forall>bn. bn \<notin> log_slot t ` {Suc tail..<Suc tail + k} \<longrightarrow> view u bn = view t bn)"
    by (rule Suc.IH) (use C Suc.prems(3,5-7) ht in \<open>auto simp: g set simp del: upt_Suc\<close>)
  then obtain u where u: "write_log_loop (Suc tail) k t = Ret u" "bio_ok u" "held u = {}" "bio_frame t u"
    "pinned u = pinned t" "dwrites u = dwrites t @ log_writes t ?is"
    "memdisk u = apply_writes (log_writes t ?is) (memdisk t)"
    "\<And>bn. bn \<notin> log_slot t ` {Suc tail..<Suc tail + k} \<Longrightarrow> view u bn = view t bn" by blast
  have "log_writes s [tail..<tail + Suc k] = (unat (log_slot s tail), view s (home s tail)) # log_writes s ?is"
    unfolding upt_Cons_Suc by (simp add: log_writes_def)
  moreover have "bio_frame s u" by (rule bio_frame_trans [OF C(7) u(4)])
  moreover have "view u bn = view s bn" if "bn \<notin> log_slot s ` {tail..<tail + Suc k}" for bn
  proof -
    have "bn \<noteq> log_slot s tail" "bn \<notin> log_slot t ` {Suc tail..<Suc tail + k}"
      using that unfolding g set by blast+
    then show ?thesis using u(8) C(4) by simp
  qed
  ultimately show ?case using u(1-7) t C lw by (auto simp: g)
qed

subsection \<open>The header\<close>

text \<open>What a header block says: the number of logged blocks, and their home locations.\<close>

definition header :: "block \<Rightarrow> nat \<Rightarrow> (nat \<Rightarrow> uint) \<Rightarrow> bool" where
  "header d n f \<longleftrightarrow> length d = BSIZE \<and> get32 d 0 = of_nat n \<and> (\<forall>i < n. hd_block d i = f i)"

lemma write_head_loop_ok:
  assumes "i + k \<le> length bs" "i + k \<le> LOGSIZE" "length d = BSIZE"
  shows "\<exists>d'. write_head_loop bs i k d = Ret d' \<and> length d' = BSIZE \<and> get32 d' 0 = get32 d 0 \<and>
    (\<forall>j < i. hd_block d' j = hd_block d j) \<and> (\<forall>j. i \<le> j \<longrightarrow> j < i + k \<longrightarrow> hd_block d' j = bs ! j)"
  using assms
proof (induction k arbitrary: i d)
  case (Suc k)
  let ?d = "put32 d (4 + 4 * i) (bs ! i)"
  have b: "4 + 4 * i + 4 \<le> length d" using Suc.prems by (simp add: LOGSIZE_def MAXOPBLOCKS_def BSIZE_def)
  obtain d' where d': "write_head_loop bs (Suc i) k ?d = Ret d'" "length d' = BSIZE" "get32 d' 0 = get32 ?d 0"
    "\<And>j. j < Suc i \<Longrightarrow> hd_block d' j = hd_block ?d j"
    "\<And>j. Suc i \<le> j \<Longrightarrow> j < Suc i + k \<Longrightarrow> hd_block d' j = bs ! j"
    using Suc.IH [of "Suc i" ?d] Suc.prems by auto
  have "hd_block d' j = bs ! j" if "i \<le> j" "j < i + Suc k" for j
  proof (cases "j = i")
    case True
    then show ?thesis using d'(4) [of i] b by simp
  next
    case False
    then show ?thesis using d'(5) [of j] that by simp
  qed
  moreover have "hd_block d' j = hd_block d j" if "j < i" for j
    using d'(4) [of j] that by (simp add: get32_put32_other)
  moreover have "get32 d' 0 = get32 d 0" using d'(3) by (simp add: get32_put32_other)
  ultimately show ?case using d'(1,2) Suc.prems by simp
qed simp

lemma read_head_loop_ok:
  assumes "i + k \<le> length bs"
  shows "\<exists>bs'. read_head_loop d i k bs = Ret bs' \<and> length bs' = length bs \<and>
    (\<forall>j < i. bs' ! j = bs ! j) \<and> (\<forall>j. i \<le> j \<longrightarrow> j < i + k \<longrightarrow> bs' ! j = hd_block d j)"
  using assms
proof (induction k arbitrary: i bs)
  case (Suc k)
  let ?bs = "bs[i := hd_block d i]"
  obtain bs' where b: "read_head_loop d (Suc i) k ?bs = Ret bs'" "length bs' = length bs"
    "\<And>j. j < Suc i \<Longrightarrow> bs' ! j = ?bs ! j" "\<And>j. Suc i \<le> j \<Longrightarrow> j < Suc i + k \<Longrightarrow> bs' ! j = hd_block d j"
    using Suc.IH [of "Suc i" ?bs] Suc.prems by auto
  have "bs' ! j = hd_block d j" if "i \<le> j" "j < i + Suc k" for j
  proof (cases "j = i")
    case True
    then show ?thesis using b(3) [of i] Suc.prems by simp
  next
    case False
    then show ?thesis using b(4) [of j] that by simp
  qed
  moreover have "bs' ! j = bs ! j" if "j < i" for j using b(3) [of j] that by simp
  ultimately show ?case using b(1,2) Suc.prems by simp
qed simp

lemma log_start_range:
  "log_geom s \<Longrightarrow> unat (log_start s) < length (memdisk s)" "log_geom s \<Longrightarrow> log_dev s = 1"
  "log_geom s \<Longrightarrow> log_start s \<in> log_area s"
  by (auto simp: log_geom_def log_area_def)

lemma write_head_ok:
  assumes ok: "bio_ok s" "held s = {}" "log_geom s" "log_start s \<notin> pinned s" "card (pinned s) < NBUF"
    and n: "lh_n s = int n" "n \<le> LOGSIZE"
  obtains t H where "write_head s = Ret t" "bio_ok t" "held t = {}" "pinned t = pinned s"
    "view t = (view s)(log_start s := H)" "memdisk t = (memdisk s)[unat (log_start s) := H]"
    "dwrites t = dwrites s @ [(unat (log_start s), H)]" "bio_frame s t" "header H n (home s)"
proof -
  note L = log_start_range [OF ok(3)]
  let ?st = "log_start s"
  obtain b s1 where 1: "bread 1 ?st s = Ret (b, s1)" "bio_ok s1" "holds s1 b ?st" "view s1 = view s"
    "held s1 = {?st}" "pinned s1 = pinned s" "memdisk s1 = memdisk s" "dwrites s1 = dwrites s" "bio_frame s s1"
    by (rule bread_step [OF ok(1) L(1)]) (use ok in auto)
  have d: "bdata (bufs s1 ! b) = view s ?st" "length (view s ?st) = BSIZE"
    using holds_view [OF 1(2,3)] 1(4) by simp_all
  have len: "length (lh_block s) = LOGSIZE" using ok(3) by (simp add: log_geom_def)
  let ?d = "put32 (view s ?st) 0 (of_nat n)"
  obtain H where H: "write_head_loop (lh_block s) 0 n ?d = Ret H" "length H = BSIZE" "get32 H 0 = get32 ?d 0"
    "\<And>j. j < n \<Longrightarrow> hd_block H j = home s j"
    using write_head_loop_ok [of 0 n "lh_block s" ?d] n(2) len d(2) by auto
  have hd: "header H n (home s)" using H d(2) by (simp add: header_def BSIZE_def)
  let ?s2 = "set_bdata b H s1"
  note S = set_bdata_step [OF 1(2,3) H(2)]
  obtain s3 where 3: "bwrite b ?s2 = Ret s3" "bio_ok s3" "holds s3 b ?st" "view s3 = (view s)(?st := H)"
    "held s3 = {?st}" "pinned s3 = pinned s" "memdisk s3 = (memdisk s)[unat ?st := H]"
    "dwrites s3 = dwrites s @ [(unat ?st, H)]" "bio_frame ?s2 s3"
    by (rule bwrite_step [of ?s2 b ?st]) (use S 1 ok in auto)
  obtain t where 4: "brelse b s3 = Ret t" "bio_ok t" "view t = view s3" "held t = {}" "pinned t = pinned s3"
    "memdisk t = memdisk s3" "dwrites t = dwrites s3" "bio_frame s3 t"
    by (rule brelse_step [OF 3(2,3)]) (use 3 L in auto)
  have "write_head s = Ret t"
    using 1(1) 3(1) 4(1) H(1) log_frame [OF 1(9)] L(2) n(1) d(1) by (simp add: write_head_def Let_def)
  moreover have "bio_frame s t" using 1(9) S(6) 3(9) 4(8) by (meson bio_frame_trans)
  ultimately show thesis using that [OF _ _ _ _ _ _ _ _ hd] 3 4 by auto
qed

lemma sint_small: "n \<le> LOGSIZE \<Longrightarrow> sint (of_nat n :: uint) = int n"
proof -
  assume "n \<le> LOGSIZE"
  then have "n \<le> 30" by (simp add: LOGSIZE_def MAXOPBLOCKS_def)
  then show ?thesis
    by (simp add: signed_of_nat signed_take_bit_int_eq_self)
qed

lemma read_head_ok:
  assumes ok: "bio_ok s" "held s = {}" "log_geom s" "log_start s \<notin> pinned s" "card (pinned s) < NBUF"
    and h: "header (view s (log_start s)) n f" "n \<le> LOGSIZE"
  obtains t where "read_head s = Ret t" "bio_ok t" "held t = {}" "pinned t = pinned s" "view t = view s"
    "memdisk t = memdisk s" "dwrites t = dwrites s" "lh_n t = int n" "\<And>i. i < n \<Longrightarrow> home t i = f i"
    "length (lh_block t) = LOGSIZE" "log_start t = log_start s" "log_size t = log_size s" "log_dev t = log_dev s"
proof -
  note L = log_start_range [OF ok(3)]
  let ?st = "log_start s"
  obtain b s1 where 1: "bread 1 ?st s = Ret (b, s1)" "bio_ok s1" "holds s1 b ?st" "view s1 = view s"
    "held s1 = {?st}" "pinned s1 = pinned s" "memdisk s1 = memdisk s" "dwrites s1 = dwrites s" "bio_frame s s1"
    by (rule bread_step [OF ok(1) L(1)]) (use ok in auto)
  have d: "bdata (bufs s1 ! b) = view s ?st" using holds_view [OF 1(2,3)] 1(4) by simp
  have nn: "sint (get32 (view s ?st) 0) = int n" using h sint_small by (simp add: header_def)
  have len: "length (lh_block s1) = LOGSIZE" using ok(3) log_frame [OF 1(9)] by (simp add: log_geom_def)
  obtain bs where bs: "read_head_loop (view s ?st) 0 n (lh_block s1) = Ret bs" "length bs = LOGSIZE"
    "\<And>j. j < n \<Longrightarrow> bs ! j = hd_block (view s ?st) j"
    using read_head_loop_ok [of 0 n "lh_block s1" "view s ?st"] h(2) len by auto
  let ?s2 = "s1\<lparr>lh_n := int n, lh_block := bs\<rparr>"
  obtain t where 4: "brelse b ?s2 = Ret t" "bio_ok t" "view t = view ?s2" "held t = {}" "pinned t = pinned ?s2"
    "memdisk t = memdisk ?s2" "dwrites t = dwrites ?s2" "bio_frame ?s2 t"
  proof (rule brelse_step [of ?s2 b ?st])
    have "view s ?st = memdisk s ! unat ?st" by (rule view_clean) (use ok in auto)
    then show "?st \<in> pinned ?s2 \<or> view ?s2 ?st = memdisk ?s2 ! unat ?st" using 1 by simp
  qed (use 1 in auto)
  have "read_head s = Ret t"
    using 1(1) 4(1) bs(1) L(2) nn d by (simp add: read_head_def Let_def)
  then show thesis
    using that [of t] 4 1 log_frame [OF 4(8)] log_frame [OF 1(9)] bs h(1) by (simp add: header_def)
qed

subsection \<open>Commit\<close>

definition home_writes :: "'a klog_scheme \<Rightarrow> nat \<Rightarrow> (nat \<times> block) list" where
  "home_writes s n = map (\<lambda>i. (unat (home s i), view s (home s i))) [0..<n]"

text \<open>A transaction that is ready to be committed.\<close>

definition ready :: "'a klog_scheme \<Rightarrow> nat \<Rightarrow> bool" where
  "ready s n \<longleftrightarrow> bio_ok s \<and> held s = {} \<and> log_geom s \<and> lh_n s = int n \<and> homes_ok s [0..<n] \<and>
     pinned s = home s ` {..<n}"

lemma readyD:
  assumes "ready s n"
  shows "bio_ok s" "held s = {}" "log_geom s" "lh_n s = int n" "homes_ok s [0..<n]" "pinned s = home s ` {..<n}"
    "pinned s \<inter> log_area s = {}" "card (pinned s) < NBUF" "n \<le> LOGSIZE" "log_start s \<notin> pinned s"
    "\<And>i. i < n \<Longrightarrow> int i < log_size s - 1" "\<And>i. i < n \<Longrightarrow> log_slot s i \<notin> pinned s"
proof -
  show a: "bio_ok s" "held s = {}" "log_geom s" "lh_n s = int n" "homes_ok s [0..<n]" "pinned s = home s ` {..<n}"
    using assms by (simp_all add: ready_def)
  show i: "\<And>i. i < n \<Longrightarrow> int i < log_size s - 1" using a(5) by (auto simp: homes_ok_def)
  have sz: "log_size s \<le> 30" using a(3) by (simp add: log_geom_def LOGSIZE_def MAXOPBLOCKS_def)
  have n: "n < 30"
  proof (cases n)
    case (Suc m)
    then show ?thesis using i [of m] sz by simp
  qed simp
  then show "n \<le> LOGSIZE" by (simp add: LOGSIZE_def MAXOPBLOCKS_def)
  show p: "pinned s \<inter> log_area s = {}" using a(5,6) by (auto simp: homes_ok_def)
  have "card (pinned s) \<le> n" using card_image_le [of "{..<n}" "home s"] by (simp add: a(6))
  with n show "card (pinned s) < NBUF" by (simp add: NBUF_def MAXOPBLOCKS_def)
  show "log_start s \<notin> pinned s" using p log_start_range(3) [OF a(3)] by blast
  show "log_slot s i \<notin> pinned s" if "i < n" for i
    using p log_slot_props(1) [OF a(3) i [OF that]] by blast
qed

lemma log_writes_at:
  assumes r: "ready s n" and i: "i < n"
  shows "apply_writes (log_writes s [0..<n]) (memdisk s) ! unat (log_slot s i) = view s (home s i)"
proof (rule apply_writes_in)
  note R = readyD [OF r]
  have "unat (log_slot s j) = unat (log_slot s k) \<longleftrightarrow> j = k" if "j < n" "k < n" for j k
    using log_slot_props(5) [OF R(3) R(11) [OF that(1)] R(11) [OF that(2)]] by (simp add: word_unat_eq_iff)
  then show "distinct (map fst (log_writes s [0..<n]))"
    by (auto simp: log_writes_def distinct_map inj_on_def)
  show "(unat (log_slot s i), view s (home s i)) \<in> set (log_writes s [0..<n])"
    using i by (simp add: log_writes_def)
  show "unat (log_slot s i) < length (memdisk s)" by (rule log_slot_props(2) [OF R(3) R(11) [OF i]])
qed

lemma upd_lh_frame: "bio_frame s t \<Longrightarrow> bio_frame (s\<lparr>lh_n := k\<rparr>) (t\<lparr>lh_n := k\<rparr>)"
proof -
  assume f: "bio_frame s t"
  then obtain p l b m w where t: "t = s\<lparr>ptable := p, sleepl := l, bufs := b, memdisk := m, dwrites := w\<rparr>"
    by (auto simp: bio_frame_def)
  have c: "cur (u\<lparr>lh_n := k\<rparr>) = cur u" for u :: "'a klog_scheme" by (rule cur_same) (simp add: same_cpu_def)
  have "cur_pid (u\<lparr>lh_n := k\<rparr>) = cur_pid u" for u :: "'a klog_scheme" by (simp add: cur_pid_def c)
  moreover have "cur_pid t = cur_pid s" "\<And>i. l (InodeLock i) = sleepl s (InodeLock i)"
    using f t by (simp_all add: bio_frame_def)
  ultimately show ?thesis
    by (intro bio_frameI [where p = p and l = l and b = b and m = m and w = w]) (simp_all, simp add: t)
qed

lemma commit_ok:
  assumes r: "ready s n" and n: "0 < n"
  obtains t H1 H0 where "commit s = Ret t" "bio_ok t" "held t = {}" "pinned t = {}" "lh_n t = 0"
    "bio_frame (s\<lparr>lh_n := 0\<rparr>) t" "header H1 n (home s)" "header H0 0 (home s)"
    "dwrites t = dwrites s @ log_writes s [0..<n] @ [(unat (log_start s), H1)] @ home_writes s n @
       [(unat (log_start s), H0)]"
    "memdisk t = apply_writes (log_writes s [0..<n] @ [(unat (log_start s), H1)] @ home_writes s n @
       [(unat (log_start s), H0)]) (memdisk s)"
proof -
  note R = readyD [OF r]
  let ?st = "log_start s"
  have lt: "{0..<n} = {..<n}" by auto
  obtain s1 where 1: "write_log s = Ret s1" "bio_ok s1" "held s1 = {}" "bio_frame s s1" "pinned s1 = pinned s"
    "dwrites s1 = dwrites s @ log_writes s [0..<n]" "memdisk s1 = apply_writes (log_writes s [0..<n]) (memdisk s)"
    "\<And>bn. bn \<notin> log_slot s ` {..<n} \<Longrightarrow> view s1 bn = view s bn"
    using write_log_loop_ok [OF R(1-3), of 0 n] R(4-8) by (auto simp: write_log_def lt)
  note g1 = log_geom_frame [OF 1(4)] and f1 = log_frame [OF 1(4)]
  have len1: "length (memdisk s1) = length (memdisk s)" by (simp add: 1(7))
  have slot1: "view s1 (log_slot s i) = view s (home s i)" if "i < n" for i
    using view_clean [OF 1(2), of "log_slot s i"] 1(3,5,7) R(12) [OF that] log_writes_at [OF r that] by simp
  obtain s2 H1 where 2: "write_head s1 = Ret s2" "bio_ok s2" "held s2 = {}" "pinned s2 = pinned s"
    "view s2 = (view s1)(?st := H1)" "memdisk s2 = (memdisk s1)[unat ?st := H1]"
    "dwrites s2 = dwrites s1 @ [(unat ?st, H1)]" "bio_frame s1 s2" "header H1 n (home s)"
    by (rule write_head_ok [OF 1(2,3), of n]) (use R g1 f1 1 len1 in auto)
  have fr2: "bio_frame s s2" by (rule bio_frame_trans [OF 1(4) 2(8)])
  have len2: "length (memdisk s2) = length (memdisk s)" by (simp add: 2(6) len1)
  note g2 = log_geom_frame [OF fr2 len2] and f2 = log_frame [OF fr2]
  have iw: "install_writes s2 [0..<n] = home_writes s n"
    unfolding install_writes_def home_writes_def f2(7) g2(3)
    using slot1 log_slot_props(3) [OF R(3) R(11)] by (auto simp: 2(5))
  obtain s3 where 3: "install_trans s2 = Ret s3" "bio_ok s3" "held s3 = {}" "bio_frame s2 s3" "pinned s3 = {}"
    "dwrites s3 = dwrites s2 @ home_writes s n" "memdisk s3 = apply_writes (home_writes s n) (memdisk s2)"
    using install_loop_ok [OF 2(2,3), of 0 n] R(3-8) iw by (auto simp: g2 f2 2(4) install_trans_def lt)
  have fr3: "bio_frame s s3" by (rule bio_frame_trans [OF fr2 3(4)])
  have len3: "length (memdisk s3) = length (memdisk s)" by (simp add: 3(7) len2)
  let ?z = "s3\<lparr>lh_n := 0\<rparr>"
  have geom: "log_geom ?z" using R(3) log_geom_frame(1) [OF fr3 len3] by (simp add: log_geom_def)
  obtain t H0 where 4: "write_head ?z = Ret t" "bio_ok t" "held t = {}" "pinned t = {}"
    "memdisk t = (memdisk s3)[unat ?st := H0]" "dwrites t = dwrites s3 @ [(unat ?st, H0)]" "bio_frame ?z t"
    "header H0 0 (home s)"
    by (rule write_head_ok [of ?z 0])
      (use 3 geom log_frame [OF fr3] in \<open>auto simp: header_def NBUF_def MAXOPBLOCKS_def\<close>)
  have "commit s = Ret t"
    using 1(1) 2(1) 3(1) 4(1) R(4) n by (simp add: commit_def)
  moreover have "bio_frame (s\<lparr>lh_n := 0\<rparr>) t"
    by (rule bio_frame_trans [OF upd_lh_frame [OF fr3] 4(7)])
  moreover have "lh_n t = 0" using log_frame(6) [OF 4(7)] by simp
  ultimately show thesis
    using that [of t H1 H0] 1 2 3 4 by simp
qed

subsection \<open>Recovery\<close>

text \<open>The state after a restart: the cache is empty, and the disk is what was written.\<close>

definition rebooted :: "'a klog_scheme \<Rightarrow> bool" where
  "rebooted r \<longleftrightarrow> bio_ok r \<and> held r = {} \<and> pinned r = {} \<and> log_geom r"

lemma recover_ok:
  assumes r: "rebooted r" and h: "header (memdisk r ! unat (log_start r)) n f" "n = 0 \<or> int n < log_size r"
    and f: "distinct (map f [0..<n])" "\<And>i. i < n \<Longrightarrow> f i \<notin> log_area r \<and> unat (f i) < length (memdisk r)"
  obtains t H where "recover_from_log r = Ret t" "bio_ok t" "held t = {}" "pinned t = {}" "lh_n t = 0"
    "header H 0 f"
    "memdisk t = (apply_writes (map (\<lambda>i. (unat (f i), memdisk r ! unat (log_slot r i))) [0..<n]) (memdisk r))
       [unat (log_start r) := H]"
proof -
  have R: "bio_ok r" "held r = {}" "pinned r = {}" "log_geom r" using r by (simp_all add: rebooted_def)
  have nb: "n \<le> LOGSIZE" "n = 0 \<or> n \<le> 29"
    using h(2) R(4) by (auto simp: log_geom_def LOGSIZE_def MAXOPBLOCKS_def)
  have v: "view r bn = memdisk r ! unat bn" for bn by (rule view_clean [OF R(1)]) (simp_all add: R)
  obtain s where s: "read_head r = Ret s" "bio_ok s" "held s = {}" "pinned s = {}" "view s = view r"
    "memdisk s = memdisk r" "lh_n s = int n" "\<And>i. i < n \<Longrightarrow> home s i = f i" "length (lh_block s) = LOGSIZE"
    "log_start s = log_start r" "log_size s = log_size r" "log_dev s = log_dev r"
    by (rule read_head_ok [OF R(1,2,4)]) (use R h v nb in \<open>auto simp: NBUF_def MAXOPBLOCKS_def\<close>)
  have g: "log_geom s" "log_area s = log_area r" "log_slot s = log_slot r"
    using R(4) s by (simp_all add: log_geom_def log_area_def log_slot_def fun_eq_iff)
  have "map (home s) [0..<n] = map f [0..<n]" using s(8) by simp
  then have "distinct (map (home s) [0..<n])" using f(1) by metis
  then have ho: "homes_ok s [0..<n]"
    using f(2) s h(2) nb by (auto simp: homes_ok_def g LOGSIZE_def MAXOPBLOCKS_def)
  have iw: "install_writes s [0..<n] = map (\<lambda>i. (unat (f i), memdisk r ! unat (log_slot r i))) [0..<n]"
    using s(5,8) v by (simp add: install_writes_def g)
  obtain u where u: "install_trans s = Ret u" "bio_ok u" "held u = {}" "bio_frame s u" "pinned u = {}"
    "memdisk u = apply_writes (install_writes s [0..<n]) (memdisk r)"
    using install_loop_ok [OF s(2,3) g(1), of 0 n] ho s by (auto simp: install_trans_def NBUF_def MAXOPBLOCKS_def)
  have len: "length (memdisk u) = length (memdisk s)" by (simp add: u(6) s(6))
  let ?z = "u\<lparr>lh_n := 0\<rparr>"
  have "log_geom ?z" using g(1) log_geom_frame(1) [OF u(4) len] by (simp add: log_geom_def)
  then obtain t H where t: "write_head ?z = Ret t" "bio_ok t" "held t = {}" "pinned t = {}"
    "memdisk t = (memdisk u)[unat (log_start r) := H]" "bio_frame ?z t" "header H 0 f"
    by (rule write_head_ok [of ?z 0, rotated 2])
      (use u log_frame [OF u(4)] s in \<open>auto simp: header_def NBUF_def MAXOPBLOCKS_def\<close>)
  have "recover_from_log r = Ret t" using s(1) u(1) t(1) by (simp add: recover_from_log_def)
  moreover have "lh_n t = 0" using log_frame(6) [OF t(6)] by simp
  ultimately show thesis using that t u(6) iw by simp
qed

text \<open>Blocks of the disk outside of the log.\<close>

definition data_block :: "'a klog_scheme \<Rightarrow> nat \<Rightarrow> bool" where
  "data_block s b \<longleftrightarrow> b < length (memdisk s) \<and>
     \<not> (unat (log_start s) \<le> b \<and> b < unat (log_start s) + nat (log_size s))"

definition old_data :: "'a klog_scheme \<Rightarrow> block list \<Rightarrow> bool" where
  "old_data s d \<longleftrightarrow> (\<forall>b. data_block s b \<longrightarrow> d ! b = memdisk s ! b)"

definition new_data :: "'a klog_scheme \<Rightarrow> block list \<Rightarrow> bool" where
  "new_data s d \<longleftrightarrow> (\<forall>b. data_block s b \<longrightarrow> d ! b = view s (of_nat b))"

definition same_log :: "'a klog_scheme \<Rightarrow> 'b klog_scheme \<Rightarrow> bool" where
  "same_log s r \<longleftrightarrow> log_start r = log_start s \<and> log_size r = log_size s \<and>
     length (memdisk r) = length (memdisk s)"

lemma log_blocks_nat:
  assumes r: "ready s n" and i: "i < n"
  shows "\<not> data_block s (unat (log_slot s i))" "data_block s (unat (home s i))"
    "unat (home s i) \<noteq> unat (log_start s)" "unat (home s i) \<noteq> unat (log_slot s j) \<or> \<not> j < n"
proof -
  note R = readyD [OF r]
  show "\<not> data_block s (unat (log_slot s i))"
    using log_slot_props(1) [OF R(3) R(11) [OF i]] by (simp add: data_block_def log_area_def)
  have h: "home s i \<notin> log_area s" "unat (home s i) < length (memdisk s)"
    using R(5) i by (auto simp: homes_ok_def)
  then show d: "data_block s (unat (home s i))" by (auto simp: data_block_def log_area_def)
  show "unat (home s i) \<noteq> unat (log_start s)"
    using h(1) log_start_range(3) [OF R(3)] word_unat_eq_iff [of "home s i" "log_start s"] by auto
  show "unat (home s i) \<noteq> unat (log_slot s j) \<or> \<not> j < n"
    using h(1) log_slot_props(1) [OF R(3) R(11), of j] word_unat_eq_iff [of "home s i" "log_slot s j"] by auto
qed

lemma data_block_start: "log_geom s \<Longrightarrow> \<not> data_block s (unat (log_start s))"
  by (auto simp: data_block_def log_geom_def)

lemma home_writes_at:
  assumes r: "ready s n" and d: "data_block s b" "length M = length (memdisk s)"
    and M: "b \<notin> unat ` home s ` {..<n} \<Longrightarrow> M ! b = memdisk s ! b"
  shows "apply_writes (home_writes s n) M ! b = view s (of_nat b)"
proof -
  note R = readyD [OF r]
  have b: "b < length (memdisk s)" "length (memdisk s) < 2 ^ 32"
    using d R(3) by (simp_all add: data_block_def log_geom_def)
  then have ub: "unat (of_nat b :: uint) = b" by (simp add: unat_of_nat)
  show ?thesis
  proof (cases "b \<in> unat ` home s ` {..<n}")
    case True
    then obtain i where i: "i < n" "b = unat (home s i)" by auto
    then have "of_nat b = home s i" by simp
    moreover have "distinct (map fst (home_writes s n))"
      using R(5) by (auto simp: homes_ok_def home_writes_def distinct_map inj_on_def word_unat_eq_iff [symmetric])
    moreover have "(b, view s (home s i)) \<in> set (home_writes s n)" using i by (simp add: home_writes_def)
    ultimately show ?thesis using apply_writes_in b(1) d(2) by metis
  next
    case False
    then have "b \<notin> fst ` set (home_writes s n)" by (auto simp: home_writes_def)
    then have "apply_writes (home_writes s n) M ! b = memdisk s ! b"
      using M [OF False] by (simp add: apply_writes_other)
    moreover have "of_nat b \<notin> pinned s" using False ub by (auto simp: R(6))
    then have "view s (of_nat b) = memdisk s ! b" using view_clean [OF R(1)] ub R(2) by simp
    ultimately show ?thesis by simp
  qed
qed

text \<open>A crash before, between and after the two header writes of \<^verbatim>\<open>commit\<close>.\<close>

lemma recover_empty:
  assumes r: "rebooted r" "header (memdisk r ! unat (log_start r)) 0 f"
  obtains u where "recover_from_log r = Ret u" "lh_n u = 0"
    "\<And>b. b \<noteq> unat (log_start r) \<Longrightarrow> memdisk u ! b = memdisk r ! b"
  by (rule recover_ok [OF r]) (use that in auto)

lemma recover_full:
  assumes r: "ready s n" and b: "rebooted b" "same_log s b" "header (memdisk b ! unat (log_start s)) n (home s)"
    and slots: "\<And>i. i < n \<Longrightarrow> memdisk b ! unat (log_slot s i) = view s (home s i)"
    and rest: "\<And>x. data_block s x \<Longrightarrow> x \<notin> unat ` home s ` {..<n} \<Longrightarrow> memdisk b ! x = memdisk s ! x"
  obtains u where "recover_from_log b = Ret u" "lh_n u = 0" "new_data s (memdisk u)"
proof -
  note R = readyD [OF r]
  have g: "log_start b = log_start s" "log_area b = log_area s" "log_slot b = log_slot s"
    "log_size b = log_size s" "length (memdisk b) = length (memdisk s)"
    using b(2) by (simp_all add: same_log_def log_area_def log_slot_def fun_eq_iff)
  have w: "map (\<lambda>i. (unat (home s i), memdisk b ! unat (log_slot b i))) [0..<n] = home_writes s n"
    using slots by (simp add: home_writes_def g)
  have hb: "header (memdisk b ! unat (log_start b)) n (home s)" using b(3) by (simp add: g)
  have nb: "n = 0 \<or> int n < log_size b" using R(11) [of "n - 1"] by (cases n) (auto simp: g)
  have dist: "distinct (map (home s) [0..<n])" using R(5) by (simp add: homes_ok_def)
  have rng: "home s i \<notin> log_area b \<and> unat (home s i) < length (memdisk b)" if "i < n" for i
    using R(5) that by (auto simp: homes_ok_def g)
  obtain u H where u: "recover_from_log b = Ret u" "lh_n u = 0"
    "memdisk u = (apply_writes (home_writes s n) (memdisk b))[unat (log_start s) := H]"
    by (rule recover_ok [OF b(1) hb nb dist rng]) (use w in \<open>auto simp: g\<close>)
  have "memdisk u ! x = view s (of_nat x)" if x: "data_block s x" for x
  proof -
    have "x \<noteq> unat (log_start s)" using x data_block_start [OF R(3)] by blast
    then show ?thesis using home_writes_at [OF r x g(5)] rest [OF x] u(3) by simp
  qed
  with u that show thesis by (simp add: new_data_def)
qed

lemma log_writes_other:
  assumes r: "ready s n" and x: "x = unat (log_start s) \<or> data_block s x"
  shows "apply_writes (take j (log_writes s [0..<n])) M ! x = M ! x"
proof (rule apply_writes_other)
  note R = readyD [OF r]
  have "x \<noteq> unat (log_slot s i)" if "i < n" for i
    using x log_slot_props(3) [OF R(3) R(11) [OF that]] log_blocks_nat(1) [OF r that]
      word_unat_eq_iff [of "log_slot s i" "log_start s"] by auto
  moreover have "fst ` set (take j (log_writes s [0..<n])) \<subseteq> unat ` log_slot s ` {..<n}"
    using set_take_subset [of j "log_writes s [0..<n]"] by (auto simp: log_writes_def)
  ultimately show "x \<notin> fst ` set (take j (log_writes s [0..<n]))" by blast
qed

lemma home_writes_other:
  assumes "x \<notin> unat ` home s ` {..<n}"
  shows "apply_writes (take j (home_writes s n)) M ! x = M ! x"
proof (rule apply_writes_other)
  have "fst ` set (take j (home_writes s n)) \<subseteq> unat ` home s ` {..<n}"
    using set_take_subset [of j "home_writes s n"] by (auto simp: home_writes_def)
  with assms show "x \<notin> fst ` set (take j (home_writes s n))" by blast
qed

lemma log_not_home:
  assumes r: "ready s n"
  shows "unat (log_start s) \<notin> unat ` home s ` {..<n}"
    "i < n \<Longrightarrow> unat (log_slot s i) \<notin> unat ` home s ` {..<n}"
  using log_blocks_nat(3,4) [OF r] by fastforce+

lemma crash_before:
  assumes r: "ready s n" and h: "header (memdisk s ! unat (log_start s)) 0 f" and b: "rebooted b" "same_log s b"
    and m: "memdisk b = apply_writes (take k (log_writes s [0..<n])) (memdisk s)"
  obtains u where "recover_from_log b = Ret u" "lh_n u = 0" "old_data s (memdisk u)"
proof -
  note R = readyD [OF r]
  have st: "log_start b = log_start s" using b(2) by (simp add: same_log_def)
  have "header (memdisk b ! unat (log_start b)) 0 f" using h by (simp add: m st log_writes_other [OF r])
  then obtain u where u: "recover_from_log b = Ret u" "lh_n u = 0"
    "\<And>x. x \<noteq> unat (log_start s) \<Longrightarrow> memdisk u ! x = memdisk b ! x"
    using recover_empty [OF b(1), of f] unfolding st by blast
  have "memdisk u ! x = memdisk s ! x" if x: "data_block s x" for x
  proof -
    have "x \<noteq> unat (log_start s)" using x data_block_start [OF R(3)] by blast
    then show ?thesis using u(3) log_writes_other [OF r] x by (simp add: m)
  qed
  with u that show thesis by (simp add: old_data_def)
qed

lemma crash_between:
  assumes r: "ready s n" and h: "header H1 n (home s)" and b: "rebooted b" "same_log s b"
    and m: "memdisk b = apply_writes (take j (home_writes s n))
      ((apply_writes (log_writes s [0..<n]) (memdisk s))[unat (log_start s) := H1])"
  obtains u where "recover_from_log b = Ret u" "lh_n u = 0" "new_data s (memdisk u)"
proof (rule recover_full [OF r b _ _ _ that])
  note R = readyD [OF r]
  have all: "take n (log_writes s [0..<n]) = log_writes s [0..<n]" by (simp add: log_writes_def)
  show "header (memdisk b ! unat (log_start s)) n (home s)"
    using h log_start_range(1) [OF R(3)] by (simp add: m home_writes_other [OF log_not_home(1) [OF r]])
  show "memdisk b ! unat (log_slot s i) = view s (home s i)" if "i < n" for i
    using log_writes_at [OF r that] log_slot_props(3) [OF R(3) R(11) [OF that]]
    by (simp add: m home_writes_other [OF log_not_home(2) [OF r that]] word_unat_eq_iff)
  show "memdisk b ! x = memdisk s ! x" if x: "data_block s x" "x \<notin> unat ` home s ` {..<n}" for x
  proof -
    have "x \<noteq> unat (log_start s)" using x(1) data_block_start [OF R(3)] by blast
    then show ?thesis
      using log_writes_other [OF r, of x n "memdisk s"] x(1) all by (simp add: m home_writes_other [OF x(2)])
  qed
qed

lemma crash_after:
  assumes r: "ready s n" and h: "header H0 0 (home s)" and b: "rebooted b" "same_log s b"
    and m: "memdisk b = (apply_writes (home_writes s n)
      ((apply_writes (log_writes s [0..<n]) (memdisk s))[unat (log_start s) := H1]))[unat (log_start s) := H0]"
  obtains u where "recover_from_log b = Ret u" "lh_n u = 0" "new_data s (memdisk u)"
proof -
  note R = readyD [OF r]
  let ?st = "unat (log_start s)"
  have st: "log_start b = log_start s" using b(2) by (simp add: same_log_def)
  have all: "take n (log_writes s [0..<n]) = log_writes s [0..<n]" by (simp add: log_writes_def)
  have "header (memdisk b ! unat (log_start b)) 0 (home s)"
    using h log_start_range(1) [OF R(3)] by (simp add: m st)
  then obtain u where u: "recover_from_log b = Ret u" "lh_n u = 0"
    "\<And>x. x \<noteq> ?st \<Longrightarrow> memdisk u ! x = memdisk b ! x"
    using recover_empty [OF b(1), of "home s"] unfolding st by blast
  have "memdisk u ! x = view s (of_nat x)" if x: "data_block s x" for x
  proof -
    have ne: "x \<noteq> ?st" using x data_block_start [OF R(3)] by blast
    have "apply_writes (home_writes s n) ((apply_writes (log_writes s [0..<n]) (memdisk s))[?st := H1]) ! x
        = view s (of_nat x)"
      by (rule home_writes_at [OF r x]) (use log_writes_other [OF r, of x n "memdisk s"] x ne all in simp_all)
    then show ?thesis using u(3) [OF ne] ne by (simp add: m)
  qed
  with u that show thesis by (simp add: new_data_def)
qed

lemma crash_points:
  assumes r: "ready s n" and h: "header (memdisk s ! unat (log_start s)) 0 f" "header H1 n (home s)" "header H0 0 (home s)"
    and b: "rebooted b" "same_log s b"
    and m: "memdisk b = apply_writes (take k (log_writes s [0..<n] @ [(unat (log_start s), H1)] @ home_writes s n @
       [(unat (log_start s), H0)])) (memdisk s)" (is "_ = apply_writes (take k ?W) _")
  shows "\<exists>u. recover_from_log b = Ret u \<and> lh_n u = 0 \<and>
    (if k \<le> n then old_data s (memdisk u) else new_data s (memdisk u))"
proof -
  let ?W1 = "log_writes s [0..<n]" and ?W2 = "home_writes s n" and ?st = "unat (log_start s)"
  have l: "length ?W1 = n" "length ?W2 = n" by (simp_all add: log_writes_def home_writes_def)
  consider "k \<le> n" | "n < k" "k \<le> 2 * n + 1" | "2 * n + 1 < k" by linarith
  then show ?thesis
  proof cases
    case 1
    then have "memdisk b = apply_writes (take k ?W1) (memdisk s)" using m l by simp
    from crash_before [OF r h(1) b this] 1 show ?thesis by auto
  next
    case 2
    then have "take k ?W = ?W1 @ (?st, H1) # take (k - n - 1) ?W2"
      using l by (cases "k - n") simp_all
    then have "memdisk b = apply_writes (take (k - n - 1) ?W2) ((apply_writes ?W1 (memdisk s))[?st := H1])"
      using m by simp
    from crash_between [OF r h(2) b this] 2 show ?thesis by auto
  next
    case 3
    then have "take k ?W = ?W" using l by (intro take_all) simp
    then have "memdisk b = (apply_writes ?W2 ((apply_writes ?W1 (memdisk s))[?st := H1]))[?st := H0]"
      using m by simp
    from crash_after [OF r h(3) b this] 3 show ?thesis by auto
  qed
qed

subsection \<open>Transactions\<close>

lemma acq_klog [simp]:
  "log_start (acq l s) = log_start s" "log_size (acq l s) = log_size s" "outstanding (acq l s) = outstanding s"
  "committing (acq l s) = committing s" "log_dev (acq l s) = log_dev s" "lh_n (acq l s) = lh_n s"
  "lh_block (acq l s) = lh_block s"
  by (simp_all add: acq_def Let_def)

lemma same_cpu_klog [simp]:
  "same_cpu (s\<lparr>lh_n := n\<rparr>) t = same_cpu s t" "same_cpu (s\<lparr>lh_block := bs\<rparr>) t = same_cpu s t"
  "same_cpu (s\<lparr>outstanding := k\<rparr>) t = same_cpu s t" "same_cpu (s\<lparr>committing := c\<rparr>) t = same_cpu s t"
  by (simp_all add: same_cpu_def)

lemma unacq_klog [simp]:
  "unacq s (t\<lparr>lh_n := n\<rparr>) = (unacq s t)\<lparr>lh_n := n\<rparr>" "unacq s (t\<lparr>lh_block := bs\<rparr>) = (unacq s t)\<lparr>lh_block := bs\<rparr>"
  "unacq s (t\<lparr>outstanding := k\<rparr>) = (unacq s t)\<lparr>outstanding := k\<rparr>"
  "unacq s (t\<lparr>committing := c\<rparr>) = (unacq s t)\<lparr>committing := c\<rparr>"
  by (simp_all add: unacq_def)

lemma log_section:
  assumes "quiet s"
  shows "acquire LogLock s = Ret (acq LogLock s)"
    "same_cpu t (acq LogLock s) \<Longrightarrow> release LogLock t = Ret (unacq s t)"
  using quiet_locks [OF assms, of LogLock] by (auto intro: acquire_free release_acq)

lemma bio_quiet: "bio_ok s \<Longrightarrow> quiet s"
  by (auto simp: bio_ok_def bio_inv_def)

text \<open>The log between \<^verbatim>\<open>begin_op\<close> and \<^verbatim>\<open>end_op\<close>: \<open>n\<close> different blocks logged, and these pinned.\<close>

definition open_log :: "'a klog_scheme \<Rightarrow> nat \<Rightarrow> bool" where
  "open_log s n \<longleftrightarrow> bio_ok s \<and> log_geom s \<and> lh_n s = int n \<and> homes_ok s [0..<n] \<and> pinned s = home s ` {..<n}"

lemma ready_open: "ready s n \<longleftrightarrow> open_log s n \<and> held s = {}"
  by (auto simp: ready_def open_log_def)

lemma begin_op_cases:
  assumes "quiet s"
  shows "begin_op s =
    (if committing s \<or> lh_n s + (outstanding s + 1) * int MAXOPBLOCKS > int LOGSIZE then Wait (Sleeps ChLog)
     else Ret (s\<lparr>outstanding := outstanding s + 1\<rparr>))"
  using log_section [OF assms] by (simp add: begin_op_def)

lemma bio_outstanding_simps [simp]:
  "bio_ok (s\<lparr>outstanding := k\<rparr>) = bio_ok s" "view (s\<lparr>outstanding := k\<rparr>) = view s"
  "held (s\<lparr>outstanding := k\<rparr>) = held s" "pinned (s\<lparr>outstanding := k\<rparr>) = pinned s"
  "holds (s\<lparr>outstanding := k\<rparr>) = holds s"
  "bio_ok (s\<lparr>committing := c\<rparr>) = bio_ok s" "view (s\<lparr>committing := c\<rparr>) = view s"
  "held (s\<lparr>committing := c\<rparr>) = held s" "pinned (s\<lparr>committing := c\<rparr>) = pinned s"
  "holds (s\<lparr>committing := c\<rparr>) = holds s"
  by (rule bio_cong; simp add: same_cpu_def)+

lemma log_geom_upd [simp]:
  "log_geom (s\<lparr>outstanding := k\<rparr>) = log_geom s" "log_geom (s\<lparr>committing := c\<rparr>) = log_geom s"
  "log_geom (s\<lparr>lh_n := n\<rparr>) = log_geom s"
  "homes_ok (s\<lparr>outstanding := k\<rparr>) is = homes_ok s is" "homes_ok (s\<lparr>committing := c\<rparr>) is = homes_ok s is"
  "homes_ok (s\<lparr>lh_n := n\<rparr>) is = homes_ok s is"
  by (simp_all add: log_geom_def homes_ok_def log_area_def)

lemma mark_dirty:
  assumes ok: "bio_ok s" and h: "holds s b bn"
  defines "t \<equiv> upd_buf b (\<lambda>x. x\<lparr>flags := flags x OR B_DIRTY\<rparr>) s"
  shows "bio_ok t" "holds t b' n = holds s b' n" "view t = view s" "held t = held s"
    "pinned t = insert bn (pinned s)" "bio_frame s t" "memdisk t = memdisk s" "dwrites t = dwrites s"
proof -
  obtain xs where inv: "bio_inv s xs" using ok by (auto simp: bio_ok_def)
  note H = holdsD [OF inv h]
  let ?x = "(bufs s ! b)\<lparr>flags := flags (bufs s ! b) OR B_DIRTY\<rparr>"
  have t: "t = s\<lparr>bufs := (bufs s)[b := ?x], memdisk := memdisk s, dwrites := dwrites s\<rparr>" by (simp add: t_def)
  note C = held_change [OF inv h, of ?x "memdisk s" "dwrites s"]
  show "bio_ok t" unfolding t by (rule bio_okI [OF C(1)]) (use H(3-10) in simp_all)
  show "holds t b' n = holds s b' n" unfolding t by (rule C(2)) (use H(3-10) in simp_all)
  have "view t = (view s)(bn := bdata ?x)" unfolding t by (rule C(3)) (use H(3-10) in simp_all)
  then show "view t = view s" using H(9) by auto
  show "held t = held s" unfolding t by (rule C(4)) (use H(3-10) in simp_all)
  have "pinned t = (if is_dirty ?x then insert bn (pinned s) else pinned s - {bn})"
    unfolding t by (rule C(5)) (use H(3-10) in simp_all)
  then show "pinned t = insert bn (pinned s)" by simp
  show "bio_frame s t" unfolding t by (rule C(6)) (use H(3-10) in simp_all)
  show "memdisk t = memdisk s" "dwrites t = dwrites s" by (simp_all add: t_def)
qed

definition log_slot_for :: "'a klog_scheme \<Rightarrow> nat \<Rightarrow> uint \<Rightarrow> nat" where
  "log_slot_for s n bn = (case find_idx (\<lambda>x. x = bn) (take n (lh_block s)) of Some i \<Rightarrow> i | None \<Rightarrow> n)"

lemma log_slot_for_acq [simp]: "log_slot_for (acq l s) n bn = log_slot_for s n bn"
  by (simp add: log_slot_for_def)

lemma log_slot_for:
  assumes "n < length (lh_block s)"
  shows "if bn \<in> home s ` {..<n} then log_slot_for s n bn < n \<and> home s (log_slot_for s n bn) = bn
    else log_slot_for s n bn = n"
proof (cases "find_idx (\<lambda>x. x = bn) (take n (lh_block s))")
  case None
  then have "bn \<notin> set (take n (lh_block s))" by (auto simp: find_idx_None)
  then have "bn \<notin> home s ` {..<n}" using assms by (auto simp: in_set_conv_nth)
  then show ?thesis by (simp add: log_slot_for_def None)
next
  case (Some i)
  then have "i < n" "home s i = bn" using assms by (auto simp: find_idx_Some)
  then show ?thesis by (auto simp: log_slot_for_def Some)
qed

lemma log_write_exact:
  assumes o: "open_log s n" and b: "holds s b bn" and n: "int n < log_size s - 1" "1 \<le> outstanding s"
  defines "i \<equiv> log_slot_for s n bn"
  defines "s' \<equiv> (if i = n then s\<lparr>lh_block := (lh_block s)[i := bn], lh_n := int n + 1\<rparr>
      else s\<lparr>lh_block := (lh_block s)[i := bn]\<rparr>)"
  shows "log_write b s = Ret (upd_buf b (\<lambda>x. x\<lparr>flags := flags x OR B_DIRTY\<rparr>) s')"
proof -
  have O: "bio_ok s" "log_geom s" "lh_n s = int n" using o by (simp_all add: open_log_def)
  have q: "quiet s" by (rule bio_quiet [OF O(1)])
  have bn: "blockno (bufs s ! b) = bn" using holds_view(5) [OF O(1) b] .
  have "lh_n s < int LOGSIZE" using n(1) O(2,3) by (simp add: log_geom_def)
  then have "log_write b s = rbind (acquire LogLock s) (\<lambda>s.
        let n = nat (lh_n s);
            i = (case find_idx (\<lambda>x. x = blockno (bufs s ! b)) (take n (lh_block s)) of Some i \<Rightarrow> i | None \<Rightarrow> n);
            s = s\<lparr>lh_block := (lh_block s)[i := blockno (bufs s ! b)]\<rparr>;
            s = (if int i = lh_n s then s\<lparr>lh_n := lh_n s + 1\<rparr> else s);
            s = upd_buf b (\<lambda>x. x\<lparr>flags := flags x OR B_DIRTY\<rparr>) s
        in release LogLock s)"
    using n O(3) by (simp add: log_write_def)
  also have "\<dots> = Ret (upd_buf b (\<lambda>x. x\<lparr>flags := flags x OR B_DIRTY\<rparr>) s')"
    using log_section [OF q] O(3)
    by (simp add: bn Let_def log_slot_for_def [symmetric] i_def [symmetric] s'_def)
  finally show ?thesis .
qed

lemma log_write_ok:
  assumes o: "open_log s n" and b: "holds s b bn" and n: "int n < log_size s - 1" "1 \<le> outstanding s"
    and area: "bn \<notin> log_area s"
  obtains t m where "log_write b s = Ret t" "open_log t m" "home t ` {..<m} = insert bn (home s ` {..<n})"
    "m = (if bn \<in> home s ` {..<n} then n else Suc n)" "view t = view s" "held t = held s"
    "memdisk t = memdisk s" "dwrites t = dwrites s" "\<And>b' k. holds t b' k = holds s b' k"
    "outstanding t = outstanding s" "committing t = committing s" "log_size t = log_size s" "log_start t = log_start s"
proof -
  have O: "bio_ok s" "log_geom s" "lh_n s = int n" "homes_ok s [0..<n]" "pinned s = home s ` {..<n}"
    using o by (simp_all add: open_log_def)
  have len: "length (lh_block s) = LOGSIZE" "n < LOGSIZE" using O(2) n(1) by (auto simp: log_geom_def)
  define i where "i = log_slot_for s n bn"
  define s' where "s' = (if i = n then s\<lparr>lh_block := (lh_block s)[i := bn], lh_n := int n + 1\<rparr>
      else s\<lparr>lh_block := (lh_block s)[i := bn]\<rparr>)"
  define m where "m = (if bn \<in> home s ` {..<n} then n else Suc n)"
  define t where "t = upd_buf b (\<lambda>x. x\<lparr>flags := flags x OR B_DIRTY\<rparr>) s'"
  have i: "if bn \<in> home s ` {..<n} then i < n \<and> home s i = bn else i = n"
    using log_slot_for [of n s bn] len by (simp add: i_def)
  have r: "log_write b s = Ret t" using log_write_exact [OF o b n] by (simp add: t_def s'_def i_def)
  have b': "holds s' b bn" "bio_ok s'" using b O(1) by (simp_all add: s'_def)
  note D = mark_dirty [OF b'(2,1), folded t_def]
  have homes: "home t ` {..<m} = insert bn (home s ` {..<n})" "map (home t) [0..<m] =
      (if bn \<in> home s ` {..<n} then map (home s) [0..<n] else map (home s) [0..<n] @ [bn])"
  proof -
    have h: "home t j = (if j = i then bn else home s j)" for j
      using i len by (cases "j = i") (auto simp: t_def s'_def split: if_splits)
    show map: "map (home t) [0..<m] =
      (if bn \<in> home s ` {..<n} then map (home s) [0..<n] else map (home s) [0..<n] @ [bn])"
      using i by (auto simp: h m_def split: if_splits)
    have "home t ` {..<m} = set (map (home t) [0..<m])" by (simp add: lessThan_atLeast0)
    then show "home t ` {..<m} = insert bn (home s ` {..<n})"
      unfolding map by (auto simp: lessThan_atLeast0)
  qed
  have "unat bn < length (memdisk s)" using holds_view [OF O(1) b] by simp
  have "homes_ok t [0..<m]"
  proof -
    have "distinct (map (home t) [0..<m])" using O(4) unfolding homes(2) by (auto simp: homes_ok_def)
    moreover have "home t j \<notin> log_area s \<and> unat (home t j) < length (memdisk s)" if "j < m" for j
    proof -
      have "home t j \<in> insert bn (home s ` {..<n})" using homes(1) that by blast
      then show ?thesis using O(4) area \<open>unat bn < length (memdisk s)\<close> by (auto simp: homes_ok_def)
    qed
    moreover have "int j < log_size s - 1" if "j < m" for j
      using that n(1) by (simp add: m_def split: if_splits)
    moreover have "log_area t = log_area s" "log_size t = log_size s" "length (lh_block t) = LOGSIZE"
      using len by (simp_all add: t_def s'_def log_area_def)
    moreover have "m \<le> LOGSIZE" using len by (simp add: m_def)
    ultimately show ?thesis using D(7) by (auto simp: homes_ok_def s'_def)
  qed
  moreover have "lh_n t = int m" using i O(3) by (auto simp: t_def s'_def m_def split: if_splits)
  moreover have "log_geom t" using O(2) by (simp add: t_def s'_def log_geom_def)
  moreover have "pinned t = home t ` {..<m}" using D(5) homes(1) O(5) by (simp add: s'_def)
  ultimately have "open_log t m" using D(1) by (simp add: open_log_def)
  then show thesis
    using that [of t m] r homes(1) m_def D(2-8) by (simp add: s'_def) (simp add: t_def s'_def)
qed

lemma quiet_log [simp]:
  "quiet (s\<lparr>outstanding := k\<rparr>) = quiet s" "quiet (s\<lparr>committing := c\<rparr>) = quiet s"
  by (rule quiet_same; simp add: same_cpu_def)+

lemma wakeup1_log [simp]:
  "outstanding (wakeup1 ch s) = outstanding s" "committing (wakeup1 ch s) = committing s"
  "lh_n (wakeup1 ch s) = lh_n s" "lh_block (wakeup1 ch s) = lh_block s" "log_start (wakeup1 ch s) = log_start s"
  "log_size (wakeup1 ch s) = log_size s" "log_dev (wakeup1 ch s) = log_dev s"
  by (simp_all add: wakeup1_def)

lemma wakeup1_kbio [simp]:
  "memdisk (wakeup1 ch s) = memdisk s" "dwrites (wakeup1 ch s) = dwrites s" "bufs (wakeup1 ch s) = bufs s"
  by (simp_all add: wakeup1_def)

lemma bio_wakeup1:
  assumes "bio_ok s"
  shows "bio_ok (wakeup1 ch s)" "view (wakeup1 ch s) = view s" "held (wakeup1 ch s) = held s"
    "pinned (wakeup1 ch s) = pinned s"
proof -
  have u: "unlocked (wakeup1 ch s) = unlocked s" by (simp add: unlocked_def fun_eq_iff)
  have h: "has_buf (wakeup1 ch s) = has_buf s" by (simp add: has_buf_def fun_eq_iff)
  show "bio_ok (wakeup1 ch s)"
    using assms by (simp add: bio_ok_def bio_inv_def buf_ok_def uniq_def u)
  show "view (wakeup1 ch s) = view s" by (auto simp: view_def split: option.split)
  show "held (wakeup1 ch s) = held s" "pinned (wakeup1 ch s) = pinned s" by (simp_all add: held_def pinned_def u h)
qed

text \<open>The end of a critical section that wakes up those who wait on a channel.\<close>

lemma wakeup_section:
  assumes q: "quiet s" and t: "same_cpu t (acq l s)" and l: "l \<noteq> PtableLock"
  shows "wakeup ch t = Ret (wakeup1 ch t)" "release l (wakeup1 ch t) = Ret (unacq s (wakeup1 ch t))"
proof -
  have k: "cpu_ok s" "lock_free l s" "lock_free PtableLock s" using quiet_locks [OF q] by auto
  have "cpu_ok t" using cpu_ok_acq [OF k(1)] same_cpu_ok [OF t] by simp
  moreover have "lock_free PtableLock t"
    using same_cpu_free [OF t] lock_free_acq k(3) l by simp
  ultimately show "wakeup ch t = Ret (wakeup1 ch t)" by (rule wakeup_Ret)
  show "release l (wakeup1 ch t) = Ret (unacq s (wakeup1 ch t))"
    by (rule release_acq [OF k(1,2)]) (use t in simp)
qed

lemma end_op_last:
  assumes r: "ready s n" and o: "outstanding s = 1" "\<not> committing s"
  shows "end_op s = rbind (commit (s\<lparr>outstanding := 0, committing := True\<rparr>)) (\<lambda>s.
      rbind (acquire LogLock s) (\<lambda>s. rbind (wakeup ChLog (s\<lparr>committing := False\<rparr>)) (release LogLock)))"
  using log_section [OF bio_quiet [OF readyD(1) [OF r]]] o by (simp add: end_op_def Let_def)

lemma commit_new_data:
  assumes r: "ready s n" and n: "0 < n" and h: "header H1 n (home s)" "header H0 0 (home s)"
    and m: "m = apply_writes (log_writes s [0..<n] @ [(unat (log_start s), H1)] @ home_writes s n @
       [(unat (log_start s), H0)]) (memdisk s)"
  shows "new_data s m" "m ! unat (log_start s) = H0" "length m = length (memdisk s)"
proof -
  note R = readyD [OF r]
  let ?st = "unat (log_start s)"
  have all: "take n (log_writes s [0..<n]) = log_writes s [0..<n]" by (simp add: log_writes_def)
  show "length m = length (memdisk s)" by (simp add: m)
  show "m ! ?st = H0" using log_start_range(1) [OF R(3)] by (simp add: m)
  have "m ! x = view s (of_nat x)" if x: "data_block s x" for x
  proof -
    have ne: "x \<noteq> ?st" using x data_block_start [OF R(3)] by blast
    have "apply_writes (home_writes s n) ((apply_writes (log_writes s [0..<n]) (memdisk s))[?st := H1]) ! x
        = view s (of_nat x)"
      by (rule home_writes_at [OF r x]) (use log_writes_other [OF r, of x n "memdisk s"] x ne all in simp_all)
    then show ?thesis using ne by (simp add: m)
  qed
  then show "new_data s m" by (simp add: new_data_def)
qed

lemma ready_upd: "ready (s\<lparr>outstanding := k, committing := c\<rparr>) n = ready s n"
  by (simp add: ready_def)

lemma end_op_commits:
  assumes r: "ready s n" "0 < n" and o: "outstanding s = 1" "\<not> committing s"
  obtains t H where "end_op s = Ret t" "bio_ok t" "held t = {}" "pinned t = {}" "lh_n t = 0" "outstanding t = 0"
    "\<not> committing t" "new_data s (memdisk t)" "header (memdisk t ! unat (log_start s)) 0 H" "log_geom t"
    "log_start t = log_start s" "log_size t = log_size s" "length (memdisk t) = length (memdisk s)"
proof -
  let ?s = "s\<lparr>outstanding := 0, committing := True\<rparr>"
  have r': "ready ?s n" using r(1) by (simp add: ready_upd)
  obtain t H1 H0 where c: "commit ?s = Ret t" "bio_ok t" "held t = {}" "pinned t = {}" "lh_n t = 0"
    "bio_frame (?s\<lparr>lh_n := 0\<rparr>) t" "header H1 n (home ?s)" "header H0 0 (home ?s)"
    "memdisk t = apply_writes (log_writes ?s [0..<n] @ [(unat (log_start ?s), H1)] @ home_writes ?s n @
       [(unat (log_start ?s), H0)]) (memdisk ?s)"
    by (rule commit_ok [OF r' r(2)])
  note f = log_frame [OF c(6)]
  note N = commit_new_data [OF r' r(2) c(7,8,9)]
  have nd: "new_data s (memdisk t)" using N(1) by (simp add: new_data_def data_block_def)
  have q: "quiet t" by (rule bio_quiet [OF c(2)])
  let ?t = "wakeup1 ChLog (t\<lparr>committing := False\<rparr>)"
  have "rbind (acquire LogLock t) (\<lambda>s. rbind (wakeup ChLog (s\<lparr>committing := False\<rparr>)) (release LogLock))
      = Ret (unacq t (wakeup1 ChLog ((acq LogLock t)\<lparr>committing := False\<rparr>)))"
    using log_section(1) [OF q] wakeup_section [OF q, of "(acq LogLock t)\<lparr>committing := False\<rparr>" LogLock] by simp
  also have "unacq t (wakeup1 ChLog ((acq LogLock t)\<lparr>committing := False\<rparr>)) = ?t"
    by (simp add: wakeup1_def)
  finally have e: "end_op s = Ret ?t" using end_op_last [OF r(1) o] c(1) by simp
  have ok: "bio_ok (t\<lparr>committing := False\<rparr>)" using c(2) by simp
  show thesis
  proof (rule that [OF e])
    show "bio_ok ?t" "held ?t = {}" "pinned ?t = {}" using bio_wakeup1 [OF ok] c(3,4) by simp_all
    show "lh_n ?t = 0" "outstanding ?t = 0" "\<not> committing ?t" "log_start ?t = log_start s"
      "log_size ?t = log_size s" using c(5) f by simp_all
    show "new_data s (memdisk ?t)" "length (memdisk ?t) = length (memdisk s)" using nd N(3) by simp_all
    show "header (memdisk ?t ! unat (log_start s)) 0 (home s)" using N(2) c(8) by simp
    show "log_geom ?t" using readyD(3) [OF r(1)] f N(3) by (simp add: log_geom_def)
  qed
qed

subsection \<open>Properties\<close>

text \<open>A machine with an empty log in blocks 2 to 31 of a blank disk, inside a system call.\<close>

definition klog0 :: klog where
  "klog0 = binit (kbio0 0 (klog.fields 2 30 1 False 1 0 (replicate LOGSIZE 0)))"

lemma binit_klog:
  "log_start (binit s) = log_start s" "log_size (binit s) = log_size s" "outstanding (binit s) = outstanding s"
  "committing (binit s) = committing s" "log_dev (binit s) = log_dev s" "lh_n (binit s) = lh_n s"
  "lh_block (binit s) = lh_block s"
proof -
  have "log_start (binit_loop b n s) = log_start s \<and> log_size (binit_loop b n s) = log_size s \<and>
    outstanding (binit_loop b n s) = outstanding s \<and> committing (binit_loop b n s) = committing s \<and>
    log_dev (binit_loop b n s) = log_dev s \<and> lh_n (binit_loop b n s) = lh_n s \<and>
    lh_block (binit_loop b n s) = lh_block s" for b n and s :: "'a klog_scheme"
    by (induction b n s rule: binit_loop.induct) (simp_all add: Let_def initsleeplock_def initlock_def)
  then show "log_start (binit s) = log_start s" "log_size (binit s) = log_size s" "outstanding (binit s) = outstanding s"
    "committing (binit s) = committing s" "log_dev (binit s) = log_dev s" "lh_n (binit s) = lh_n s"
    "lh_block (binit s) = lh_block s"
    by (simp_all add: binit_def Let_def initlock_def)
qed

lemma klog0_fields:
  "log_start klog0 = 2" "log_size klog0 = 30" "outstanding klog0 = 1" "\<not> committing klog0" "log_dev klog0 = 1"
  "lh_n klog0 = 0" "lh_block klog0 = replicate LOGSIZE 0" "memdisk klog0 = replicate 64 (replicate BSIZE 0)"
  "held klog0 = {}" "pinned klog0 = {}" "bio_ok klog0"
  by (simp_all add: klog0_def binit_klog kbio0_fresh kbio0_inv bio_okI [OF kbio0_inv(1)])
    (simp_all add: kbio0_def klog.defs)

lemma klog0_geom: "log_geom klog0" "open_log klog0 0" "log_area klog0 = {bn. 2 \<le> unat bn \<and> unat bn < 32}"
  by (simp_all add: log_geom_def open_log_def klog0_fields homes_ok_def log_area_def LOGSIZE_def MAXOPBLOCKS_def)

lemma get32_zeros: "off + 4 \<le> n \<Longrightarrow> get32 (replicate n 0) off = 0"
  by (simp add: get32_def un32_def)

text \<open>A transaction of one block: block 40 gets a new contents.\<close>

lemma klog_one:
  obtains s :: klog where "ready s 1" "outstanding s = 1" "\<not> committing s" "log_start s = 2" "log_size s = 30"
    "memdisk s = replicate 64 (replicate BSIZE 0)" "view s 40 = replicate BSIZE 9"
proof -
  obtain b s1 where 1: "bread 1 40 klog0 = Ret (b, s1)" "bio_ok s1" "holds s1 b 40" "view s1 = view klog0"
    "held s1 = {40}" "pinned s1 = {}" "memdisk s1 = memdisk klog0" "bio_frame klog0 s1"
    by (rule bread_step [of klog0 40]) (auto simp: klog0_fields NBUF_def MAXOPBLOCKS_def)
  let ?s2 = "set_bdata b (replicate BSIZE 9) s1"
  have S: "bio_ok ?s2" "\<And>b' n. holds ?s2 b' n = holds s1 b' n" "view ?s2 = (view s1)(40 := replicate BSIZE 9)"
    "held ?s2 = {40}" "pinned ?s2 = {}" "bio_frame s1 ?s2" "memdisk ?s2 = memdisk s1"
    using set_bdata_step [OF 1(2,3), of "replicate BSIZE 9"] 1(5,6) by simp_all
  have f: "bio_frame klog0 ?s2" by (rule bio_frame_trans [OF 1(8) S(6)])
  note F = log_frame [OF f]
  have o: "open_log ?s2 0"
    using S F 1 klog0_geom by (simp add: open_log_def log_geom_def homes_ok_def klog0_fields)
  have area: "40 \<notin> log_area ?s2" using F by (simp add: log_area_def klog0_fields)
  obtain t where t: "log_write b ?s2 = Ret t" "open_log t 1" "view t = view ?s2" "held t = held ?s2"
    "memdisk t = memdisk ?s2" "\<And>b' k. holds t b' k = holds ?s2 b' k" "outstanding t = outstanding ?s2"
    "committing t = committing ?s2" "log_size t = log_size ?s2" "log_start t = log_start ?s2"
    "home t ` {..<1} = {40}"
    by (rule log_write_ok [OF o, of b 40]) (use S(2) 1(3) F area in \<open>auto simp: klog0_fields\<close>)
  have T: "bio_ok t" "pinned t = {40}" using t(2,11) by (simp_all add: open_log_def)
  obtain u where u: "brelse b t = Ret u" "bio_ok u" "view u = view t" "held u = {}" "pinned u = pinned t"
    "memdisk u = memdisk t" "bio_frame t u"
    by (rule brelse_step [OF T(1), of b 40]) (use t S 1 T in auto)
  note G = log_frame [OF u(7)]
  have "homes_ok u [0..<1] = homes_ok t [0..<1]" "log_geom u = log_geom t"
    using log_geom_frame [OF u(7)] u(6) by simp_all
  then have "ready u 1" using t(2) u G by (simp add: ready_open open_log_def)
  then show thesis
    by (rule that) (use t F G u S 1 in \<open>simp_all add: klog0_fields\<close>)
qed

lemma reboot_example:
  assumes "length m = 64" "\<And>d. d \<in> set m \<Longrightarrow> length d = BSIZE"
  shows "rebooted (klog0\<lparr>memdisk := m\<rparr>)"
proof -
  let ?x = "klog.fields 2 30 1 False 1 0 (replicate LOGSIZE 0)"
  have nv: "\<not> is_valid (bufs klog0 ! i)" if "i < NBUF" for i
    using that kbio0_zero(2) [OF that, where v = 0 and x = ?x] core_eqD(6) [OF kbio0_binit(5) [where v = 0 and x = ?x]]
    by (simp add: klog0_def is_valid_def)
  obtain xs where i: "bio_inv klog0 xs" using klog0_fields(11) by (auto simp: bio_ok_def)
  have "buf_ok (klog0\<lparr>memdisk := m\<rparr>) i" if "i < NBUF" for i
    using bio_invD(6) [OF i that] nv [OF that] by (simp add: buf_ok_def Let_def)
  then have "bio_inv (klog0\<lparr>memdisk := m\<rparr>) xs" using bio_invD [OF i] assms(2) by (simp add: bio_inv_def uniq_def)
  moreover have "held (klog0\<lparr>memdisk := m\<rparr>) = held klog0" "pinned (klog0\<lparr>memdisk := m\<rparr>) = pinned klog0"
    by (simp_all add: held_def pinned_def has_buf_def)
  ultimately show ?thesis
    using assms(1) by (auto simp: rebooted_def bio_ok_def klog0_fields log_geom_def LOGSIZE_def MAXOPBLOCKS_def)
qed

text \<open>
  C1.  Commits are atomic under crashes.  \<^verbatim>\<open>commit\<close> of a transaction of \<open>n\<close> blocks returns; if the
  machine stops after any number \<open>k\<close> of the disk writes it makes, then \<^verbatim>\<open>recover_from_log\<close> on the
  disk that is left, with an empty cache, returns, empties the log, and every block outside of
  the log is what it was before the transaction if \<open>k \<le> n\<close> (the header had not been written) and
  what the transaction made it otherwise.
\<close>

theorem commit_crash_atomic:
  assumes "ready s n" "0 < n" "header (memdisk s ! unat (log_start s)) 0 f"
  shows "\<exists>t. commit s = Ret t \<and>
    (\<forall>k b. rebooted b \<and> same_log s b \<and>
       memdisk b = apply_writes (take k (drop (length (dwrites s)) (dwrites t))) (memdisk s) \<longrightarrow>
       (\<exists>u. recover_from_log b = Ret u \<and> lh_n u = 0 \<and>
          (if k \<le> n then old_data s (memdisk u) else new_data s (memdisk u))))"
proof -
  obtain t H1 H0 where t: "commit s = Ret t" "header H1 n (home s)" "header H0 0 (home s)"
    "dwrites t = dwrites s @ log_writes s [0..<n] @ [(unat (log_start s), H1)] @ home_writes s n @
       [(unat (log_start s), H0)]"
    by (rule commit_ok [OF assms(1,2)])
  show ?thesis
  proof (intro exI [of _ t] conjI allI impI t(1); elim conjE)
    fix k and b :: "'b klog_scheme"
    assume b: "rebooted b" "same_log s b"
      "memdisk b = apply_writes (take k (drop (length (dwrites s)) (dwrites t))) (memdisk s)"
    show "\<exists>u. recover_from_log b = Ret u \<and> lh_n u = 0 \<and>
        (if k \<le> n then old_data s (memdisk u) else new_data s (memdisk u))"
      by (rule crash_points [OF assms(1,3) t(2,3) b(1,2)]) (use b(3) in \<open>simp add: t(4)\<close>)
  qed
qed

theorem commit_crash_atomic_witness:
  "\<exists>(s :: klog) t (b :: klog) u. ready s 1 \<and> view s 40 = replicate BSIZE 9 \<and> memdisk s ! 40 = replicate BSIZE 0 \<and> commit s = Ret t \<and>
     memdisk b = apply_writes (take 4 (drop (length (dwrites s)) (dwrites t))) (memdisk s) \<and>
     recover_from_log b = Ret u \<and> memdisk u ! 40 = replicate BSIZE 9"
proof -
  obtain s :: klog where s: "ready s 1" "log_start s = 2" "log_size s = 30"
    "memdisk s = replicate 64 (replicate BSIZE 0)" "view s 40 = replicate BSIZE 9"
    by (rule klog_one)
  have h: "header (memdisk s ! unat (log_start s)) 0 (\<lambda>_. 0)"
    using s(2,4) by (simp add: header_def get32_zeros BSIZE_def)
  obtain t H1 H0 where t: "commit s = Ret t" "bio_ok t"
    "dwrites t = dwrites s @ log_writes s [0..<1] @ [(unat (log_start s), H1)] @ home_writes s 1 @
       [(unat (log_start s), H0)]"
    "memdisk t = apply_writes (log_writes s [0..<1] @ [(unat (log_start s), H1)] @ home_writes s 1 @
       [(unat (log_start s), H0)]) (memdisk s)"
    by (rule commit_ok [OF s(1)]) simp
  have w: "memdisk t = apply_writes (take 4 (drop (length (dwrites s)) (dwrites t))) (memdisk s)"
    by (simp add: t(3,4) log_writes_def home_writes_def)
  let ?b = "klog0\<lparr>memdisk := memdisk t\<rparr>"
  obtain xs where "bio_inv t xs" using t(2) by (auto simp: bio_ok_def)
  moreover have len: "length (memdisk t) = 64" by (simp add: t(4) s(4))
  ultimately have b: "rebooted ?b" by (intro reboot_example bio_invD(5))
  have same: "same_log s ?b" using s len by (simp add: same_log_def klog0_fields)
  from commit_crash_atomic [OF s(1) _ h] t(1) b same w
  obtain u where u: "recover_from_log ?b = Ret u" "new_data s (memdisk u)" by fastforce
  have "data_block s 40" using s by (simp add: data_block_def)
  with u(2) have "memdisk u ! 40 = view s 40" by (simp add: new_data_def)
  then show ?thesis using s t(1) w u(1)
    by - (rule exI [of _ s], rule exI [of _ t], rule exI [of _ ?b], rule exI [of _ u], simp)
qed

text \<open>
  C8.  The last \<^verbatim>\<open>end_op\<close> commits: it returns with the log empty on the disk and in memory, no
  buffer pinned, and every block outside of the log on the disk equal to what the system calls
  of the transaction made it.
\<close>

theorem end_op_durable:
  assumes "ready s n" "0 < n" "outstanding s = 1" "\<not> committing s"
  shows "\<exists>t. end_op s = Ret t \<and> bio_ok t \<and> held t = {} \<and> pinned t = {} \<and> lh_n t = 0 \<and> outstanding t = 0 \<and>
    \<not> committing t \<and> new_data s (memdisk t) \<and> get32 (memdisk t ! unat (log_start s)) 0 = 0"
proof -
  obtain t H where "end_op s = Ret t" "bio_ok t" "held t = {}" "pinned t = {}" "lh_n t = 0" "outstanding t = 0"
    "\<not> committing t" "new_data s (memdisk t)" "header (memdisk t ! unat (log_start s)) 0 H"
    by (rule end_op_commits [OF assms])
  then show ?thesis by (auto simp: header_def)
qed

theorem end_op_durable_witness:
  "\<exists>(s :: klog) t. ready s 1 \<and> view s 40 = replicate BSIZE 9 \<and> end_op s = Ret t \<and> memdisk t ! 40 = replicate BSIZE 9"
proof -
  obtain s :: klog where s: "ready s 1" "outstanding s = 1" "\<not> committing s" "log_start s = 2" "log_size s = 30"
    "memdisk s = replicate 64 (replicate BSIZE 0)" "view s 40 = replicate BSIZE 9"
    by (rule klog_one)
  from end_op_durable [OF s(1) _ s(2,3)] obtain t where t: "end_op s = Ret t" "new_data s (memdisk t)" by auto
  have "data_block s 40" using s by (simp add: data_block_def)
  with t(2) have "memdisk t ! 40 = view s 40" by (simp add: new_data_def)
  with s t(1) show ?thesis by auto
qed

text \<open>
  C9.  \<^verbatim>\<open>log_write\<close> of a held buffer inside a transaction with room in the log adds its block to the
  set of logged blocks and pins it, using no new slot if the block is logged already; it
  changes the contents of no block.  The log stays well formed: as many different blocks
  outside of the log's own area as \<^verbatim>\<open>lh.n\<close> says, and exactly these are pinned.
\<close>

theorem log_write_absorbs:
  assumes "open_log s n" "holds s b bn" "int n < log_size s - 1" "1 \<le> outstanding s" "bn \<notin> log_area s"
  shows "\<exists>t. log_write b s = Ret t \<and> open_log t (if bn \<in> home s ` {..<n} then n else n + 1) \<and>
    pinned t = insert bn (pinned s) \<and> view t = view s \<and> memdisk t = memdisk s \<and> held t = held s"
proof -
  obtain t m where t: "log_write b s = Ret t" "open_log t m" "home t ` {..<m} = insert bn (home s ` {..<n})"
    "m = (if bn \<in> home s ` {..<n} then n else Suc n)" "view t = view s" "held t = held s" "memdisk t = memdisk s"
    by (rule log_write_ok [OF assms])
  moreover have "pinned t = insert bn (pinned s)" using t(2,3) assms(1) by (simp add: open_log_def)
  ultimately show ?thesis by (auto split: if_splits)
qed

theorem log_write_absorbs_witness:
  "\<exists>b s t. bread 1 40 klog0 = Ret (b, s) \<and> log_write b s = Ret t \<and> open_log t 1 \<and> pinned t = {40}"
proof -
  obtain b s where 1: "bread 1 40 klog0 = Ret (b, s)" "bio_ok s" "holds s b 40"
    "pinned s = {}" "memdisk s = memdisk klog0" "bio_frame klog0 s"
    by (rule bread_step [of klog0 40]) (auto simp: klog0_fields NBUF_def MAXOPBLOCKS_def)
  note F = log_frame [OF 1(6)]
  have "open_log s 0"
    using 1 F klog0_geom by (simp add: open_log_def log_geom_def homes_ok_def klog0_fields)
  then show ?thesis
    using log_write_absorbs [of s 0 b 40] 1 F by (auto simp: klog0_fields log_area_def)
qed



end
