(* ===== verification/Pipe.thy ===== *)
theory Pipe
  imports Log
begin

text \<open>
  Pipes (\<^verbatim>\<open>pipe.c\<close>) and the table of open files they are reached through (\<^verbatim>\<open>struct file\<close> of
  \<^verbatim>\<open>file.h\<close>, \<^verbatim>\<open>filealloc\<close> and \<^verbatim>\<open>filedup\<close> of \<^verbatim>\<open>file.c\<close>).  The bytes in a pipe lie in a ring whose
  counters \<^verbatim>\<open>nread\<close> and \<^verbatim>\<open>nwrite\<close> are 32-bit words that wrap around.  The lemmas relate the ring
  to a queue of bytes, for every value of the counters.
\<close>

subsection \<open>State\<close>

definition PIPESIZE :: nat where "PIPESIZE = 512"

record pipe =
  pdata :: "uchar list"
  nread :: uint
  nwrite :: uint
  readopen :: bool
  writeopen :: bool

datatype ftype = FD_NONE | FD_PIPE | FD_INODE

record file_t =
  ftype :: ftype
  fref :: int
  readable :: bool
  writable :: bool
  fpipe :: nat
  fip :: nat
  foff :: uint

record kfile = klog +
  pipes :: "nat \<Rightarrow> pipe"
  ftable :: "file_t list"

abbreviation upd_pipe :: "nat \<Rightarrow> (pipe \<Rightarrow> pipe) \<Rightarrow> 'a kfile_scheme \<Rightarrow> 'a kfile_scheme" where
  "upd_pipe p f s \<equiv> s\<lparr>pipes := (pipes s)(p := f (pipes s p))\<rparr>"

abbreviation upd_file :: "nat \<Rightarrow> (file_t \<Rightarrow> file_t) \<Rightarrow> 'a kfile_scheme \<Rightarrow> 'a kfile_scheme" where
  "upd_file i f s \<equiv> s\<lparr>ftable := (ftable s)[i := f (ftable s ! i)]\<rparr>"

subsection \<open>The file table\<close>

definition fileinit :: "'a kfile_scheme \<Rightarrow> 'a kfile_scheme" where
  "fileinit s = initlock FtableLock ''ftable'' s"

definition filealloc :: "'a kfile_scheme \<Rightarrow> (nat option \<times> 'a kfile_scheme) result" where
  "filealloc s =
     rbind (acquire FtableLock s) (\<lambda>s.
     case find_idx (\<lambda>f. fref f = 0) (ftable s) of
       Some i \<Rightarrow> rbind (release FtableLock (upd_file i (\<lambda>f. f\<lparr>fref := 1\<rparr>) s)) (\<lambda>s. Ret (Some i, s))
     | None \<Rightarrow> rbind (release FtableLock s) (\<lambda>s. Ret (None, s)))"

definition filedup :: "nat \<Rightarrow> 'a kfile_scheme \<Rightarrow> (nat \<times> 'a kfile_scheme) result" where
  "filedup i s =
     rbind (acquire FtableLock s) (\<lambda>s.
     if fref (ftable s ! i) < 1 then Panic ''filedup''
     else rbind (release FtableLock (upd_file i (\<lambda>f. f\<lparr>fref := fref f + 1\<rparr>) s)) (\<lambda>s. Ret (i, s)))"

subsection \<open>Reading and writing\<close>

definition myproc_killed :: "'a kproc_scheme \<Rightarrow> (bool \<times> 'a kproc_scheme) result" where
  "myproc_killed s =
     rbind (myproc s) (\<lambda>(p, s). case p of None \<Rightarrow> Fault | Some p \<Rightarrow> Ret (killed (ptable s ! p), s))"

text \<open>
  What the two loops do between the moments they hold the lock: the writer runs until it is
  done, until the pipe is full and it sleeps, or until it gives up.  The bytes it has still to
  write are returned, since it resumes with them.
\<close>

datatype pw_end = PwDone | PwSleep | PwFail

definition put_byte :: "uchar \<Rightarrow> pipe \<Rightarrow> pipe" where
  "put_byte c p = p\<lparr>pdata := (pdata p)[unat (nwrite p) mod PIPESIZE := c], nwrite := nwrite p + 1\<rparr>"

fun pipewrite_loop :: "bool \<Rightarrow> uchar list \<Rightarrow> pipe \<Rightarrow> uchar list \<times> pipe \<times> pw_end" where
  "pipewrite_loop kil [] p = ([], p, PwDone)"
| "pipewrite_loop kil (c # cs) p =
     (if nwrite p = nread p + of_nat PIPESIZE
      then (c # cs, p, if \<not> readopen p \<or> kil then PwFail else PwSleep)
      else pipewrite_loop kil cs (put_byte c p))"

definition pipewrite :: "nat \<Rightarrow> uchar list \<Rightarrow> 'a kfile_scheme \<Rightarrow> (int \<times> 'a kfile_scheme) result" where
  "pipewrite p bytes s =
     rbind (acquire (PipeLk p) s) (\<lambda>s.
     rbind (myproc_killed s) (\<lambda>(k, s).
     case pipewrite_loop k bytes (pipes s p) of (rest, q, e) \<Rightarrow>
       let s = upd_pipe p (\<lambda>_. q) s
       in case e of
            PwSleep \<Rightarrow> Wait (Sleeps (ChPipeWrite p))
          | PwFail \<Rightarrow> rbind (release (PipeLk p) s) (\<lambda>s. Ret (- 1, s))
          | PwDone \<Rightarrow> rbind (wakeup (ChPipeRead p) s) (\<lambda>s.
                       rbind (release (PipeLk p) s) (\<lambda>s. Ret (int (length bytes), s)))))"

definition get_byte :: "pipe \<Rightarrow> uchar \<times> pipe" where
  "get_byte p = (pdata p ! (unat (nread p) mod PIPESIZE), p\<lparr>nread := nread p + 1\<rparr>)"

fun piperead_loop :: "nat \<Rightarrow> pipe \<Rightarrow> uchar list \<times> pipe" where
  "piperead_loop 0 p = ([], p)"
| "piperead_loop (Suc n) p =
     (if nread p = nwrite p then ([], p)
      else case get_byte p of (c, p) \<Rightarrow>
        case piperead_loop n p of (cs, q) \<Rightarrow> (c # cs, q))"

text \<open>The result of \<^verbatim>\<open>piperead\<close>: \<open>None\<close> is the return of -1, else the bytes stored at \<^verbatim>\<open>addr\<close>.\<close>

definition piperead :: "nat \<Rightarrow> nat \<Rightarrow> 'a kfile_scheme \<Rightarrow> (uchar list option \<times> 'a kfile_scheme) result" where
  "piperead p n s =
     rbind (acquire (PipeLk p) s) (\<lambda>s.
     if nread (pipes s p) = nwrite (pipes s p) \<and> writeopen (pipes s p)
     then rbind (myproc_killed s) (\<lambda>(k, s).
          if k then rbind (release (PipeLk p) s) (\<lambda>s. Ret (None, s))
          else Wait (Sleeps (ChPipeRead p)))
     else case piperead_loop n (pipes s p) of (cs, q) \<Rightarrow>
       rbind (wakeup (ChPipeWrite p) (upd_pipe p (\<lambda>_. q) s)) (\<lambda>s.
       rbind (release (PipeLk p) s) (\<lambda>s. Ret (Some cs, s))))"

definition pipeclose :: "nat \<Rightarrow> bool \<Rightarrow> 'a kfile_scheme \<Rightarrow> 'a kfile_scheme result" where
  "pipeclose p wr s =
     rbind (acquire (PipeLk p) s) (\<lambda>s.
     rbind (if wr then wakeup (ChPipeRead p) (upd_pipe p (\<lambda>q. q\<lparr>writeopen := False\<rparr>) s)
            else wakeup (ChPipeWrite p) (upd_pipe p (\<lambda>q. q\<lparr>readopen := False\<rparr>) s)) (\<lambda>s.
     if \<not> readopen (pipes s p) \<and> \<not> writeopen (pipes s p)
     then rbind (release (PipeLk p) s) (kfree (of_nat p))
     else release (PipeLk p) s))"

text \<open>The part of \<^verbatim>\<open>pipealloc\<close> after its two files and its page have been found.\<close>

definition pipe_setup :: "nat \<Rightarrow> nat \<Rightarrow> nat \<Rightarrow> 'a kfile_scheme \<Rightarrow> 'a kfile_scheme" where
  "pipe_setup p f0 f1 s =
     (let s = upd_pipe p (\<lambda>q. q\<lparr>readopen := True, writeopen := True, nwrite := 0, nread := 0\<rparr>) s;
          s = initlock (PipeLk p) ''pipe'' s;
          s = upd_file f0 (\<lambda>f. f\<lparr>ftype := FD_PIPE, readable := True, writable := False, fpipe := p\<rparr>) s
      in upd_file f1 (\<lambda>f. f\<lparr>ftype := FD_PIPE, readable := False, writable := True, fpipe := p\<rparr>) s)"

subsection \<open>The ring as a queue\<close>

definition pipe_len :: "pipe \<Rightarrow> nat" where
  "pipe_len p = unat (nwrite p - nread p)"

definition pipe_inv :: "pipe \<Rightarrow> bool" where
  "pipe_inv p \<longleftrightarrow> length (pdata p) = PIPESIZE \<and> pipe_len p \<le> PIPESIZE"

definition pq :: "pipe \<Rightarrow> uchar list" where
  "pq p = map (\<lambda>k. pdata p ! (unat (nread p + of_nat k) mod PIPESIZE)) [0..<pipe_len p]"

lemma length_pq [simp]: "length (pq p) = pipe_len p"
  by (simp add: pq_def)

lemma pq_Nil_iff: "pq p = [] \<longleftrightarrow> pipe_len p = 0"
  by (simp add: pq_def)

lemma pipe_full_iff: "nwrite p = nread p + of_nat PIPESIZE \<longleftrightarrow> pipe_len p = PIPESIZE"
proof -
  have "nwrite p = nread p + of_nat PIPESIZE \<longleftrightarrow> nwrite p - nread p = of_nat PIPESIZE"
    by (auto simp: algebra_simps)
  then show ?thesis by (simp add: pipe_len_def word_unat_eq_iff PIPESIZE_def)
qed

lemma pipe_empty_iff: "nread p = nwrite p \<longleftrightarrow> pipe_len p = 0"
  by (auto simp: pipe_len_def unat_eq_0)

lemma unat_mod_512: "unat (a + b :: uint) mod 512 = (unat a + unat b) mod 512"
  by (simp add: unat_word_ariths mod_mod_cancel)

lemma unat_of_nat_32: "n < 2 ^ 32 \<Longrightarrow> unat (of_nat n :: uint) = n"
  by (simp add: unat_of_nat)

lemma ring_slot: "unat (nread p + of_nat k) mod PIPESIZE = (unat (nread p) + k) mod PIPESIZE"
proof -
  have "k mod 2 ^ 32 mod 512 = k mod 512" by (simp add: mod_mod_cancel)
  then have "(unat (nread p) + k mod 2 ^ 32) mod 512 = (unat (nread p) + k) mod 512" by (metis mod_add_right_eq)
  then show ?thesis by (simp add: unat_mod_512 PIPESIZE_def unat_of_nat)
qed

lemma mod_diff_less:
  fixes m :: nat
  assumes eq: "(a + j) mod m = (a + k) mod m" and less: "j < k" "k < j + m"
  shows False
proof -
  have "(a + k) mod m = (a + j) mod m \<longleftrightarrow> m dvd (a + k) - (a + j)"
    using less(1) by (intro mod_eq_dvd_iff_nat) simp
  then have "m dvd k - j" using eq by simp
  moreover have "0 < k - j" "k - j < m" using less by linarith+
  ultimately show False using nat_dvd_not_less by blast
qed

lemma put_byte_queue:
  assumes inv: "pipe_inv p" and free: "pipe_len p \<noteq> PIPESIZE"
  shows "pq (put_byte c p) = pq p @ [c]" "pipe_inv (put_byte c p)"
proof -
  have len: "pipe_len p < PIPESIZE" "length (pdata p) = PIPESIZE" using inv free by (auto simp: pipe_inv_def)
  have w: "nwrite p = nread p + of_nat (pipe_len p)" by (simp add: pipe_len_def)
  have "nwrite p + 1 - nread p = of_nat (Suc (pipe_len p))" by (simp add: w)
  moreover have "unat (of_nat (Suc (pipe_len p)) :: uint) = Suc (pipe_len p)"
    by (rule unat_of_nat_32) (use len(1) in \<open>simp add: PIPESIZE_def\<close>)
  moreover have "pipe_len (put_byte c p) = unat (nwrite p + 1 - nread p)"
    by (simp add: pipe_len_def put_byte_def)
  ultimately have l: "pipe_len (put_byte c p) = Suc (pipe_len p)" by presburger
  let ?i = "unat (nwrite p) mod PIPESIZE"
  have i: "?i = (unat (nread p) + pipe_len p) mod PIPESIZE" unfolding w by (rule ring_slot)
  have "pdata (put_byte c p) ! ((unat (nread p) + k) mod PIPESIZE) =
      (if k = pipe_len p then c else pdata p ! ((unat (nread p) + k) mod PIPESIZE))" if "k \<le> pipe_len p" for k
  proof (cases "k = pipe_len p")
    case True
    then show ?thesis using len(2) i by (simp add: put_byte_def PIPESIZE_def)
  next
    case False
    then have "(unat (nread p) + k) mod PIPESIZE \<noteq> ?i"
      using that len(1) mod_diff_less [of "unat (nread p)" k PIPESIZE "pipe_len p"] by (auto simp: i)
    then show ?thesis using False by (simp add: put_byte_def)
  qed
  moreover have "nread (put_byte c p) = nread p" by (simp add: put_byte_def)
  ultimately show "pq (put_byte c p) = pq p @ [c]"
    by (simp add: pq_def l ring_slot)
  show "pipe_inv (put_byte c p)" using l len by (simp add: pipe_inv_def) (simp add: put_byte_def)
qed

lemma get_byte_queue:
  assumes inv: "pipe_inv p" and ne: "pq p \<noteq> []"
  shows "fst (get_byte p) = hd (pq p)" "pq (snd (get_byte p)) = tl (pq p)" "pipe_inv (snd (get_byte p))"
proof -
  have pos: "0 < pipe_len p" using ne length_pq [of p] by (cases "pq p") auto
  let ?q = "snd (get_byte p)"
  have q: "nread ?q = nread p + 1" "pdata ?q = pdata p" "nwrite ?q = nwrite p" by (simp_all add: get_byte_def)
  have "nwrite p - nread p \<noteq> 0" using pos unat_gt_0 by (fastforce simp: pipe_len_def)
  moreover have "nwrite ?q - nread ?q = nwrite p - nread p - 1" unfolding q by simp
  ultimately have l: "pipe_len ?q = pipe_len p - 1"
    unfolding pipe_len_def using unat_minus_one_32 [of "nwrite p - nread p"] by metis
  have "[0..<pipe_len p] = 0 # map Suc [0..<pipe_len p - 1]"
    using pos by (simp add: map_Suc_upt upt_conv_Cons)
  then have "pq p = pdata p ! (unat (nread p) mod PIPESIZE) #
      map (\<lambda>k. pdata p ! ((unat (nread p) + Suc k) mod PIPESIZE)) [0..<pipe_len p - 1]"
    by (simp add: pq_def ring_slot)
  moreover have "pq ?q = map (\<lambda>k. pdata p ! ((unat (nread p) + Suc k) mod PIPESIZE)) [0..<pipe_len p - 1]"
  proof -
    have "unat (nread ?q + of_nat k) mod PIPESIZE = (unat (nread p) + Suc k) mod PIPESIZE" for k
    proof -
      have "nread ?q + of_nat k = nread p + of_nat (Suc k)" by (simp add: q)
      then show ?thesis by (simp only: ring_slot)
    qed
    then show ?thesis by (simp add: pq_def l q(2))
  qed
  ultimately show "fst (get_byte p) = hd (pq p)" "pq ?q = tl (pq p)" by (simp_all add: get_byte_def)
  show "pipe_inv ?q" using inv l q by (auto simp: pipe_inv_def)
qed

interpretation pipe: bounded_queue pq pipe_inv PIPESIZE put_byte get_byte
proof
  show "pipe_inv q \<Longrightarrow> length (pq q) \<le> PIPESIZE" for q by (simp add: pipe_inv_def)
  show "pipe_inv q \<Longrightarrow> length (pq q) < PIPESIZE \<Longrightarrow> pq (put_byte x q) = pq q @ [x] \<and> pipe_inv (put_byte x q)" for q x
    using put_byte_queue [of q x] by simp
  show "pipe_inv q \<Longrightarrow> pq q \<noteq> [] \<Longrightarrow>
      fst (get_byte q) = hd (pq q) \<and> pq (snd (get_byte q)) = tl (pq q) \<and> pipe_inv (snd (get_byte q))" for q
    using get_byte_queue [of q] by simp
qed

lemma piperead_loop_deqs: "piperead_loop n p = pipe.deqs n p"
proof (induction n arbitrary: p)
  case (Suc n)
  have "nread p = nwrite p \<longleftrightarrow> pq p = []" by (simp add: pipe_empty_iff pq_Nil_iff)
  then show ?case by (simp add: Suc.IH split: prod.split)
qed simp

lemma piperead_loop_ok:
  assumes "pipe_inv p" "piperead_loop n p = (cs, q)"
  shows "cs = take n (pq p)" "pq q = drop n (pq p)" "pipe_inv q"
  using pipe.deqs_elems [OF assms(1), of n] assms(2) by (simp_all add: piperead_loop_deqs)

lemma pipewrite_loop_ok:
  assumes "pipe_inv p" "pipewrite_loop kil cs p = (rest, q, e)"
  shows "pq p @ cs = pq q @ rest" "pipe_inv q" "rest = [] \<longleftrightarrow> e = PwDone"
    "rest \<noteq> [] \<Longrightarrow> length (pq q) = PIPESIZE" "e = PwSleep \<Longrightarrow> readopen p \<and> \<not> kil"
    "readopen q = readopen p" "writeopen q = writeopen p"
proof -
  have "pq p @ cs = pq q @ rest \<and> pipe_inv q \<and> (rest = [] \<longleftrightarrow> e = PwDone) \<and>
      (rest \<noteq> [] \<longrightarrow> length (pq q) = PIPESIZE) \<and> (e = PwSleep \<longrightarrow> readopen p \<and> \<not> kil) \<and>
      readopen q = readopen p \<and> writeopen q = writeopen p"
    using assms
  proof (induction kil cs p arbitrary: rest q e rule: pipewrite_loop.induct)
    case (2 kil c cs p)
    show ?case
    proof (cases "nwrite p = nread p + of_nat PIPESIZE")
      case True
      then show ?thesis using 2(2,3) pipe_full_iff [of p] by (auto split: if_splits)
    next
      case False
      then have f: "pipe_len p \<noteq> PIPESIZE" by (simp add: pipe_full_iff)
      note B = put_byte_queue [OF 2(2) f, of c]
      have o: "readopen (put_byte c p) = readopen p" "writeopen (put_byte c p) = writeopen p"
        by (simp_all add: put_byte_def)
      have "pipewrite_loop kil cs (put_byte c p) = (rest, q, e)" using 2(3) False by simp
      from 2(1) [OF False B(2) this] show ?thesis unfolding B(1) o by simp
    qed
  qed simp
  then show "pq p @ cs = pq q @ rest" "pipe_inv q" "rest = [] \<longleftrightarrow> e = PwDone"
    "rest \<noteq> [] \<Longrightarrow> length (pq q) = PIPESIZE" "e = PwSleep \<Longrightarrow> readopen p \<and> \<not> kil"
    "readopen q = readopen p" "writeopen q = writeopen p" by blast+
qed

subsection \<open>The calls\<close>

lemma acq_kfile [simp]: "pipes (acq l s) = pipes s" "ftable (acq l s) = ftable s"
  by (simp_all add: acq_def Let_def)

lemma same_cpu_kfile [simp]:
  "same_cpu (s\<lparr>pipes := x\<rparr>) t = same_cpu s t" "same_cpu (s\<lparr>ftable := y\<rparr>) t = same_cpu s t"
  by (simp_all add: same_cpu_def)

lemma unacq_kfile [simp]:
  "unacq s (t\<lparr>pipes := x\<rparr>) = (unacq s t)\<lparr>pipes := x\<rparr>" "unacq s (t\<lparr>ftable := y\<rparr>) = (unacq s t)\<lparr>ftable := y\<rparr>"
  by (simp_all add: unacq_def)

lemma quiet_kfile [simp]: "quiet (s\<lparr>pipes := x\<rparr>) = quiet s" "quiet (s\<lparr>ftable := y\<rparr>) = quiet s"
  by (rule quiet_same; simp)+

lemma wakeup1_kfile [simp]: "pipes (wakeup1 ch s) = pipes s" "ftable (wakeup1 ch s) = ftable s"
  by (simp_all add: wakeup1_def)

lemma unacq_wakeup1 [simp]: "unacq s (wakeup1 ch t) = wakeup1 ch (unacq s t)"
  by (simp add: wakeup1_def unacq_def)

lemma myproc_killed_acq:
  assumes "quiet s"
  shows "myproc_killed (acq l s) = Ret (killed (ptable s ! the (cur s)), acq l s)"
proof -
  obtain p where "cpu_ok s" "cur s = Some p" using assms by (auto elim: quietE)
  then show ?thesis using myproc_Ret [OF cpu_ok_acq [OF \<open>cpu_ok s\<close>], of l] by (simp add: myproc_killed_def)
qed

lemma pipewrite_eq:
  assumes q: "quiet s"
  shows "pipewrite p bytes s =
    (case pipewrite_loop (killed (ptable s ! the (cur s))) bytes (pipes s p) of
       (rest, x, PwSleep) \<Rightarrow> Wait (Sleeps (ChPipeWrite p))
     | (rest, x, PwFail) \<Rightarrow> Ret (- 1, s\<lparr>pipes := (pipes s)(p := x)\<rparr>)
     | (rest, x, PwDone) \<Rightarrow> Ret (int (length bytes), wakeup1 (ChPipeRead p) (s\<lparr>pipes := (pipes s)(p := x)\<rparr>)))"
proof -
  have k: "cpu_ok s" "lock_free (PipeLk p) s" using quiet_locks [OF q] by auto
  have r: "release (PipeLk p) ((acq (PipeLk p) s)\<lparr>pipes := y\<rparr>) = Ret (s\<lparr>pipes := y\<rparr>)" for y
    using release_acq [OF k, of "(acq (PipeLk p) s)\<lparr>pipes := y\<rparr>"] by simp
  have w: "wakeup ch ((acq (PipeLk p) s)\<lparr>pipes := y\<rparr>) = Ret (wakeup1 ch ((acq (PipeLk p) s)\<lparr>pipes := y\<rparr>))"
    "release (PipeLk p) (wakeup1 ch ((acq (PipeLk p) s)\<lparr>pipes := y\<rparr>)) = Ret (wakeup1 ch (s\<lparr>pipes := y\<rparr>))" for ch y
    using wakeup_section [OF q, of "(acq (PipeLk p) s)\<lparr>pipes := y\<rparr>" "PipeLk p" ch] k(1) by simp_all
  show ?thesis
    using acquire_free [OF k] myproc_killed_acq [OF q]
    by (simp add: pipewrite_def r w Let_def split: prod.split pw_end.split)
qed

lemma piperead_eq:
  assumes q: "quiet s"
  shows "piperead p n s =
    (if nread (pipes s p) = nwrite (pipes s p) \<and> writeopen (pipes s p)
     then if killed (ptable s ! the (cur s)) then Ret (None, s) else Wait (Sleeps (ChPipeRead p))
     else case piperead_loop n (pipes s p) of (cs, x) \<Rightarrow>
       Ret (Some cs, wakeup1 (ChPipeWrite p) (s\<lparr>pipes := (pipes s)(p := x)\<rparr>)))"
proof -
  have k: "cpu_ok s" "lock_free (PipeLk p) s" using quiet_locks [OF q] by auto
  have r: "release (PipeLk p) (acq (PipeLk p) s) = Ret s"
    using release_acq [OF k, of "acq (PipeLk p) s"] by simp
  have w: "wakeup ch ((acq (PipeLk p) s)\<lparr>pipes := y\<rparr>) = Ret (wakeup1 ch ((acq (PipeLk p) s)\<lparr>pipes := y\<rparr>))"
    "release (PipeLk p) (wakeup1 ch ((acq (PipeLk p) s)\<lparr>pipes := y\<rparr>)) = Ret (wakeup1 ch (s\<lparr>pipes := y\<rparr>))" for ch y
    using wakeup_section [OF q, of "(acq (PipeLk p) s)\<lparr>pipes := y\<rparr>" "PipeLk p" ch] k(1) by simp_all
  show ?thesis
    using acquire_free [OF k] myproc_killed_acq [OF q]
    by (simp add: piperead_def r w Let_def split: prod.split)
qed

subsection \<open>A writer and a reader\<close>

text \<open>
  One process writing a sequence of bytes and one reading, each holding the pipe's lock while
  it runs and giving it up when it sleeps, so that one step is what a process does between two
  moments at which the other can run.
\<close>

record pipe_sys =
  w_rest :: "uchar list"
  w_asleep :: bool
  the_pipe :: pipe
  r_asleep :: bool
  r_got :: "uchar list"

inductive pipe_step :: "pipe_sys \<Rightarrow> pipe_sys \<Rightarrow> bool" where
  writer_done: "\<not> w_asleep m \<Longrightarrow> pipewrite_loop False (w_rest m) (the_pipe m) = (rest, q, PwDone) \<Longrightarrow>
    pipe_step m (m\<lparr>w_rest := rest, the_pipe := q, r_asleep := False\<rparr>)"
| writer_sleeps: "\<not> w_asleep m \<Longrightarrow> pipewrite_loop False (w_rest m) (the_pipe m) = (rest, q, PwSleep) \<Longrightarrow>
    pipe_step m (m\<lparr>w_rest := rest, the_pipe := q, r_asleep := False, w_asleep := True\<rparr>)"
| reader_sleeps: "\<not> r_asleep m \<Longrightarrow> nread (the_pipe m) = nwrite (the_pipe m) \<Longrightarrow> writeopen (the_pipe m) \<Longrightarrow>
    pipe_step m (m\<lparr>r_asleep := True\<rparr>)"
| reader_reads: "\<not> r_asleep m \<Longrightarrow> \<not> (nread (the_pipe m) = nwrite (the_pipe m) \<and> writeopen (the_pipe m)) \<Longrightarrow>
    piperead_loop n (the_pipe m) = (cs, q) \<Longrightarrow>
    pipe_step m (m\<lparr>the_pipe := q, w_asleep := False, r_got := r_got m @ cs\<rparr>)"

definition pipe_sys_init :: "uchar list \<Rightarrow> pipe_sys \<Rightarrow> bool" where
  "pipe_sys_init bytes m \<longleftrightarrow> w_rest m = bytes \<and> \<not> w_asleep m \<and> \<not> r_asleep m \<and> r_got m = [] \<and>
     pipe_inv (the_pipe m) \<and> pq (the_pipe m) = []"

definition pipe_sys_inv :: "uchar list \<Rightarrow> pipe_sys \<Rightarrow> bool" where
  "pipe_sys_inv bytes m \<longleftrightarrow> pipe_inv (the_pipe m) \<and> r_got m @ pq (the_pipe m) @ w_rest m = bytes \<and>
     (w_asleep m \<longrightarrow> length (pq (the_pipe m)) = PIPESIZE \<and> w_rest m \<noteq> []) \<and>
     (r_asleep m \<longrightarrow> pq (the_pipe m) = [])"

lemma pipe_step_inv:
  assumes "pipe_step m m'" "pipe_sys_inv bytes m"
  shows "pipe_sys_inv bytes m'"
  using assms
proof (induction rule: pipe_step.induct)
  case (writer_done m rest q)
  note W = pipewrite_loop_ok [OF _ writer_done(2)]
  then show ?case using writer_done by (simp add: pipe_sys_inv_def)
next
  case (writer_sleeps m rest q)
  note W = pipewrite_loop_ok [OF _ writer_sleeps(2)]
  then show ?case using writer_sleeps by (simp add: pipe_sys_inv_def)
next
  case (reader_sleeps m)
  moreover have "pq (the_pipe m) = []"
    using reader_sleeps(2) by (simp add: pipe_empty_iff pq_Nil_iff)
  moreover have "PIPESIZE \<noteq> 0" by (simp add: PIPESIZE_def)
  ultimately show ?case by (auto simp: pipe_sys_inv_def)
next
  case (reader_reads m n cs q)
  then have R: "cs = take n (pq (the_pipe m))" "pq q = drop n (pq (the_pipe m))" "pipe_inv q"
    using piperead_loop_ok by (auto simp: pipe_sys_inv_def)
  then have "cs @ pq q = pq (the_pipe m)" by simp
  then have "(r_got m @ cs) @ pq q @ w_rest m = r_got m @ pq (the_pipe m) @ w_rest m" by (metis append.assoc)
  with R(3) reader_reads show ?case by (simp add: pipe_sys_inv_def)
qed

interpretation pipe_sys: invariant_system "pipe_sys_init bytes" pipe_step "pipe_sys_inv bytes" for bytes
proof
  show "pipe_sys_inv bytes s" if "pipe_sys_init bytes s" for s
    using that by (simp add: pipe_sys_init_def pipe_sys_inv_def)
qed (rule pipe_step_inv)

subsection \<open>Properties\<close>


definition pipe0 :: pipe where
  "pipe0 = \<lparr>pdata = replicate PIPESIZE 0, nread = 0xFFFFFFFF, nwrite = 0xFFFFFFFF, readopen = True, writeopen = True\<rparr>"

lemma pipe0_inv: "pipe_inv pipe0" "pq pipe0 = []"
  by (simp_all add: pipe_inv_def pipe0_def pipe_len_def pq_def)


text \<open>
  C11.  What is written to an empty pipe can be read from it: \<^verbatim>\<open>pipewrite\<close> of at most \<^verbatim>\<open>PIPESIZE\<close> bytes
  returns their number without sleeping, and \<^verbatim>\<open>piperead\<close> of \<open>n\<close> bytes then returns the first \<open>n\<close>
  and leaves the others in the pipe, also when the 32-bit counters wrap around in between.
\<close>

theorem pipe_write_read:
  assumes "quiet s" "pipe_inv (pipes s p)" "pq (pipes s p) = []" "length bytes \<le> PIPESIZE" "bytes \<noteq> []"
  shows "\<exists>t u. pipewrite p bytes s = Ret (int (length bytes), t) \<and> pq (pipes t p) = bytes \<and>
    piperead p n t = Ret (Some (take n bytes), u) \<and> pq (pipes u p) = drop n bytes"
proof -
  let ?k = "killed (ptable s ! the (cur s))"
  obtain rest x e where w: "pipewrite_loop ?k bytes (pipes s p) = (rest, x, e)" by (cases "pipewrite_loop ?k bytes (pipes s p)")
  note W = pipewrite_loop_ok [OF assms(2) w]
  have "rest = []"
  proof (rule ccontr)
    assume "rest \<noteq> []"
    then have "length (pq x) = PIPESIZE" "0 < length rest" using W(4) by simp_all
    moreover have "length (pq p @ bytes) = length (pq x @ rest)" if "pq p = []" for p using W(1) assms(3) that by simp
    ultimately show False using assms(3,4) W(1) by (metis add.right_neutral append_Nil leD length_append less_add_same_cancel1)
  qed
  then have e: "e = PwDone" "pq x = bytes" using W(1,3) assms(3) by simp_all
  let ?t = "wakeup1 (ChPipeRead p) (s\<lparr>pipes := (pipes s)(p := x)\<rparr>)"
  have pw: "pipewrite p bytes s = Ret (int (length bytes), ?t)" using pipewrite_eq [OF assms(1)] w e(1) by simp
  obtain cs y where r: "piperead_loop n x = (cs, y)" by (cases "piperead_loop n x")
  note R = piperead_loop_ok [OF W(2) r]
  have "nread x \<noteq> nwrite x" using e(2) assms(5) by (simp add: pipe_empty_iff flip: pq_Nil_iff)
  then have "piperead p n ?t = Ret (Some cs, wakeup1 (ChPipeWrite p) (?t\<lparr>pipes := (pipes ?t)(p := y)\<rparr>))"
    using piperead_eq [of ?t p n] assms(1) r by simp
  then show ?thesis using pw R e(2) by simp
qed

definition kfile0 :: kfile where
  "kfile0 = \<lparr>cpus = [\<lparr>apicid = 0, ncli = 0, intena = True, cpu_proc = Some 0\<rparr>], lapicid = 0, eflags_IF = True,
     spin = (\<lambda>_. \<lparr>locked = 0, lkname = [], lkcpu = None\<rparr>),
     ptable = [proc0\<lparr>pstate := RUNNING, pid := 1\<rparr>], initproc = Some 0, nextpid = 2,
     sleepl = (\<lambda>_. \<lparr>sl_locked = 0, sl_name = [], sl_pid = 0\<rparr>),
     mem = (\<lambda>_. 0), use_lock = True, freelist = 0, kend = 0x80110000,
     bufs = [], memdisk = [], dwrites = [], log_start = 2, log_size = 30, outstanding = 0, committing = False,
     log_dev = 1, lh_n = 0, lh_block = replicate LOGSIZE 0, pipes = (\<lambda>_. pipe0), ftable = []\<rparr>"

lemma kfile0_quiet: "quiet kfile0"
  by (simp add: quiet_def kfile0_def cpu_ok_def nest_ok_def this_cpu_def lock_free_def cur_def)

theorem pipe_write_read_witness:
  "\<exists>t u. pipewrite 9 [7, 8, 9] kfile0 = Ret (3, t) \<and> piperead 9 2 t = Ret (Some [7, 8], u) \<and> pq (pipes u 9) = [9]"
proof -
  have "pipes kfile0 = (\<lambda>_. pipe0)" by (simp add: kfile0_def)
  then show ?thesis
    using pipe_write_read [OF kfile0_quiet, of 9 "[7, 8, 9]" 2] by (simp add: pipe0_inv PIPESIZE_def) blast
qed

end
