(* ===== verification/Txn.thy ===== *)
theory Txn
  imports Pipe
begin

text \<open>
  What the file system sees of the buffer cache and the log inside a transaction: a store of
  blocks that are read, changed through the log, and released.  The interface \<open>block_store\<close>
  states it once, with the two access patterns that the file system uses, and is interpreted
  on \<^verbatim>\<open>bread\<close>, \<^verbatim>\<open>log_write\<close> and \<^verbatim>\<open>brelse\<close>.
\<close>

subsection \<open>The interface\<close>

text \<open>
  \<open>ok s L H\<close>: in a transaction that has logged the blocks \<open>L\<close>, holding the blocks \<open>H\<close>.
\<close>

locale block_store =
  fixes rd :: "uint \<Rightarrow> 's \<Rightarrow> (nat \<times> 's) result"
    and wr :: "nat \<Rightarrow> block \<Rightarrow> 's \<Rightarrow> 's result"
    and rel :: "nat \<Rightarrow> 's \<Rightarrow> 's result"
    and dat :: "'s \<Rightarrow> nat \<Rightarrow> block"
    and ok :: "'s \<Rightarrow> uint set \<Rightarrow> uint set \<Rightarrow> bool"
    and cont :: "'s \<Rightarrow> uint \<Rightarrow> block"
    and own :: "'s \<Rightarrow> nat \<Rightarrow> uint \<Rightarrow> bool"
    and blk :: "'s \<Rightarrow> uint \<Rightarrow> bool"
    and wrable :: "'s \<Rightarrow> uint \<Rightarrow> bool"
    and cap :: "'s \<Rightarrow> nat"
    and frame :: "'s \<Rightarrow> 's \<Rightarrow> bool"
  assumes rd_ok: "ok s L H \<Longrightarrow> blk s bn \<Longrightarrow> bn \<notin> H \<Longrightarrow> card (H \<union> L) < NBUF \<Longrightarrow>
      \<exists>b t. rd bn s = Ret (b, t) \<and> ok t L (insert bn H) \<and> cont t = cont s \<and> own t b bn \<and>
        dat t b = cont s bn \<and> frame s t \<and> (\<forall>b' n. own s b' n \<longrightarrow> own t b' n)"
    and wr_ok: "ok s L H \<Longrightarrow> own s b bn \<Longrightarrow> length d = BSIZE \<Longrightarrow> wrable s bn \<Longrightarrow> card L < cap s \<Longrightarrow>
      \<exists>t. wr b d s = Ret t \<and> ok t (insert bn L) H \<and> cont t = (cont s)(bn := d) \<and>
        (\<forall>b' n. own t b' n = own s b' n) \<and> frame s t"
    and rel_ok: "ok s L H \<Longrightarrow> own s b bn \<Longrightarrow>
      \<exists>t. rel b s = Ret t \<and> ok t L (H - {bn}) \<and> cont t = cont s \<and> frame s t \<and>
        (\<forall>b' n. n \<noteq> bn \<longrightarrow> own s b' n \<longrightarrow> own t b' n)"
    and own_dat: "ok s L H \<Longrightarrow> own s b bn \<Longrightarrow> dat s b = cont s bn \<and> bn \<in> H"
    and cont_len: "ok s L H \<Longrightarrow> blk s bn \<Longrightarrow> length (cont s bn) = BSIZE"
    and frame_trans: "frame s t \<Longrightarrow> frame t u \<Longrightarrow> frame s u"
    and frame_same: "frame s t \<Longrightarrow> blk t = blk s \<and> wrable t = wrable s \<and> cap t = cap s"
begin

lemma peek:
  assumes "ok s L H" "blk s bn" "bn \<notin> H" "card (H \<union> L) < NBUF"
  obtains b u t where "rd bn s = Ret (b, u)" "dat u b = cont s bn" "rel b u = Ret t" "frame s u" "ok t L H" "cont t = cont s" "frame s t" "\<And>b' n. own s b' n \<Longrightarrow> own t b' n"
proof -
  obtain b u where u: "rd bn s = Ret (b, u)" "ok u L (insert bn H)" "cont u = cont s" "own u b bn"
    "dat u b = cont s bn" "frame s u" "\<forall>b' n. own s b' n \<longrightarrow> own u b' n"
    using rd_ok [OF assms] by blast
  obtain t where t: "rel b u = Ret t" "ok t L (insert bn H - {bn})" "cont t = cont u" "frame u t"
    "\<forall>b' n. n \<noteq> bn \<longrightarrow> own u b' n \<longrightarrow> own t b' n"
    using rel_ok [OF u(2,4)] by blast
  have "insert bn H - {bn} = H" using assms(3) by blast
  moreover have "own t b' n" if "own s b' n" for b' n
    using that u(7) t(5) own_dat [OF assms(1) that] assms(3) by metis
  ultimately show thesis
    using that [of b u t] u t frame_trans [OF u(6) t(4)] by simp
qed

lemma poke:
  assumes "ok s L H" "blk s bn" "bn \<notin> H" "card (H \<union> L) < NBUF" "wrable s bn" "card L < cap s"
    "length (f (cont s bn)) = BSIZE"
  obtains t where "rbind (rd bn s) (\<lambda>(b, s). rbind (wr b (f (dat s b)) s) (rel b)) = Ret t"
    "ok t (insert bn L) H" "cont t = (cont s)(bn := f (cont s bn))" "frame s t"
    "\<And>b' n. own s b' n \<Longrightarrow> own t b' n"
proof -
  obtain b u where u: "rd bn s = Ret (b, u)" "ok u L (insert bn H)" "cont u = cont s" "own u b bn"
    "dat u b = cont s bn" "frame s u" "\<forall>b' n. own s b' n \<longrightarrow> own u b' n"
    using rd_ok [OF assms(1-4)] by blast
  have "wrable u bn" "card L < cap u" using frame_same [OF u(6)] assms(5,6) by simp_all
  then obtain v where v: "wr b (f (cont s bn)) u = Ret v" "ok v (insert bn L) (insert bn H)"
    "cont v = (cont u)(bn := f (cont s bn))" "\<forall>b' n. own v b' n = own u b' n" "frame u v"
    using wr_ok [OF u(2,4) assms(7)] by blast
  have "own v b bn" using v(4) u(4) by simp
  then obtain t where t: "rel b v = Ret t" "ok t (insert bn L) (insert bn H - {bn})" "cont t = cont v" "frame v t"
    "\<forall>b' n. n \<noteq> bn \<longrightarrow> own v b' n \<longrightarrow> own t b' n"
    using rel_ok [OF v(2)] by blast
  have "insert bn H - {bn} = H" using assms(3) by blast
  moreover have "own t b' n" if "own s b' n" for b' n
    using that u(7) v(4) t(5) own_dat [OF assms(1) that] assms(3) by metis
  ultimately show thesis
    using that [of t] u v t frame_trans [OF u(6) frame_trans [OF v(5) t(4)]] by simp
qed

end

subsection \<open>The cache and the log as a store\<close>

definition tx_frame :: "'a klog_scheme \<Rightarrow> 'a klog_scheme \<Rightarrow> bool" where
  "tx_frame s t \<longleftrightarrow> (\<exists>p l b n h. t = s\<lparr>ptable := p, sleepl := l, bufs := b, lh_n := n, lh_block := h\<rparr>) \<and>
     (\<forall>i. sleepl t (InodeLock i) = sleepl s (InodeLock i)) \<and> cur t = cur s \<and> cur_pid t = cur_pid s"

definition logged_write :: "nat \<Rightarrow> block \<Rightarrow> 'a klog_scheme \<Rightarrow> 'a klog_scheme result" where
  "logged_write b d s = log_write b (set_bdata b d s)"

definition tx :: "'a klog_scheme \<Rightarrow> uint set \<Rightarrow> uint set \<Rightarrow> bool" where
  "tx s L H \<longleftrightarrow> (\<exists>n. open_log s n \<and> L = home s ` {..<n}) \<and> 1 \<le> outstanding s \<and> held s = H \<and>
     (\<forall>bn. bn \<notin> L \<longrightarrow> unat bn < length (memdisk s) \<longrightarrow> view s bn = memdisk s ! unat bn)"

definition in_disk :: "'a klog_scheme \<Rightarrow> uint \<Rightarrow> bool" where
  "in_disk s bn \<longleftrightarrow> unat bn < length (memdisk s)"

definition log_cap :: "'a klog_scheme \<Rightarrow> nat" where
  "log_cap s = nat (log_size s - 1)"

lemma tx_frameI:
  assumes "bio_frame s t" "memdisk t = memdisk s" "dwrites t = dwrites s"
  shows "tx_frame s t"
proof -
  obtain p l b where "t = s\<lparr>ptable := p, sleepl := l, bufs := b, memdisk := memdisk s, dwrites := dwrites s\<rparr>"
    using assms by (auto simp: bio_frame_def)
  then have "\<exists>p l b n h. t = s\<lparr>ptable := p, sleepl := l, bufs := b, lh_n := n, lh_block := h\<rparr>"
    by (intro exI [of _ p] exI [of _ l] exI [of _ b] exI [of _ "lh_n s"] exI [of _ "lh_block s"]) simp
  then show ?thesis using assms(1) by (simp only: tx_frame_def bio_frame_def simp_thms)
qed

lemma tx_frame_refl [simp]: "tx_frame s s"
  by (rule tx_frameI) simp_all

lemma tx_frame_trans [trans]: "tx_frame s t \<Longrightarrow> tx_frame t u \<Longrightarrow> tx_frame s u"
  unfolding tx_frame_def by (elim conjE exE) (auto 0 0, metis)

lemma tx_frame_fields:
  assumes "tx_frame s t"
  shows "memdisk t = memdisk s" "dwrites t = dwrites s" "log_start t = log_start s" "log_size t = log_size s"
    "outstanding t = outstanding s" "committing t = committing s" "log_dev t = log_dev s"
    "log_area t = log_area s" "cur t = cur s" "cur_pid t = cur_pid s"
    "sleepl t (InodeLock i) = sleepl s (InodeLock i)"
  using assms by (auto simp: tx_frame_def log_area_def)

lemma open_log_card:
  assumes "open_log s n"
  shows "card (home s ` {..<n}) = n" "finite (home s ` {..<n})"
proof -
  have "distinct (map (home s) [0..<n])" using assms by (simp add: open_log_def homes_ok_def)
  then have "inj_on (home s) {..<n}" by (simp add: distinct_map lessThan_atLeast0)
  then show "card (home s ` {..<n}) = n" by (simp add: card_image)
  show "finite (home s ` {..<n})" by simp
qed

lemma txD:
  assumes "tx s L H"
  obtains n where "open_log s n" "L = home s ` {..<n}" "card L = n" "bio_ok s" "pinned s = L" "log_geom s"
    "1 \<le> outstanding s" "held s = H" "finite L" "L \<inter> log_area s = {}"
    "\<And>bn. bn \<notin> L \<Longrightarrow> unat bn < length (memdisk s) \<Longrightarrow> view s bn = memdisk s ! unat bn"
proof -
  obtain n where n: "open_log s n" "L = home s ` {..<n}" using assms by (auto simp: tx_def)
  have "L \<inter> log_area s = {}" using n by (auto simp: open_log_def homes_ok_def)
  then show thesis
    using n that [OF n] assms open_log_card [OF n(1)] by (auto simp: tx_def open_log_def)
qed

lemma tx_keep:
  assumes t: "tx s L H" and f: "bio_frame s t" "memdisk t = memdisk s"
    and b: "bio_ok t" "pinned t = pinned s" "held t = H'" "view t = view s"
  shows "tx t L H'"
proof -
  obtain n where n: "open_log s n" "L = home s ` {..<n}" using t by (auto simp: tx_def)
  note F = log_frame [OF f(1)] log_geom_frame [OF f(1)] f(2)
  have "open_log t n" using n(1) F b by (simp add: open_log_def)
  then show ?thesis using t n F b by (auto simp: tx_def)
qed

lemma tx_bread:
  assumes t: "tx s L H" "in_disk s bn" "bn \<notin> H" "card (H \<union> L) < NBUF"
  shows "\<exists>b t. bread 1 bn s = Ret (b, t) \<and> tx t L (insert bn H) \<and> view t = view s \<and> holds t b bn \<and>
    bdata (bufs t ! b) = view s bn \<and> tx_frame s t \<and> (\<forall>b' n. holds s b' n \<longrightarrow> holds t b' n)"
proof -
  obtain n where n: "bio_ok s" "pinned s = L" "held s = H" by (rule txD [OF t(1)])
  have 1: "unat bn < length (memdisk s)" "bn \<notin> held s" "bn \<in> pinned s \<or> card (held s \<union> pinned s) < NBUF"
    using t n by (simp_all add: in_disk_def)
  obtain b u where u: "bread 1 bn s = Ret (b, u)" "bio_ok u" "holds u b bn" "view u = view s"
    "held u = insert bn (held s)" "pinned u = pinned s" "memdisk u = memdisk s" "dwrites u = dwrites s"
    "bio_frame s u" "\<And>b' n. holds s b' n \<Longrightarrow> holds u b' n"
    by (rule bread_step [OF n(1) 1]) blast
  have "tx u L (insert bn H)"
    by (rule tx_keep [OF t(1) u(9,7,2,6)]) (use u n in simp_all)
  then show ?thesis
    using u tx_frameI [OF u(9,7,8)] holds_view(1) [OF u(2,3)] by (intro exI [of _ b] exI [of _ u]) simp
qed

lemma tx_brelse:
  assumes t: "tx s L H" "holds s b bn"
  shows "\<exists>t. brelse b s = Ret t \<and> tx t L (H - {bn}) \<and> view t = view s \<and> tx_frame s t \<and>
    (\<forall>b' n. n \<noteq> bn \<longrightarrow> holds s b' n \<longrightarrow> holds t b' n)"
proof -
  obtain n where n: "bio_ok s" "pinned s = L" "held s = H"
    "\<And>bn. bn \<notin> L \<Longrightarrow> unat bn < length (memdisk s) \<Longrightarrow> view s bn = memdisk s ! unat bn"
    by (rule txD [OF t(1)]) blast
  have 1: "bn \<in> pinned s \<or> view s bn = memdisk s ! unat bn"
    using n holds_view(3) [OF n(1) t(2)] by blast
  obtain u where u: "brelse b s = Ret u" "bio_ok u" "view u = view s" "held u = held s - {bn}"
    "pinned u = pinned s" "memdisk u = memdisk s" "dwrites u = dwrites s" "bio_frame s u"
    "\<And>b' n. b' \<noteq> b \<Longrightarrow> holds u b' n = holds s b' n"
    by (rule brelse_step [OF n(1) t(2) 1]) blast
  have "tx u L (H - {bn})"
    by (rule tx_keep [OF t(1) u(8,6,2,5)]) (use u n in simp_all)
  moreover have "holds u b' m" if "m \<noteq> bn" "holds s b' m" for b' m
    using that u(9) holds_inj [OF n(1) t(2)] by metis
  ultimately show ?thesis
    using u(1,3) tx_frameI [OF u(8,6,7)] by (intro exI [of _ u]) blast
qed

lemma log_write_frame:
  assumes "open_log s n" "holds s b bn" "int n < log_size s - 1" "1 \<le> outstanding s" "log_write b s = Ret t"
  shows "tx_frame s t"
proof -
  define i where "i = log_slot_for s n bn"
  define k where "k = (if i = n then int n + 1 else lh_n s)"
  have "t = s\<lparr>ptable := ptable s, sleepl := sleepl s, bufs := bufs t, lh_n := k,
      lh_block := (lh_block s)[i := bn]\<rparr>"
    using assms(5) log_write_exact [OF assms(1-4)] by (auto simp: i_def k_def)
  then obtain x where e: "t = s\<lparr>ptable := ptable s, sleepl := sleepl s, bufs := x, lh_n := k,
      lh_block := (lh_block s)[i := bn]\<rparr>" by blast
  then have "cur t = cur s" "cur_pid t = cur_pid s" "sleepl t = sleepl s"
    by (auto simp: cur_def this_cpu_def cur_pid_def)
  moreover have "\<exists>p l b n h. t = s\<lparr>ptable := p, sleepl := l, bufs := b, lh_n := n, lh_block := h\<rparr>"
    by (intro exI) (rule e)
  ultimately show ?thesis by (simp add: tx_frame_def)
qed

lemma tx_write:
  assumes t: "tx s L H" "holds s b bn" and d: "length d = BSIZE" "bn \<notin> log_area s" "card L < log_cap s"
  shows "\<exists>t. logged_write b d s = Ret t \<and> tx t (insert bn L) H \<and> view t = (view s)(bn := d) \<and>
    (\<forall>b' n. holds t b' n = holds s b' n) \<and> tx_frame s t"
proof -
  obtain n where n: "open_log s n" "L = home s ` {..<n}" "card L = n" "bio_ok s" "pinned s = L" "log_geom s"
    "1 \<le> outstanding s" "held s = H" "finite L" "L \<inter> log_area s = {}"
    "\<And>bn. bn \<notin> L \<Longrightarrow> unat bn < length (memdisk s) \<Longrightarrow> view s bn = memdisk s ! unat bn"
    by (rule txD [OF t(1)]) blast
  let ?s = "set_bdata b d s"
  note S = set_bdata_step [OF n(4) t(2) d(1)]
  note F = log_frame [OF S(6)] log_geom_frame [OF S(6)] S(7)
  have o: "open_log ?s n" "holds ?s b bn" "int n < log_size ?s - 1" "1 \<le> outstanding ?s" "bn \<notin> log_area ?s"
    using n S F t d by (simp_all add: open_log_def log_cap_def)
  obtain u m where u: "log_write b ?s = Ret u" "open_log u m" "home u ` {..<m} = insert bn (home ?s ` {..<n})"
    "view u = view ?s" "held u = held ?s" "memdisk u = memdisk ?s" "dwrites u = dwrites ?s"
    "\<And>b' k. holds u b' k = holds ?s b' k" "outstanding u = outstanding ?s"
    by (rule log_write_ok [OF o]) blast
  have fr: "tx_frame s u"
    using tx_frameI [OF S(6-8)] log_write_frame [OF o(1-4) u(1)] by (rule tx_frame_trans)
  have L: "home u ` {..<m} = insert bn L" using u(3) F n(2) by simp
  have "view u x = memdisk u ! unat x" if "x \<notin> insert bn L" "unat x < length (memdisk u)" for x
    using that n(11) [of x] u(4,6) S(3,7) by simp
  then have "tx u (insert bn L) H"
    using u(2,5,9) L n(7,8) S(4) F by (auto simp: tx_def)
  then show ?thesis
    using u(1,4,8) S(2,3) fr by (intro exI [of _ u]) (simp add: logged_write_def)
qed

interpretation st: block_store "bread 1" logged_write brelse "\<lambda>s b. bdata (bufs s ! b)" tx view holds
  in_disk "\<lambda>s bn. bn \<notin> log_area s" log_cap tx_frame
proof
  fix s t u :: "'a klog_scheme" and L H b bn d
  show "tx s L H \<Longrightarrow> in_disk s bn \<Longrightarrow> bn \<notin> H \<Longrightarrow> card (H \<union> L) < NBUF \<Longrightarrow>
      \<exists>b t. bread 1 bn s = Ret (b, t) \<and> tx t L (insert bn H) \<and> view t = view s \<and> holds t b bn \<and>
        bdata (bufs t ! b) = view s bn \<and> tx_frame s t \<and> (\<forall>b' n. holds s b' n \<longrightarrow> holds t b' n)"
    by (rule tx_bread)
  show "tx s L H \<Longrightarrow> holds s b bn \<Longrightarrow> length d = BSIZE \<Longrightarrow> bn \<notin> log_area s \<Longrightarrow> card L < log_cap s \<Longrightarrow>
      \<exists>t. logged_write b d s = Ret t \<and> tx t (insert bn L) H \<and> view t = (view s)(bn := d) \<and>
        (\<forall>b' n. holds t b' n = holds s b' n) \<and> tx_frame s t"
    by (rule tx_write)
  show "tx s L H \<Longrightarrow> holds s b bn \<Longrightarrow> \<exists>t. brelse b s = Ret t \<and> tx t L (H - {bn}) \<and> view t = view s \<and>
      tx_frame s t \<and> (\<forall>b' n. n \<noteq> bn \<longrightarrow> holds s b' n \<longrightarrow> holds t b' n)"
    by (rule tx_brelse)
  show "tx s L H \<Longrightarrow> holds s b bn \<Longrightarrow> bdata (bufs s ! b) = view s bn \<and> bn \<in> H"
    by (erule txD) (auto dest: holds_view)
  show "tx s L H \<Longrightarrow> in_disk s bn \<Longrightarrow> length (view s bn) = BSIZE"
    by (erule txD) (auto simp: in_disk_def intro: length_view)
  show "tx_frame s t \<Longrightarrow> tx_frame t u \<Longrightarrow> tx_frame s u"
    by (rule tx_frame_trans)
  show "tx_frame s t \<Longrightarrow> in_disk t = in_disk s \<and> (\<lambda>bn. bn \<notin> log_area t) = (\<lambda>bn. bn \<notin> log_area s) \<and>
      log_cap t = log_cap s"
    by (simp add: tx_frame_fields in_disk_def log_cap_def fun_eq_iff)
qed

end
