(* ===== verification/Fs.thy ===== *)
theory Fs
  imports Txn
begin

text \<open>
  The file system (\<^verbatim>\<open>fs.c\<close> with the structures of \<^verbatim>\<open>fs.h\<close>, \<^verbatim>\<open>file.h\<close> and \<^verbatim>\<open>stat.h\<close>): the block and
  inode allocators, the inode cache, the contents of files, directories and path names.
  Inodes are the indices of \<^verbatim>\<open>icache.inode\<close>; a null inode pointer is \<open>None\<close>.  The bytes that
  \<^verbatim>\<open>readi\<close> stores at its destination are part of its result, and those that \<^verbatim>\<open>writei\<close> fetches from its
  source are an argument.  This theory holds the operations and the byte layout of their
  structures; what they do is shown in the theories of the allocator, the inode cache, the
  file contents and the directories.
\<close>

subsection \<open>Structures\<close>

definition ROOTINO :: uint where "ROOTINO = 1"
definition NDIRECT :: nat where "NDIRECT = 12"
definition NINDIRECT :: nat where "NINDIRECT = BSIZE div 4"
definition MAXFILE :: nat where "MAXFILE = NDIRECT + NINDIRECT"
definition IPB :: nat where "IPB = BSIZE div 64"
definition BPB :: nat where "BPB = BSIZE * 8"
definition DIRSIZ :: nat where "DIRSIZ = 14"

definition T_DIR :: ushort where "T_DIR = 1"
definition T_FILE :: ushort where "T_FILE = 2"
definition T_DEV :: ushort where "T_DEV = 3"

declare ROOTINO_def [const_simps] NDIRECT_def [const_simps] NINDIRECT_def [const_simps]
  MAXFILE_def [const_simps] IPB_def [const_simps] BPB_def [const_simps] DIRSIZ_def [const_simps]
  T_DIR_def [const_simps] T_FILE_def [const_simps] T_DEV_def [const_simps]

record dinode =
  i_type :: ushort
  i_major :: ushort
  i_minor :: ushort
  i_nlink :: ushort
  i_size :: uint
  i_addrs :: "uint list"

text \<open>The inode in memory: the fields above are its \<^verbatim>\<open>copy of disk inode\<close>.\<close>

record inode = dinode +
  i_dev :: uint
  i_inum :: uint
  i_ref :: int
  i_valid :: bool

record stat =
  st_type :: ushort
  st_dev :: uint
  st_ino :: uint
  st_nlink :: ushort
  st_size :: uint

record dirent =
  d_inum :: ushort
  d_name :: "uchar list"

record kfs = kfile +
  icache :: "inode list"
  sb :: superblock

text \<open>
  The table of device functions.  A device reads up to \<open>n\<close> bytes, or writes bytes, and returns
  what the C function returns.
\<close>

record 's devsw =
  dev_read :: "(nat \<Rightarrow> int \<Rightarrow> 's \<Rightarrow> (int \<times> uchar list \<times> 's) result) option"
  dev_write :: "(nat \<Rightarrow> uchar list \<Rightarrow> 's \<Rightarrow> (int \<times> 's) result) option"

abbreviation upd_inode :: "nat \<Rightarrow> (inode \<Rightarrow> inode) \<Rightarrow> 'a kfs_scheme \<Rightarrow> 'a kfs_scheme" where
  "upd_inode i f s \<equiv> s\<lparr>icache := (icache s)[i := f (icache s ! i)]\<rparr>"

subsection \<open>Layout\<close>

definition IBLOCK :: "uint \<Rightarrow> superblock \<Rightarrow> uint" where
  "IBLOCK i x = of_nat (unat i div IPB) + sb_inodestart x"

definition BBLOCK :: "nat \<Rightarrow> superblock \<Rightarrow> uint" where
  "BBLOCK b x = of_nat (b div BPB) + sb_bmapstart x"

definition le16 :: "ushort \<Rightarrow> uchar list" where
  "le16 w = [ucast w, ucast (drop_bit 8 w)]"

definition un16 :: "uchar \<Rightarrow> uchar \<Rightarrow> ushort" where
  "un16 a b = ucast a OR push_bit 8 (ucast b)"

definition get16 :: "uchar list \<Rightarrow> nat \<Rightarrow> ushort" where
  "get16 d off = un16 (d ! off) (d ! (off + 1))"

text \<open>\<^verbatim>\<open>(struct dinode*)bp->data + inum%IPB\<close>: reading and overwriting the structure there.\<close>

definition dinode_decode :: "block \<Rightarrow> nat \<Rightarrow> dinode" where
  "dinode_decode d off = \<lparr>i_type = get16 d off, i_major = get16 d (off + 2), i_minor = get16 d (off + 4),
     i_nlink = get16 d (off + 6), i_size = get32 d (off + 8),
     i_addrs = map (\<lambda>k. get32 d (off + 12 + 4 * k)) [0..<NDIRECT + 1]\<rparr>"

definition dinode_encode :: "dinode \<Rightarrow> uchar list" where
  "dinode_encode di = le16 (i_type di) @ le16 (i_major di) @ le16 (i_minor di) @ le16 (i_nlink di) @
     le32 (i_size di) @ concat (map le32 (i_addrs di))"

definition dinode_off :: "uint \<Rightarrow> nat" where
  "dinode_off inum = 64 * (unat inum mod IPB)"

definition dirent_decode :: "uchar list \<Rightarrow> dirent" where
  "dirent_decode d = \<lparr>d_inum = get16 d 0, d_name = take DIRSIZ (drop 2 d)\<rparr>"

definition dirent_encode :: "dirent \<Rightarrow> uchar list" where
  "dirent_encode de = le16 (d_inum de) @ d_name de"

subsection \<open>Blocks\<close>

definition bzero :: "uint \<Rightarrow> uint \<Rightarrow> 'a klog_scheme \<Rightarrow> 'a klog_scheme result" where
  "bzero dev bno s =
     rbind (bread dev bno s) (\<lambda>(bp, s).
     let s = set_bdata bp (replicate BSIZE 0) s
     in rbind (log_write bp s) (\<lambda>s. brelse bp s))"

definition bit_clear :: "block \<Rightarrow> nat \<Rightarrow> bool" where
  "bit_clear d bi \<longleftrightarrow> (d ! (bi div 8)) AND push_bit (bi mod 8) 1 = 0"

definition mark_bit :: "block \<Rightarrow> nat \<Rightarrow> block" where
  "mark_bit d bi = d[bi div 8 := (d ! (bi div 8)) OR push_bit (bi mod 8) 1]"

definition unmark_bit :: "block \<Rightarrow> nat \<Rightarrow> block" where
  "unmark_bit d bi = d[bi div 8 := (d ! (bi div 8)) AND NOT (push_bit (bi mod 8) 1)]"

text \<open>The two loops of \<^verbatim>\<open>balloc\<close>: over the blocks of the bitmap, and over the bits of one.\<close>

function balloc_loop :: "uint \<Rightarrow> nat \<Rightarrow> nat \<Rightarrow> 'a kfs_scheme \<Rightarrow> (uint \<times> 'a kfs_scheme) result" where
  "balloc_loop dev fsz b s =
     (if b < fsz
      then rbind (bread dev (BBLOCK b (sb s)) s) (\<lambda>(bp, s).
           case find (bit_clear (bdata (bufs s ! bp))) [0..<min BPB (fsz - b)] of
             Some bi \<Rightarrow>
               let s = set_bdata bp (mark_bit (bdata (bufs s ! bp)) bi) s
               in rbind (log_write bp s) (\<lambda>s. rbind (brelse bp s) (\<lambda>s.
                  rbind (bzero dev (of_nat (b + bi)) s) (\<lambda>s. Ret (of_nat (b + bi), s))))
           | None \<Rightarrow> rbind (brelse bp s) (\<lambda>s. balloc_loop dev fsz (b + BPB) s))
      else Panic ''balloc: out of blocks'')"
  by pat_completeness auto
termination by (relation "measure (\<lambda>(dev, fsz, b, s). fsz - b)") (auto simp: const_simps)

definition balloc :: "uint \<Rightarrow> 'a kfs_scheme \<Rightarrow> (uint \<times> 'a kfs_scheme) result" where
  "balloc dev s = balloc_loop dev (unat (sb_size (sb s))) 0 s"

definition bfree :: "uint \<Rightarrow> uint \<Rightarrow> 'a kfs_scheme \<Rightarrow> 'a kfs_scheme result" where
  "bfree dev b s =
     rbind (readsb dev s) (\<lambda>(x, s).
     let s = s\<lparr>sb := x\<rparr>
     in rbind (bread dev (BBLOCK (unat b) (sb s)) s) (\<lambda>(bp, s).
        let bi = unat b mod BPB
        in if bit_clear (bdata (bufs s ! bp)) bi then Panic ''freeing free block''
           else let s = set_bdata bp (unmark_bit (bdata (bufs s ! bp)) bi) s
             in rbind (log_write bp s) (\<lambda>s. brelse bp s)))"

subsection \<open>The inode cache\<close>

fun iinit_loop :: "nat \<Rightarrow> nat \<Rightarrow> 'a kfs_scheme \<Rightarrow> 'a kfs_scheme" where
  "iinit_loop i 0 s = s"
| "iinit_loop i (Suc n) s = iinit_loop (Suc i) n (initsleeplock (InodeLock i) ''inode'' s)"

text \<open>The final \<^verbatim>\<open>cprintf\<close> of \<^verbatim>\<open>iinit\<close> reports the super block on the console.\<close>

definition iinit :: "uint \<Rightarrow> 'a kfs_scheme \<Rightarrow> 'a kfs_scheme result" where
  "iinit dev s =
     (let s = initlock IcacheLock ''icache'' s;
          s = iinit_loop 0 NINODE s
      in rbind (readsb dev s) (\<lambda>(x, s). Ret (s\<lparr>sb := x\<rparr>)))"

definition iget :: "uint \<Rightarrow> uint \<Rightarrow> 'a kfs_scheme \<Rightarrow> (nat \<times> 'a kfs_scheme) result" where
  "iget dev inum s =
     rbind (acquire IcacheLock s) (\<lambda>s.
     case find_idx (\<lambda>ip. i_ref ip > 0 \<and> i_dev ip = dev \<and> i_inum ip = inum) (icache s) of
       Some i \<Rightarrow>
         rbind (release IcacheLock (upd_inode i (\<lambda>ip. ip\<lparr>i_ref := i_ref ip + 1\<rparr>) s)) (\<lambda>s. Ret (i, s))
     | None \<Rightarrow>
         (case find_idx (\<lambda>ip. i_ref ip = 0) (icache s) of
            None \<Rightarrow> Panic ''iget: no inodes''
          | Some i \<Rightarrow>
             rbind (release IcacheLock (upd_inode i (\<lambda>ip. ip\<lparr>i_dev := dev, i_inum := inum, i_ref := 1,
               i_valid := False\<rparr>) s)) (\<lambda>s. Ret (i, s))))"

definition idup :: "nat \<Rightarrow> 'a kfs_scheme \<Rightarrow> (nat \<times> 'a kfs_scheme) result" where
  "idup i s =
     rbind (acquire IcacheLock s) (\<lambda>s.
     rbind (release IcacheLock (upd_inode i (\<lambda>ip. ip\<lparr>i_ref := i_ref ip + 1\<rparr>) s)) (\<lambda>s. Ret (i, s)))"

definition zero_dinode :: "ushort \<Rightarrow> dinode" where
  "zero_dinode ty = \<lparr>i_type = ty, i_major = 0, i_minor = 0, i_nlink = 0, i_size = 0,
     i_addrs = replicate (NDIRECT + 1) 0\<rparr>"

function ialloc_loop :: "uint \<Rightarrow> ushort \<Rightarrow> nat \<Rightarrow> nat \<Rightarrow> 'a kfs_scheme \<Rightarrow> (nat \<times> 'a kfs_scheme) result" where
  "ialloc_loop dev ty ninodes inum s =
     (if inum < ninodes
      then rbind (bread dev (IBLOCK (of_nat inum) (sb s)) s) (\<lambda>(bp, s).
           let d = bdata (bufs s ! bp); off = dinode_off (of_nat inum)
           in if i_type (dinode_decode d off) = 0
              then let s = set_bdata bp (splice d off (dinode_encode (zero_dinode ty))) s
                in rbind (log_write bp s) (\<lambda>s. rbind (brelse bp s) (\<lambda>s. iget dev (of_nat inum) s))
              else rbind (brelse bp s) (\<lambda>s. ialloc_loop dev ty ninodes (Suc inum) s))
      else Panic ''ialloc: no inodes'')"
  by pat_completeness auto
termination by (relation "measure (\<lambda>(dev, ty, ninodes, inum, s). ninodes - inum)") auto

definition ialloc :: "uint \<Rightarrow> ushort \<Rightarrow> 'a kfs_scheme \<Rightarrow> (nat \<times> 'a kfs_scheme) result" where
  "ialloc dev ty s = ialloc_loop dev ty (unat (sb_ninodes (sb s))) 1 s"

definition iupdate :: "nat \<Rightarrow> 'a kfs_scheme \<Rightarrow> 'a kfs_scheme result" where
  "iupdate i s =
     rbind (bread (i_dev (icache s ! i)) (IBLOCK (i_inum (icache s ! i)) (sb s)) s) (\<lambda>(bp, s).
     let ip = icache s ! i;
         s = set_bdata bp (splice (bdata (bufs s ! bp)) (dinode_off (i_inum ip)) (dinode_encode (dinode.truncate ip))) s
     in rbind (log_write bp s) (\<lambda>s. brelse bp s))"

definition load_inode :: "dinode \<Rightarrow> inode \<Rightarrow> inode" where
  "load_inode di ip = ip\<lparr>i_type := i_type di, i_major := i_major di, i_minor := i_minor di,
     i_nlink := i_nlink di, i_size := i_size di, i_addrs := i_addrs di\<rparr>"

definition ilock :: "nat option \<Rightarrow> 'a kfs_scheme \<Rightarrow> 'a kfs_scheme result" where
  "ilock p s =
     (case p of None \<Rightarrow> Panic ''ilock''
      | Some i \<Rightarrow>
        if i_ref (icache s ! i) < 1 then Panic ''ilock''
        else rbind (acquiresleep (InodeLock i) s) (\<lambda>s.
          if \<not> i_valid (icache s ! i)
          then rbind (bread (i_dev (icache s ! i)) (IBLOCK (i_inum (icache s ! i)) (sb s)) s) (\<lambda>(bp, s).
               let s = upd_inode i (load_inode (dinode_decode (bdata (bufs s ! bp))
                         (dinode_off (i_inum (icache s ! i))))) s
               in rbind (brelse bp s) (\<lambda>s.
                  let s = upd_inode i (\<lambda>ip. ip\<lparr>i_valid := True\<rparr>) s
                  in if i_type (icache s ! i) = 0 then Panic ''ilock: no type'' else Ret s))
          else Ret s))"

definition iunlock :: "nat option \<Rightarrow> 'a kfs_scheme \<Rightarrow> 'a kfs_scheme result" where
  "iunlock p s =
     (case p of None \<Rightarrow> Panic ''iunlock''
      | Some i \<Rightarrow>
        rbind (holdingsleep (InodeLock i) s) (\<lambda>(h, s).
        if \<not> h \<or> i_ref (icache s ! i) < 1 then Panic ''iunlock''
        else releasesleep (InodeLock i) s))"

subsection \<open>File contents\<close>

definition set_addr :: "nat \<Rightarrow> uint \<Rightarrow> inode \<Rightarrow> inode" where
  "set_addr k a ip = ip\<lparr>i_addrs := (i_addrs ip)[k := a]\<rparr>"

definition addr_at :: "nat \<Rightarrow> nat \<Rightarrow> 'a kfs_scheme \<Rightarrow> uint" where
  "addr_at i k s = i_addrs (icache s ! i) ! k"

text \<open>\<^verbatim>\<open>if((addr = ip->addrs[k]) == 0) ip->addrs[k] = addr = balloc(ip->dev)\<close>.\<close>

definition addr_or_alloc :: "nat \<Rightarrow> nat \<Rightarrow> 'a kfs_scheme \<Rightarrow> (uint \<times> 'a kfs_scheme) result" where
  "addr_or_alloc i k s =
     (if addr_at i k s = 0
      then rbind (balloc (i_dev (icache s ! i)) s) (\<lambda>(a, s). Ret (a, upd_inode i (set_addr k a) s))
      else Ret (addr_at i k s, s))"

definition bmap :: "nat \<Rightarrow> nat \<Rightarrow> 'a kfs_scheme \<Rightarrow> (uint \<times> 'a kfs_scheme) result" where
  "bmap i bn s =
     (if bn < NDIRECT then addr_or_alloc i bn s
      else let bn = bn - NDIRECT
        in if bn < NINDIRECT
           then rbind (addr_or_alloc i NDIRECT s) (\<lambda>(addr, s).
                rbind (bread (i_dev (icache s ! i)) addr s) (\<lambda>(bp, s).
                let addr = get32 (bdata (bufs s ! bp)) (4 * bn)
                in if addr = 0
                   then rbind (balloc (i_dev (icache s ! i)) s) (\<lambda>(addr, s).
                        let s = set_bdata bp (put32 (bdata (bufs s ! bp)) (4 * bn) addr) s
                        in rbind (log_write bp s) (\<lambda>s. rbind (brelse bp s) (\<lambda>s. Ret (addr, s))))
                   else rbind (brelse bp s) (\<lambda>s. Ret (addr, s))))
           else Panic ''bmap: out of range'')"

fun free_direct :: "nat \<Rightarrow> nat \<Rightarrow> nat \<Rightarrow> 'a kfs_scheme \<Rightarrow> 'a kfs_scheme result" where
  "free_direct i k 0 s = Ret s"
| "free_direct i k (Suc n) s =
     rbind (if addr_at i k s \<noteq> 0
            then rbind (bfree (i_dev (icache s ! i)) (addr_at i k s) s) (\<lambda>s. Ret (upd_inode i (set_addr k 0) s))
            else Ret s) (\<lambda>s. free_direct i (Suc k) n s)"

fun free_indirect :: "uint \<Rightarrow> nat \<Rightarrow> nat \<Rightarrow> nat \<Rightarrow> 'a kfs_scheme \<Rightarrow> 'a kfs_scheme result" where
  "free_indirect dev bp j 0 s = Ret s"
| "free_indirect dev bp j (Suc n) s =
     rbind (if get32 (bdata (bufs s ! bp)) (4 * j) \<noteq> 0
            then bfree dev (get32 (bdata (bufs s ! bp)) (4 * j)) s
            else Ret s) (\<lambda>s. free_indirect dev bp (Suc j) n s)"

definition itrunc :: "nat \<Rightarrow> 'a kfs_scheme \<Rightarrow> 'a kfs_scheme result" where
  "itrunc i s =
     rbind (free_direct i 0 NDIRECT s) (\<lambda>s.
     rbind (if addr_at i NDIRECT s \<noteq> 0
            then rbind (bread (i_dev (icache s ! i)) (addr_at i NDIRECT s) s) (\<lambda>(bp, s).
                 rbind (free_indirect (i_dev (icache s ! i)) bp 0 NINDIRECT s) (\<lambda>s.
                 rbind (brelse bp s) (\<lambda>s.
                 rbind (bfree (i_dev (icache s ! i)) (addr_at i NDIRECT s) s) (\<lambda>s.
                 Ret (upd_inode i (set_addr NDIRECT 0) s)))))
            else Ret s) (\<lambda>s.
     iupdate i (upd_inode i (\<lambda>ip. ip\<lparr>i_size := 0\<rparr>) s)))"

definition iput :: "nat \<Rightarrow> 'a kfs_scheme \<Rightarrow> 'a kfs_scheme result" where
  "iput i s =
     rbind (acquiresleep (InodeLock i) s) (\<lambda>s.
     rbind (if i_valid (icache s ! i) \<and> i_nlink (icache s ! i) = 0
            then rbind (acquire IcacheLock s) (\<lambda>s.
                 let r = i_ref (icache s ! i)
                 in rbind (release IcacheLock s) (\<lambda>s.
                    if r = 1
                    then rbind (itrunc i s) (\<lambda>s.
                         rbind (iupdate i (upd_inode i (\<lambda>ip. ip\<lparr>i_type := 0\<rparr>) s)) (\<lambda>s.
                         Ret (upd_inode i (\<lambda>ip. ip\<lparr>i_valid := False\<rparr>) s)))
                    else Ret s))
            else Ret s) (\<lambda>s.
     rbind (releasesleep (InodeLock i) s) (\<lambda>s.
     rbind (acquire IcacheLock s) (\<lambda>s.
     release IcacheLock (upd_inode i (\<lambda>ip. ip\<lparr>i_ref := i_ref ip - 1\<rparr>) s)))))"

definition iunlockput :: "nat \<Rightarrow> 'a kfs_scheme \<Rightarrow> 'a kfs_scheme result" where
  "iunlockput i s = rbind (iunlock (Some i) s) (\<lambda>s. iput i s)"

definition stati :: "inode \<Rightarrow> stat" where
  "stati ip = \<lparr>st_type = i_type ip, st_dev = i_dev ip, st_ino = i_inum ip, st_nlink = i_nlink ip, st_size = i_size ip\<rparr>"

function readi_loop :: "nat \<Rightarrow> nat \<Rightarrow> nat \<Rightarrow> 'a kfs_scheme \<Rightarrow> (uchar list \<times> 'a kfs_scheme) result" where
  "readi_loop i off k s =
     (if k = 0 then Ret ([], s)
      else let m = min k (BSIZE - off mod BSIZE)
        in rbind (bmap i (off div BSIZE) s) (\<lambda>(a, s).
           rbind (bread (i_dev (icache s ! i)) a s) (\<lambda>(bp, s).
           let x = take m (drop (off mod BSIZE) (bdata (bufs s ! bp)))
           in rbind (brelse bp s) (\<lambda>s.
              rbind (readi_loop i (off + m) (k - m) s) (\<lambda>(xs, s). Ret (x @ xs, s))))))"
  by pat_completeness auto
termination by (relation "measure (\<lambda>(i, off, k, s). k)") (auto simp: const_simps)

text \<open>The device functions are looked up by the signed major number.\<close>

definition dev_entry :: "'s devsw list \<Rightarrow> ushort \<Rightarrow> 's devsw option" where
  "dev_entry dv major =
     (if sint major < 0 \<or> sint major \<ge> int NDEV then None else Some (dv ! nat (sint major)))"

definition readi :: "'a kfs_scheme devsw list \<Rightarrow> nat \<Rightarrow> uint \<Rightarrow> uint \<Rightarrow> 'a kfs_scheme \<Rightarrow>
    (int \<times> uchar list \<times> 'a kfs_scheme) result" where
  "readi dv i off n s =
     (let ip = icache s ! i
      in if i_type ip = T_DEV
         then (case Option.bind (dev_entry dv (i_major ip)) dev_read of
                 None \<Rightarrow> Ret (- 1, [], s)
               | Some rd \<Rightarrow> rd i (sint n) s)
         else if off > i_size ip \<or> off + n < off then Ret (- 1, [], s)
         else let n = (if off + n > i_size ip then i_size ip - off else n)
           in rbind (readi_loop i (unat off) (unat n) s) (\<lambda>(xs, s). Ret (sint n, xs, s)))"

function writei_loop :: "nat \<Rightarrow> nat \<Rightarrow> uchar list \<Rightarrow> 'a kfs_scheme \<Rightarrow> 'a kfs_scheme result" where
  "writei_loop i off src s =
     (if src = [] then Ret s
      else let m = min (length src) (BSIZE - off mod BSIZE)
        in rbind (bmap i (off div BSIZE) s) (\<lambda>(a, s).
           rbind (bread (i_dev (icache s ! i)) a s) (\<lambda>(bp, s).
           let s = set_bdata bp (splice (bdata (bufs s ! bp)) (off mod BSIZE) (take m src)) s
           in rbind (log_write bp s) (\<lambda>s. rbind (brelse bp s) (\<lambda>s.
              writei_loop i (off + m) (drop m src) s)))))"
  by pat_completeness auto
termination by (relation "measure (\<lambda>(i, off, src, s). length src)") (auto simp: const_simps)

definition writei :: "'a kfs_scheme devsw list \<Rightarrow> nat \<Rightarrow> uchar list \<Rightarrow> uint \<Rightarrow> 'a kfs_scheme \<Rightarrow>
    (int \<times> 'a kfs_scheme) result" where
  "writei dv i src off s =
     (let ip = icache s ! i; n = of_nat (length src) :: uint
      in if i_type ip = T_DEV
         then (case Option.bind (dev_entry dv (i_major ip)) dev_write of
                 None \<Rightarrow> Ret (- 1, s)
               | Some wr \<Rightarrow> wr i src s)
         else if off > i_size ip \<or> off + n < off then Ret (- 1, s)
         else if off + n > of_nat (MAXFILE * BSIZE) then Ret (- 1, s)
         else rbind (writei_loop i (unat off) src s) (\<lambda>s.
           let off = off + n
           in rbind (if n > 0 \<and> off > i_size (icache s ! i)
                     then iupdate i (upd_inode i (\<lambda>ip. ip\<lparr>i_size := off\<rparr>) s)
                     else Ret s) (\<lambda>s. Ret (sint n, s))))"

subsection \<open>Directories\<close>

definition namecmp :: "uchar list \<Rightarrow> uchar list \<Rightarrow> int" where
  "namecmp x y = strncmp (ptr x) (ptr y) DIRSIZ"

function dirlookup_loop :: "'a kfs_scheme devsw list \<Rightarrow> nat \<Rightarrow> uchar list \<Rightarrow> nat \<Rightarrow> nat \<Rightarrow> 'a kfs_scheme \<Rightarrow>
    ((nat \<times> nat) option \<times> 'a kfs_scheme) result" where
  "dirlookup_loop dv dp name fsz off s =
     (if off < fsz
      then rbind (readi dv dp (of_nat off) 16 s) (\<lambda>(r, de, s).
           if r \<noteq> 16 then Panic ''dirlookup read''
           else let de = dirent_decode de
             in if d_inum de \<noteq> 0 \<and> namecmp name (d_name de) = 0
                then rbind (iget (i_dev (icache s ! dp)) (ucast (d_inum de)) s) (\<lambda>(ip, s). Ret (Some (ip, off), s))
                else dirlookup_loop dv dp name fsz (off + 16) s)
      else Ret (None, s))"
  by pat_completeness auto
termination by (relation "measure (\<lambda>(dv, dp, name, fsz, off, s). fsz - off)") auto

definition dirlookup :: "'a kfs_scheme devsw list \<Rightarrow> nat \<Rightarrow> uchar list \<Rightarrow> 'a kfs_scheme \<Rightarrow>
    ((nat \<times> nat) option \<times> 'a kfs_scheme) result" where
  "dirlookup dv dp name s =
     (if i_type (icache s ! dp) \<noteq> T_DIR then Panic ''dirlookup not DIR''
      else dirlookup_loop dv dp name (unat (i_size (icache s ! dp))) 0 s)"

function dirlink_slot :: "'a kfs_scheme devsw list \<Rightarrow> nat \<Rightarrow> nat \<Rightarrow> nat \<Rightarrow> 'a kfs_scheme \<Rightarrow>
    (nat \<times> 'a kfs_scheme) result" where
  "dirlink_slot dv dp fsz off s =
     (if off < fsz
      then rbind (readi dv dp (of_nat off) 16 s) (\<lambda>(r, de, s).
           if r \<noteq> 16 then Panic ''dirlink read''
           else if d_inum (dirent_decode de) = 0 then Ret (off, s)
           else dirlink_slot dv dp fsz (off + 16) s)
      else Ret (off, s))"
  by pat_completeness auto
termination by (relation "measure (\<lambda>(dv, dp, fsz, off, s). fsz - off)") auto

text \<open>\<^verbatim>\<open>strncpy(de.name, name, DIRSIZ)\<close>: the name, cut off or filled up with NUL bytes.\<close>

definition pad_name :: "uchar list \<Rightarrow> uchar list" where
  "pad_name name = take DIRSIZ (takeWhile (\<lambda>c. c \<noteq> 0) name @ replicate DIRSIZ 0)"

definition dirlink :: "'a kfs_scheme devsw list \<Rightarrow> nat \<Rightarrow> uchar list \<Rightarrow> uint \<Rightarrow> 'a kfs_scheme \<Rightarrow>
    (int \<times> 'a kfs_scheme) result" where
  "dirlink dv dp name inum s =
     rbind (dirlookup dv dp name s) (\<lambda>(r, s).
     case r of
       Some (ip, _) \<Rightarrow> rbind (iput ip s) (\<lambda>s. Ret (- 1, s))
     | None \<Rightarrow>
         rbind (dirlink_slot dv dp (unat (i_size (icache s ! dp))) 0 s) (\<lambda>(off, s).
         let de = \<lparr>d_inum = ucast inum, d_name = pad_name name\<rparr>
         in rbind (writei dv dp (dirent_encode de) (of_nat off) s) (\<lambda>(r, s).
            if r \<noteq> 16 then Panic ''dirlink'' else Ret (0, s))))"

subsection \<open>Paths\<close>

text \<open>
  A path is the list of its bytes before the NUL.  \<^verbatim>\<open>skipelem\<close> returns the rest of the path and
  the bytes of the element it stores in \<^verbatim>\<open>name\<close>.
\<close>

definition slash :: uchar where "slash = 0x2F"

definition skipelem :: "uchar list \<Rightarrow> (uchar list \<times> uchar list) option" where
  "skipelem path =
     (let path = dropWhile (\<lambda>c. c = slash) path
      in if path = [] then None
         else let el = takeWhile (\<lambda>c. c \<noteq> slash) path;
                  path = dropWhile (\<lambda>c. c \<noteq> slash) path
              in Some (dropWhile (\<lambda>c. c = slash) path, take DIRSIZ el))"

lemma length_dropWhile_Cons: "\<not> P x \<Longrightarrow> length (dropWhile P (dropWhile (\<lambda>c. \<not> P c) (x # xs))) \<le> length xs"
  by (simp add: order.trans [OF length_dropWhile_le length_dropWhile_le])

lemma skipelem_length: "skipelem path = Some (rest, name) \<Longrightarrow> length rest < length path"
proof -
  assume a: "skipelem path = Some (rest, name)"
  let ?p = "dropWhile (\<lambda>c. c = slash) path"
  have ne: "?p \<noteq> []" "rest = dropWhile (\<lambda>c. c = slash) (dropWhile (\<lambda>c. c \<noteq> slash) ?p)"
    using a by (auto simp: skipelem_def Let_def split: if_splits)
  then obtain x xs where x: "?p = x # xs" "x \<noteq> slash"
    using hd_dropWhile [OF ne(1)] by (cases ?p) auto
  have "length rest \<le> length xs"
    unfolding ne(2) x(1) by (rule length_dropWhile_Cons [of "\<lambda>c. c = slash"]) (rule x(2))
  moreover have "length ?p \<le> length path" by (rule length_dropWhile_le)
  ultimately show ?thesis by (simp add: x(1))
qed

function namex_loop :: "'a kfs_scheme devsw list \<Rightarrow> bool \<Rightarrow> nat \<Rightarrow> uchar list \<Rightarrow> uchar list \<Rightarrow> 'a kfs_scheme \<Rightarrow>
    (nat option \<times> uchar list \<times> 'a kfs_scheme) result" where
  "namex_loop dv par ip path name s =
     (case skipelem path of
        None \<Rightarrow> if par then rbind (iput ip s) (\<lambda>s. Ret (None, name, s)) else Ret (Some ip, name, s)
      | Some (path, name) \<Rightarrow>
          rbind (ilock (Some ip) s) (\<lambda>s.
          if i_type (icache s ! ip) \<noteq> T_DIR then rbind (iunlockput ip s) (\<lambda>s. Ret (None, name, s))
          else if par \<and> path = [] then rbind (iunlock (Some ip) s) (\<lambda>s. Ret (Some ip, name, s))
          else rbind (dirlookup dv ip name s) (\<lambda>(r, s).
            case r of
              None \<Rightarrow> rbind (iunlockput ip s) (\<lambda>s. Ret (None, name, s))
            | Some (nxt, _) \<Rightarrow> rbind (iunlockput ip s) (\<lambda>s. namex_loop dv par nxt path name s))))"
  by pat_completeness auto
termination by (relation "measure (\<lambda>(dv, par, ip, path, name, s). length path)") (auto dest: skipelem_length)

definition namex :: "'a kfs_scheme devsw list \<Rightarrow> bool \<Rightarrow> uchar list \<Rightarrow> 'a kfs_scheme \<Rightarrow>
    (nat option \<times> uchar list \<times> 'a kfs_scheme) result" where
  "namex dv par path s =
     rbind (if path \<noteq> [] \<and> hd path = slash then iget ROOTDEV ROOTINO s
            else rbind (myproc s) (\<lambda>(p, s).
              case p of None \<Rightarrow> Fault
              | Some p \<Rightarrow> (case cwd (ptable s ! p) of None \<Rightarrow> Fault | Some ip \<Rightarrow> idup ip s))) (\<lambda>(ip, s).
     namex_loop dv par ip path [] s)"

definition namei :: "'a kfs_scheme devsw list \<Rightarrow> uchar list \<Rightarrow> 'a kfs_scheme \<Rightarrow> (nat option \<times> 'a kfs_scheme) result" where
  "namei dv path s = rbind (namex dv False path s) (\<lambda>(ip, _, s). Ret (ip, s))"

definition nameiparent :: "'a kfs_scheme devsw list \<Rightarrow> uchar list \<Rightarrow> 'a kfs_scheme \<Rightarrow>
    (nat option \<times> uchar list \<times> 'a kfs_scheme) result" where
  "nameiparent dv path s = namex dv True path s"

declare balloc_loop.simps [simp del] ialloc_loop.simps [simp del] readi_loop.simps [simp del]
  writei_loop.simps [simp del] dirlookup_loop.simps [simp del] dirlink_slot.simps [simp del]
  namex_loop.simps [simp del]

end
