(* ===== verification/Balloc.thy ===== *)
theory Balloc
  imports Fs
begin

text \<open>
  The block allocator of \<^verbatim>\<open>fs.c\<close> (\<^verbatim>\<open>balloc\<close>, \<^verbatim>\<open>bfree\<close>, \<^verbatim>\<open>bzero\<close>) as a set of free blocks: \<^verbatim>\<open>balloc\<close>
  takes the least free block out of the set and zeroes it, \<^verbatim>\<open>bfree\<close> puts a block back.  The
  layout of the disk, and that the blocks of the super block, log, inodes and bitmap are never
  free, is an invariant.
\<close>

subsection \<open>Bits of the bitmap\<close>

lemma bit_clear_iff: "bit_clear d bi \<longleftrightarrow> \<not> bit (d ! (bi div 8)) (bi mod 8)"
  by (simp add: bit_clear_def bit_iff_and_push_bit_not_eq_0)

lemma bit_index_eq: "(bi::nat) div 8 = bj div 8 \<Longrightarrow> bi mod 8 = bj mod 8 \<longleftrightarrow> bi = bj"
  by (metis mult_div_mod_eq)

lemma bit_clear_mark:
  assumes "bi div 8 < length d"
  shows "bit_clear (mark_bit d bi) bj \<longleftrightarrow> bit_clear d bj \<and> bj \<noteq> bi"
proof (cases "bj div 8 = bi div 8")
  case True
  have lt: "bi mod 8 < 8" "bj mod 8 < 8" by simp_all
  have "bit (push_bit (bi mod 8) 1 :: uchar) (bj mod 8) \<longleftrightarrow> bi mod 8 = bj mod 8"
    using lt by (auto simp: bit_simps)
  then show ?thesis
    using True assms bit_index_eq [OF True] by (auto simp: bit_clear_iff mark_bit_def bit_or_iff)
qed (auto simp: bit_clear_iff mark_bit_def)

lemma bit_clear_unmark:
  assumes "bi div 8 < length d"
  shows "bit_clear (unmark_bit d bi) bj \<longleftrightarrow> bit_clear d bj \<or> bj = bi"
proof (cases "bj div 8 = bi div 8")
  case True
  have lt: "bi mod 8 < 8" "bj mod 8 < 8" by simp_all
  have "bit (push_bit (bi mod 8) 1 :: uchar) (bj mod 8) \<longleftrightarrow> bi mod 8 = bj mod 8"
    using lt by (auto simp: bit_simps)
  then show ?thesis
    using True assms lt bit_index_eq [OF True] by (auto simp: bit_clear_iff unmark_bit_def bit_and_iff bit_not_iff)
qed (auto simp: bit_clear_iff unmark_bit_def)

lemma unmark_mark:
  assumes "bi div 8 < length d" "bit_clear d bi"
  shows "unmark_bit (mark_bit d bi) bi = d"
proof -
  have "(w OR push_bit k 1) AND NOT (push_bit k 1) = w" if "\<not> bit w k" for w :: uchar and k
    by (rule bit_word_eqI) (use that in \<open>auto simp: bit_simps\<close>)
  then show ?thesis using assms by (simp add: mark_bit_def unmark_bit_def bit_clear_iff)
qed

lemma length_mark [simp]: "length (mark_bit d bi) = length d" "length (unmark_bit d bi) = length d"
  by (simp_all add: mark_bit_def unmark_bit_def)

subsection \<open>The layout of the disk\<close>

definition data_start :: "superblock \<Rightarrow> nat" where
  "data_start x = unat (sb_bmapstart x) + unat (sb_size x) div BPB + 1"

definition fs_layout :: "'a kfs_scheme \<Rightarrow> bool" where
  "fs_layout s \<longleftrightarrow> (let x = sb s in
     unat (sb_size x) \<le> length (memdisk s) \<and> length (memdisk s) < 2 ^ 31 \<and>
     2 \<le> unat (log_start s) \<and> unat (log_start s) + nat (log_size s) \<le> unat (sb_inodestart x) \<and>
     unat (sb_inodestart x) + unat (sb_ninodes x) div IPB + 1 \<le> unat (sb_bmapstart x) \<and>
     data_start x \<le> unat (sb_size x))"

definition free_block :: "'a kfs_scheme \<Rightarrow> nat \<Rightarrow> bool" where
  "free_block s b \<longleftrightarrow> b < unat (sb_size (sb s)) \<and> bit_clear (view s (BBLOCK b (sb s))) (b mod BPB)"

definition fs_ok :: "'a kfs_scheme \<Rightarrow> bool" where
  "fs_ok s \<longleftrightarrow> fs_layout s \<and> sb_decode (view s 1) = sb s \<and> (\<forall>b < data_start (sb s). \<not> free_block s b)"

text \<open>A block of files and directories.\<close>

definition data_blk :: "superblock \<Rightarrow> nat \<Rightarrow> bool" where
  "data_blk x b \<longleftrightarrow> data_start x \<le> b \<and> b < unat (sb_size x)"

lemma tx_frame_kfs:
  assumes "tx_frame s t"
  shows "icache t = icache s" "sb t = sb s" "ftable t = ftable s" "pipes t = pipes s" "fs_layout t = fs_layout s"
  using assms by (auto simp: tx_frame_def fs_layout_def)

lemma unat_BBLOCK:
  assumes "fs_layout s" "b < unat (sb_size (sb s))"
  shows "unat (BBLOCK b (sb s)) = unat (sb_bmapstart (sb s)) + b div BPB"
    "unat (BBLOCK b (sb s)) < data_start (sb s)" "in_disk s (BBLOCK b (sb s))"
    "BBLOCK b (sb s) \<notin> log_area s" "unat (BBLOCK b (sb s)) > 1"
proof -
  have le: "b div BPB \<le> unat (sb_size (sb s)) div BPB" using assms(2) by (simp add: div_le_mono)
  have L: "data_start (sb s) \<le> unat (sb_size (sb s))" "unat (sb_size (sb s)) \<le> length (memdisk s)"
    "length (memdisk s) < 2 ^ 31" using assms(1) by (simp_all add: fs_layout_def Let_def)
  then have "unat (sb_bmapstart (sb s)) + b div BPB < length (memdisk s)" using le unfolding data_start_def by linarith
  then have "unat (sb_bmapstart (sb s)) + b div BPB < 2 ^ 32" using L(3) by simp
  then show u: "unat (BBLOCK b (sb s)) = unat (sb_bmapstart (sb s)) + b div BPB"
    unfolding BBLOCK_def by (simp only: add.commute [of "of_nat _ :: uint"] unat_add_of_nat)
  show d: "unat (BBLOCK b (sb s)) < data_start (sb s)" using u le by (simp add: data_start_def)
  then show "in_disk s (BBLOCK b (sb s))" using L by (simp add: in_disk_def)
  show "BBLOCK b (sb s) \<notin> log_area s" "unat (BBLOCK b (sb s)) > 1"
    using assms(1) u by (auto simp: fs_layout_def log_area_def Let_def)
qed

lemma BBLOCK_eq:
  assumes "fs_layout s" "b < unat (sb_size (sb s))" "b' < unat (sb_size (sb s))"
  shows "BBLOCK b (sb s) = BBLOCK b' (sb s) \<longleftrightarrow> b div BPB = b' div BPB"
  using unat_BBLOCK(1) [OF assms(1)] assms(2,3) by (simp add: word_unat_eq_iff)

lemma data_blk_props:
  assumes "fs_layout s" "data_blk (sb s) b"
  shows "unat (of_nat b :: uint) = b" "in_disk s (of_nat b)" "of_nat b \<notin> log_area s" "1 < b" "b < 2 ^ 31"
    "b' < unat (sb_size (sb s)) \<Longrightarrow> of_nat b \<noteq> BBLOCK b' (sb s)"
proof -
  have L: "b < unat (sb_size (sb s))" "unat (sb_size (sb s)) \<le> length (memdisk s)" "length (memdisk s) < 2 ^ 31"
    using assms by (simp_all add: fs_layout_def Let_def data_blk_def)
  then show u: "unat (of_nat b :: uint) = b" "b < 2 ^ 31" by (simp_all add: unat_of_nat)
  show "in_disk s (of_nat b)" using L u by (simp add: in_disk_def)
  show "of_nat b \<notin> log_area s" "1 < b"
    using assms u by (auto simp: fs_layout_def log_area_def Let_def data_blk_def data_start_def)
  assume "b' < unat (sb_size (sb s))"
  then have "unat (BBLOCK b' (sb s)) < data_start (sb s)" by (rule unat_BBLOCK [OF assms(1)])
  then show "of_nat b \<noteq> BBLOCK b' (sb s)" using u assms(2) by (auto simp: data_blk_def)
qed

lemma free_data: "fs_ok s \<Longrightarrow> free_block s b \<Longrightarrow> data_blk (sb s) b"
  by (auto simp: fs_ok_def free_block_def data_blk_def not_less [symmetric])

text \<open>Changes to blocks other than the super block and the bitmap keep the free blocks.\<close>

lemma fs_ok_cong:
  assumes "tx_frame s t" "view t 1 = view s 1"
    "\<And>b. b < unat (sb_size (sb s)) \<Longrightarrow> view t (BBLOCK b (sb s)) = view s (BBLOCK b (sb s))"
  shows "fs_ok t = fs_ok s" "free_block t = free_block s"
proof -
  show f: "free_block t = free_block s"
    using assms by (auto simp: free_block_def fun_eq_iff tx_frame_kfs)
  show "fs_ok t = fs_ok s"
    unfolding fs_ok_def f using assms tx_frame_kfs [OF assms(1)] by simp
qed

lemma fs_ok_view:
  assumes "tx_frame s t" "view t = view s"
  shows "fs_ok t = fs_ok s" "free_block t = free_block s"
  by (rule fs_ok_cong [OF assms(1)]; simp add: assms(2))+

subsection \<open>Zeroing a block\<close>

text \<open>The blocks that may be changed, with the room the log has for them.\<close>

definition room :: "'a klog_scheme \<Rightarrow> uint set \<Rightarrow> uint set \<Rightarrow> nat \<Rightarrow> bool" where
  "room s L H k \<longleftrightarrow> tx s L H \<and> card L + k \<le> log_cap s \<and> card H \<le> k"

lemma roomD:
  assumes "room s L H k"
  shows "tx s L H" "finite L" "finite H" "card (H \<union> L) < NBUF" "1 \<le> k \<Longrightarrow> card L < log_cap s"
proof -
  show t: "tx s L H" using assms by (simp add: room_def)
  obtain n where n: "finite L" "log_geom s" "held s = H" by (rule txD [OF t(1)])
  show "finite L" by (rule n)
  have "held s \<subseteq> (\<lambda>i. blockno (bufs s ! i)) ` {..<NBUF}" by (auto simp: held_def has_buf_def)
  then show "finite H" using n(3) finite_subset by blast
  have "log_cap s \<le> 29" using n(2) by (auto simp: log_geom_def log_cap_def const_simps)
  then show "card (H \<union> L) < NBUF"
    using assms card_Un_le [of H L] by (simp add: room_def const_simps)
  show "1 \<le> k \<Longrightarrow> card L < log_cap s" using assms by (simp add: room_def)
qed

lemma room_log:
  assumes "room s L H (Suc k)" "tx t (insert bn L) H" "tx_frame s t" "card H \<le> k"
  shows "room t (insert bn L) H k"
proof -
  have "card (insert bn L) \<le> Suc (card L)" using roomD(2) [OF assms(1)] by (simp add: card_insert_if)
  moreover have "log_cap t = log_cap s" using assms(3) by (simp add: log_cap_def tx_frame_fields)
  ultimately show ?thesis using assms by (simp add: room_def)
qed

lemma room_keep: "room s L H k \<Longrightarrow> tx t L H \<Longrightarrow> tx_frame s t \<Longrightarrow> room t L H k"
  by (simp add: room_def log_cap_def tx_frame_fields)

lemma room_less: "room s L H k \<Longrightarrow> j \<le> k \<Longrightarrow> card H \<le> j \<Longrightarrow> room s L H j"
  by (simp add: room_def)

lemma poke_ok:
  assumes "room s L H (Suc k)" "in_disk s bn" "bn \<notin> H" "bn \<notin> log_area s" "card H \<le> k"
    "length (f (view s bn)) = BSIZE"
  obtains t where "rbind (bread 1 bn s) (\<lambda>(b, s). let s = set_bdata b (f (bdata (bufs s ! b))) s
      in rbind (log_write b s) (\<lambda>s. brelse b s)) = Ret t"
    "room t (insert bn L) H k" "view t = (view s)(bn := f (view s bn))" "tx_frame s t"
    "\<And>b' n. holds s b' n \<Longrightarrow> holds t b' n"
proof -
  note R = roomD [OF assms(1)]
  obtain t where t: "rbind (bread 1 bn s) (\<lambda>(b, s). rbind (logged_write b (f (bdata (bufs s ! b))) s) (brelse b)) = Ret t"
    "tx t (insert bn L) H" "view t = (view s)(bn := f (view s bn))" "tx_frame s t"
    "\<And>b' n. holds s b' n \<Longrightarrow> holds t b' n"
    by (rule st.poke [of s L H bn f]) (use R assms in simp_all)
  show thesis
    by (rule that [OF _ room_log [OF assms(1) t(2,4) assms(5)] t(3-5)])
      (use t(1) in \<open>simp_all add: logged_write_def Let_def\<close>)
qed

lemma bzero_ok:
  assumes "room s L H (Suc k)" "in_disk s bn" "bn \<notin> H" "bn \<notin> log_area s" "card H \<le> k"
  obtains t where "bzero 1 bn s = Ret t" "room t (insert bn L) H k"
    "view t = (view s)(bn := replicate BSIZE 0)" "tx_frame s t" "\<And>b' n. holds s b' n \<Longrightarrow> holds t b' n"
  by (rule poke_ok [OF assms, of "\<lambda>_. replicate BSIZE 0"]) (auto simp: bzero_def intro: that)

subsection \<open>Allocating\<close>

text \<open>Blocks that may be held while the allocator runs: neither of the bitmap, nor free.\<close>

definition no_alloc :: "'a kfs_scheme \<Rightarrow> uint set \<Rightarrow> bool" where
  "no_alloc s H \<longleftrightarrow> (\<forall>b < unat (sb_size (sb s)). BBLOCK b (sb s) \<notin> H) \<and> (\<forall>b. free_block s b \<longrightarrow> of_nat b \<notin> H) \<and> 1 \<notin> H"

definition taken_view :: "superblock \<Rightarrow> nat \<Rightarrow> (uint \<Rightarrow> block) \<Rightarrow> uint \<Rightarrow> block" where
  "taken_view x b v = v(BBLOCK b x := mark_bit (v (BBLOCK b x)) (b mod BPB), of_nat b := replicate BSIZE 0)"

lemma balloc_mark:
  assumes r: "room s L H (Suc (Suc k))" "card H \<le> k" and ok: "fs_ok s" and f: "free_block s b" and n: "no_alloc s H"
  obtains t where "rbind (bread 1 (BBLOCK b (sb s)) s) (\<lambda>(bp, s).
      let s = set_bdata bp (mark_bit (bdata (bufs s ! bp)) (b mod BPB)) s
      in rbind (log_write bp s) (\<lambda>s. rbind (brelse bp s) (\<lambda>s.
         rbind (bzero 1 (of_nat b) s) (\<lambda>s. Ret (of_nat b :: uint, s))))) = Ret (of_nat b, t)"
    "room t (insert (of_nat b) (insert (BBLOCK b (sb s)) L)) H k" "view t = taken_view (sb s) b (view s)"
    "tx_frame s t" "\<And>b' n. holds s b' n \<Longrightarrow> holds t b' n"
proof -
  have lay: "fs_layout s" using ok by (simp add: fs_ok_def)
  have b: "b < unat (sb_size (sb s))" "data_blk (sb s) b"
    using f free_data [OF ok f] by (simp_all add: free_block_def)
  note B = unat_BBLOCK [OF lay b(1)] and D = data_blk_props [OF lay b(2)]
  have len: "length (view s (BBLOCK b (sb s))) = BSIZE" by (rule st.cont_len [OF roomD(1) [OF r(1)] B(3)])
  have h: "BBLOCK b (sb s) \<notin> H" "of_nat b \<notin> H" using n f b(1) by (auto simp: no_alloc_def)
  obtain u where u: "rbind (bread 1 (BBLOCK b (sb s)) s) (\<lambda>(bp, s).
      let s = set_bdata bp (mark_bit (bdata (bufs s ! bp)) (b mod BPB)) s
      in rbind (log_write bp s) (\<lambda>s. brelse bp s)) = Ret u"
    "room u (insert (BBLOCK b (sb s)) L) H (Suc k)"
    "view u = (view s)(BBLOCK b (sb s) := mark_bit (view s (BBLOCK b (sb s))) (b mod BPB))"
    "tx_frame s u" "\<And>b' n. holds s b' n \<Longrightarrow> holds u b' n"
    by (rule poke_ok [OF r(1) B(3) h(1) B(4), of "\<lambda>d. mark_bit d (b mod BPB)"]) (use r(2) len in auto)
  have "in_disk u (of_nat b)" "of_nat b \<notin> log_area u"
    using D(2,3) u(4) by (simp_all add: in_disk_def tx_frame_fields)
  then obtain t where t: "bzero 1 (of_nat b) u = Ret t" "room t (insert (of_nat b) (insert (BBLOCK b (sb s)) L)) H k"
    "view t = (view u)(of_nat b := replicate BSIZE 0)" "tx_frame u t" "\<And>b' n. holds u b' n \<Longrightarrow> holds t b' n"
    using bzero_ok [OF u(2) _ h(2) _ r(2)] by metis
  have "rbind (bread 1 (BBLOCK b (sb s)) s) (\<lambda>(bp, s).
      let s = set_bdata bp (mark_bit (bdata (bufs s ! bp)) (b mod BPB)) s
      in rbind (log_write bp s) (\<lambda>s. rbind (brelse bp s) (\<lambda>s.
         rbind (bzero 1 (of_nat b) s) (\<lambda>s. Ret (of_nat b :: uint, s))))) =
      rbind (Ret u) (\<lambda>s. rbind (bzero 1 (of_nat b) s) (\<lambda>s. Ret (of_nat b :: uint, s)))"
    unfolding u(1) [symmetric] by (cases "bread 1 (BBLOCK b (sb s)) s") (auto simp: Let_def rbind_assoc)
  then show thesis
    using that [OF _ t(2) _ tx_frame_trans [OF u(4) t(4)]] t(1,3,5) u(3,5) by (simp add: taken_view_def)
qed

lemma find_upt:
  "find P [0..<n] = (if \<exists>i < n. P i then Some (LEAST i. P i) else None)"
proof (cases "find P [0..<n]")
  case None
  then show ?thesis by (auto simp: find_None_iff)
next
  case (Some i)
  then have i: "i < n" "P i" "\<forall>j < i. \<not> P j" by (auto simp: find_Some_iff)
  then have "(LEAST i. P i) = i" by (intro Least_equality) (auto simp: not_less [symmetric])
  with i Some show ?thesis by auto
qed

lemma balloc_scan:
  assumes "fs_layout s" "b mod BPB = 0" "b < unat (sb_size (sb s))" "i < min BPB (unat (sb_size (sb s)) - b)"
  shows "bit_clear (view s (BBLOCK b (sb s))) i \<longleftrightarrow> free_block s (b + i)"
proof -
  have i: "i < BPB" "b + i < unat (sb_size (sb s))" using assms(4) by auto
  have "(b + i) mod BPB = i" using assms(2) i(1) mod_add_left_eq [of b BPB i] by simp
  moreover have "(b + i) div BPB = b div BPB"
    using assms(2) i(1) div_add1_eq [of b i BPB] by simp
  ultimately show ?thesis by (simp add: free_block_def i(2) BBLOCK_def)
qed

text \<open>What an allocation from \<open>s\<close> with result \<open>r\<close> does.\<close>

definition takes_block :: "'a kfs_scheme \<Rightarrow> uint set \<Rightarrow> uint set \<Rightarrow> nat \<Rightarrow> (uint \<times> 'a kfs_scheme) result \<Rightarrow> bool" where
  "takes_block s L H k r \<longleftrightarrow>
     (if \<exists>c. free_block s c
      then \<exists>t. let c = LEAST c. free_block s c in r = Ret (of_nat c, t) \<and>
        room t (insert (of_nat c) (insert (BBLOCK c (sb s)) L)) H k \<and> view t = taken_view (sb s) c (view s) \<and>
        tx_frame s t \<and> (\<forall>b' n. holds s b' n \<longrightarrow> holds t b' n)
      else r = Panic ''balloc: out of blocks'')"

lemma takes_block_later:
  assumes "takes_block v L H k r" "tx_frame s v" "view v = view s" "\<And>b' n. holds s b' n \<Longrightarrow> holds v b' n"
  shows "takes_block s L H k r"
proof (cases "\<exists>c. free_block s c")
  case True
  note C = fs_ok_view [OF assms(2,3)] and K = tx_frame_kfs [OF assms(2)]
  obtain t where "r = Ret (of_nat (LEAST c. free_block s c), t)"
    "room t (insert (of_nat (LEAST c. free_block s c)) (insert (BBLOCK (LEAST c. free_block s c) (sb s)) L)) H k"
    "view t = taken_view (sb s) (LEAST c. free_block s c) (view s)" "tx_frame v t" "\<forall>b' n. holds v b' n \<longrightarrow> holds t b' n"
    using assms(1) True unfolding takes_block_def C K assms(3) Let_def by auto
  then show ?thesis
    using True assms(4) tx_frame_trans [OF assms(2)] by (auto simp: takes_block_def Let_def)
next
  case False
  then show ?thesis using assms(1) fs_ok_view [OF assms(2,3)] by (simp add: takes_block_def)
qed

text \<open>A block of the bitmap without a free bit is released again.\<close>

lemma balloc_skip:
  assumes r: "room s L H k" "fs_layout s" "b < fsz" "fsz = unat (sb_size (sb s))" "BBLOCK b (sb s) \<notin> H"
    and none: "find (bit_clear (view s (BBLOCK b (sb s)))) [0..<min BPB (fsz - b)] = None"
  obtains v where "balloc_loop 1 fsz b s = balloc_loop 1 fsz (b + BPB) v" "room v L H k" "tx_frame s v"
    "view v = view s" "\<And>b' n. holds s b' n \<Longrightarrow> holds v b' n"
proof -
  have b: "b < unat (sb_size (sb s))" using r(3,4) by simp
  note B = unat_BBLOCK [OF r(2) b] and R = roomD [OF r(1)]
  obtain bp u where u: "bread 1 (BBLOCK b (sb s)) s = Ret (bp, u)" "tx u L (insert (BBLOCK b (sb s)) H)"
    "view u = view s" "holds u bp (BBLOCK b (sb s))" "bdata (bufs u ! bp) = view s (BBLOCK b (sb s))" "tx_frame s u"
    "\<forall>b' n. holds s b' n \<longrightarrow> holds u b' n"
    using st.rd_ok [OF R(1) B(3) r(5) R(4)] by blast
  obtain v where v: "brelse bp u = Ret v" "tx v L (insert (BBLOCK b (sb s)) H - {BBLOCK b (sb s)})"
    "view v = view u" "tx_frame u v" "\<forall>b' n. n \<noteq> BBLOCK b (sb s) \<longrightarrow> holds u b' n \<longrightarrow> holds v b' n"
    using st.rel_ok [OF u(2,4)] by blast
  have fr: "tx_frame s v" by (rule tx_frame_trans [OF u(6) v(4)])
  have "insert (BBLOCK b (sb s)) H - {BBLOCK b (sb s)} = H" using r(5) by blast
  then have rv: "room v L H k" using v(2) fr r(1) by (simp add: room_keep)
  have hold: "holds v b' n" if "holds s b' n" for b' n
    using that u(7) v(5) st.own_dat [OF R(1) that] r(5) by metis
  have "balloc_loop 1 fsz b s = balloc_loop 1 fsz (b + BPB) v"
    by (subst balloc_loop.simps) (simp add: r(3) u(1,5) none v(1))
  moreover have "view v = view s" using u(3) v(3) by simp
  ultimately show thesis using that [of v] rv fr hold by blast
qed

lemma balloc_hit:
  assumes r: "room s L H (Suc (Suc k))" "card H \<le> k" "fs_ok s" "no_alloc s H" "b mod BPB = 0"
    and nf: "\<forall>c < b. \<not> free_block s c" and sz: "fsz = unat (sb_size (sb s))" "b < fsz"
    and found: "find (bit_clear (view s (BBLOCK b (sb s)))) [0..<min BPB (fsz - b)] = Some i"
  shows "takes_block s L H k (balloc_loop 1 fsz b s)"
proof -
  have lay: "fs_layout s" and b: "b < unat (sb_size (sb s))" using r(3) sz by (simp_all add: fs_ok_def)
  have i: "i < min BPB (fsz - b)" "bit_clear (view s (BBLOCK b (sb s))) i"
    "\<forall>j < i. \<not> bit_clear (view s (BBLOCK b (sb s))) j"
    using found by (auto simp: find_Some_iff)
  note scan = balloc_scan [OF lay r(5) b]
  have free: "free_block s (b + i)" using i scan sz by simp
  have least: "(LEAST c. free_block s c) = b + i"
  proof (rule Least_equality [of "free_block s", OF free], rule ccontr)
    fix c assume c: "free_block s c" "\<not> b + i \<le> c"
    then have "\<not> c < b" using nf by blast
    then obtain j where j: "c = b + j" using le_Suc_ex not_less by blast
    then have "j < i" using c(2) by simp
    then show False using i(3) scan [of j] c(1) j i(1) sz by simp
  qed
  have mod: "(b + i) mod BPB = i" "BBLOCK (b + i) (sb s) = BBLOCK b (sb s)"
    using r(5) i(1) mod_add_left_eq [of b BPB i] div_add1_eq [of b i BPB] by (simp_all add: BBLOCK_def)
  have nh: "BBLOCK b (sb s) \<notin> H" using r(4) b by (simp add: no_alloc_def)
  note R = roomD [OF r(1)]
  obtain bp u where u: "bread 1 (BBLOCK b (sb s)) s = Ret (bp, u)" "bdata (bufs u ! bp) = view s (BBLOCK b (sb s))"
    using st.rd_ok [OF R(1) unat_BBLOCK(3) [OF lay b] nh R(4)] by blast
  obtain t where t: "rbind (bread 1 (BBLOCK (b + i) (sb s)) s) (\<lambda>(bp, s).
      let s = set_bdata bp (mark_bit (bdata (bufs s ! bp)) ((b + i) mod BPB)) s
      in rbind (log_write bp s) (\<lambda>s. rbind (brelse bp s) (\<lambda>s.
         rbind (bzero 1 (of_nat (b + i)) s) (\<lambda>s. Ret (of_nat (b + i) :: uint, s))))) = Ret (of_nat (b + i), t)"
    "room t (insert (of_nat (b + i)) (insert (BBLOCK (b + i) (sb s)) L)) H k"
    "view t = taken_view (sb s) (b + i) (view s)" "tx_frame s t" "\<And>b' n. holds s b' n \<Longrightarrow> holds t b' n"
    by (rule balloc_mark [OF r(1-3) free r(4)]) blast
  have "balloc_loop 1 fsz b s = Ret (of_nat (b + i), t)"
    using t(1) unfolding mod by (subst balloc_loop.simps) (simp add: b sz(1) u found [unfolded sz(1)])
  then show ?thesis using t(2-5) free least by (auto simp: takes_block_def Let_def)
qed

lemma balloc_loop_ok:
  assumes "room s L H (Suc (Suc k))" "card H \<le> k" "fs_ok s" "no_alloc s H" "b mod BPB = 0"
    "\<forall>c < b. \<not> free_block s c" "fsz = unat (sb_size (sb s))"
  shows "takes_block s L H k (balloc_loop 1 fsz b s)"
  using assms
proof (induction "fsz - b" arbitrary: b s rule: less_induct)
  case less
  have lay: "fs_layout s" using less.prems(3) by (simp add: fs_ok_def)
  consider "\<not> b < fsz" | i where "b < fsz" "find (bit_clear (view s (BBLOCK b (sb s)))) [0..<min BPB (fsz - b)] = Some i"
    | "b < fsz" "find (bit_clear (view s (BBLOCK b (sb s)))) [0..<min BPB (fsz - b)] = None" by fastforce
  then show ?case
  proof cases
    case 1
    then have "\<not> (\<exists>c. free_block s c)" using less.prems(6,7) by (force simp: free_block_def)
    then show ?thesis using 1 by (simp add: takes_block_def balloc_loop.simps)
  next
    case 2
    then show ?thesis by (intro balloc_hit less.prems)
  next
    case 3
    have nh: "BBLOCK b (sb s) \<notin> H" using less.prems(4,7) 3(1) by (simp add: no_alloc_def)
    obtain v where v: "balloc_loop 1 fsz b s = balloc_loop 1 fsz (b + BPB) v" "room v L H (Suc (Suc k))" "tx_frame s v"
      "view v = view s" "\<And>b' n. holds s b' n \<Longrightarrow> holds v b' n"
      by (rule balloc_skip [OF less.prems(1) lay 3(1) less.prems(7) nh 3(2)]) blast
    note C = fs_ok_view [OF v(3,4)] and K = tx_frame_kfs [OF v(3)]
    have "\<not> free_block s (b + i)" if "i < BPB" for i
      using that 3(2) balloc_scan [OF lay less.prems(5), of i] less.prems(7) 3(1)
      by (cases "i < fsz - b") (auto simp: find_None_iff free_block_def)
    then have nf: "\<forall>c < b + BPB. \<not> free_block s c"
      using less.prems(6) by (metis add_less_cancel_left le_Suc_ex not_less)
    have "takes_block v L H k (balloc_loop 1 fsz (b + BPB) v)"
    proof (rule less.hyps)
      show "fsz - (b + BPB) < fsz - b" using 3(1) by (simp add: const_simps)
      show "no_alloc v H" using less.prems(4) by (simp add: no_alloc_def K C)
      show "\<forall>c < b + BPB. \<not> free_block v c" using nf by (simp add: C)
    qed (use less.prems K C v(2) in simp_all)
    then show ?thesis unfolding v(1) by (rule takes_block_later [OF _ v(3-5)])
  qed
qed

lemma free_taken:
  assumes ok: "fs_ok s" "tx s L H" and f: "free_block s c" and t: "tx_frame s t" "view t = taken_view (sb s) c (view s)"
  shows "free_block t b \<longleftrightarrow> free_block s b \<and> b \<noteq> c" "fs_ok t"
proof -
  have lay: "fs_layout s" and c: "c < unat (sb_size (sb s))" "data_blk (sb s) c"
    using ok f free_data [OF ok(1) f] by (simp_all add: fs_ok_def free_block_def)
  note B = unat_BBLOCK [OF lay c(1)] and D = data_blk_props [OF lay c(2)] and K = tx_frame_kfs [OF t(1)]
  have len: "length (view s (BBLOCK c (sb s))) = BSIZE" by (rule st.cont_len [OF ok(2) B(3)])
  have fb: "free_block t b \<longleftrightarrow> free_block s b \<and> b \<noteq> c" for b
  proof (cases "b < unat (sb_size (sb s))")
    case True
    have "of_nat c \<noteq> BBLOCK b (sb s)" by (rule D(6) [OF True])
    moreover have "BBLOCK b (sb s) = BBLOCK c (sb s) \<Longrightarrow> b mod BPB = c mod BPB \<longleftrightarrow> b = c"
      unfolding BBLOCK_eq [OF lay True c(1)] by (metis div_mult_mod_eq)
    moreover have "c mod BPB div 8 < length (view s (BBLOCK c (sb s)))"
      unfolding len by (simp add: const_simps less_mult_imp_div_less)
    ultimately show ?thesis
      using True by (auto simp: free_block_def K t(2) taken_view_def bit_clear_mark)
  qed (auto simp: free_block_def K)
  show "free_block t b \<longleftrightarrow> free_block s b \<and> b \<noteq> c" by (rule fb)
  have "(1::uint) \<noteq> of_nat c" using D(1,4) by (metis less_irrefl unat_1)
  moreover have "1 \<noteq> BBLOCK c (sb s)" using B(5) by (metis less_irrefl unat_1)
  ultimately have "view t 1 = view s 1" by (simp add: t(2) taken_view_def)
  then show "fs_ok t" using ok K fb by (simp add: fs_ok_def)
qed

lemma balloc_ok:
  assumes r: "room s L H (Suc (Suc k))" "card H \<le> k" and ok: "fs_ok s" "no_alloc s H" and f: "free_block s b"
  obtains c t where "c = (LEAST c. free_block s c)" "free_block s c" "balloc 1 s = Ret (of_nat c, t)"
    "room t (insert (of_nat c) (insert (BBLOCK c (sb s)) L)) H k" "view t = taken_view (sb s) c (view s)" "tx_frame s t"
    "\<And>b' n. holds s b' n \<Longrightarrow> holds t b' n" "fs_ok t" "\<And>b. free_block t b \<longleftrightarrow> free_block s b \<and> b \<noteq> c"
proof -
  define c where "c = (LEAST c. free_block s c)"
  have c: "free_block s c" unfolding c_def by (rule LeastI [of "free_block s", OF f])
  have "takes_block s L H k (balloc 1 s)"
    unfolding balloc_def by (rule balloc_loop_ok [OF r ok]) simp_all
  then obtain t where t: "balloc 1 s = Ret (of_nat c, t)" "room t (insert (of_nat c) (insert (BBLOCK c (sb s)) L)) H k"
    "view t = taken_view (sb s) c (view s)" "tx_frame s t" "\<forall>b' n. holds s b' n \<longrightarrow> holds t b' n"
    using f unfolding takes_block_def Let_def c_def [symmetric] by (auto split: if_splits)
  note F = free_taken [OF ok(1) roomD(1) [OF r(1)] c t(4,3)]
  show thesis by (rule that [OF c_def c t(1-4) _ F(2,1)]) (use t(5) in blast)
qed

lemma balloc_none:
  assumes "room s L H (Suc (Suc k))" "card H \<le> k" "fs_ok s" "no_alloc s H" "\<not> (\<exists>b. free_block s b)"
  shows "balloc 1 s = Panic ''balloc: out of blocks''"
  using balloc_loop_ok [OF assms(1-4), of 0] assms(5) by (simp add: balloc_def takes_block_def)

subsection \<open>Freeing\<close>

lemma readsb_ok:
  assumes r: "room s L H k" and ok: "fs_ok s" "1 \<notin> H"
  obtains t where "readsb 1 s = Ret (sb s, t)" "room t L H k" "view t = view s" "tx_frame s t"
    "\<And>b' n. holds s b' n \<Longrightarrow> holds t b' n"
proof -
  note R = roomD [OF r]
  have d: "in_disk s 1"
    using ok(1) by (auto simp: fs_ok_def fs_layout_def Let_def in_disk_def data_start_def)
  obtain b u t where u: "bread 1 1 s = Ret (b, u)" "bdata (bufs u ! b) = view s 1" "brelse b u = Ret t"
    and t: "tx t L H" "view t = view s" "tx_frame s t" "\<And>b' n. holds s b' n \<Longrightarrow> holds t b' n"
    by (rule st.peek [OF R(1) d ok(2) R(4)]) blast
  have "readsb 1 s = Ret (sb s, t)"
    using u ok(1) by (simp add: readsb_def Let_def fs_ok_def)
  then show thesis using that t room_keep [OF r] by blast
qed

definition freed_view :: "superblock \<Rightarrow> nat \<Rightarrow> (uint \<Rightarrow> block) \<Rightarrow> uint \<Rightarrow> block" where
  "freed_view x b v = v(BBLOCK b x := unmark_bit (v (BBLOCK b x)) (b mod BPB))"

lemma free_freed:
  assumes ok: "fs_ok s" "tx s L H" and c: "data_blk (sb s) c" and t: "tx_frame s t" "view t = freed_view (sb s) c (view s)"
  shows "free_block t b \<longleftrightarrow> free_block s b \<or> b = c" "fs_ok t"
proof -
  have lay: "fs_layout s" and c: "c < unat (sb_size (sb s))" "data_start (sb s) \<le> c"
    using ok c by (simp_all add: fs_ok_def data_blk_def)
  note B = unat_BBLOCK [OF lay c(1)] and K = tx_frame_kfs [OF t(1)]
  have len: "length (view s (BBLOCK c (sb s))) = BSIZE" by (rule st.cont_len [OF ok(2) B(3)])
  have fb: "free_block t b \<longleftrightarrow> free_block s b \<or> b = c" for b
  proof (cases "b < unat (sb_size (sb s))")
    case True
    have "BBLOCK b (sb s) = BBLOCK c (sb s) \<Longrightarrow> b mod BPB = c mod BPB \<longleftrightarrow> b = c"
      unfolding BBLOCK_eq [OF lay True c(1)] by (metis div_mult_mod_eq)
    moreover have "c mod BPB div 8 < length (view s (BBLOCK c (sb s)))"
      unfolding len by (simp add: const_simps less_mult_imp_div_less)
    ultimately show ?thesis
      using True by (auto simp: free_block_def K t(2) freed_view_def bit_clear_unmark)
  qed (use c in \<open>auto simp: free_block_def K\<close>)
  show "free_block t b \<longleftrightarrow> free_block s b \<or> b = c" by (rule fb)
  have "1 \<noteq> BBLOCK c (sb s)" using B(5) by (metis less_irrefl unat_1)
  then have "view t 1 = view s 1" by (simp add: t(2) freed_view_def)
  then show "fs_ok t" using ok K fb c(2) by (auto simp: fs_ok_def)
qed

lemma bfree_cases:
  assumes r: "room s L H (Suc k)" "card H \<le> k" and ok: "fs_ok s" "1 \<notin> H" and b: "data_blk (sb s) (unat b)" "BBLOCK (unat b) (sb s) \<notin> H"
  shows "free_block s (unat b) \<Longrightarrow> bfree 1 b s = Panic ''freeing free block''"
    "\<not> free_block s (unat b) \<Longrightarrow> \<exists>t. bfree 1 b s = Ret t \<and> room t (insert (BBLOCK (unat b) (sb s)) L) H k \<and>
       view t = freed_view (sb s) (unat b) (view s) \<and> tx_frame s t \<and> (\<forall>b' n. holds s b' n \<longrightarrow> holds t b' n)"
proof -
  have b': "unat b < unat (sb_size (sb s))" and lay: "fs_layout s" using b ok(1) by (simp_all add: data_blk_def fs_ok_def)
  obtain u where u: "readsb 1 s = Ret (sb s, u)" "room u L H (Suc k)" "view u = view s" "tx_frame s u"
    "\<And>b' n. holds s b' n \<Longrightarrow> holds u b' n"
    by (rule readsb_ok [OF r(1) ok]) blast
  note K = tx_frame_kfs [OF u(4)]
  have same: "u\<lparr>sb := sb s\<rparr> = u" using K(2) by simp
  have B: "in_disk u (BBLOCK (unat b) (sb s))" "BBLOCK (unat b) (sb s) \<notin> log_area u"
    using unat_BBLOCK [OF lay b'] u(4) by (simp_all add: in_disk_def tx_frame_fields)
  note R = roomD [OF u(2)]
  let ?bb = "BBLOCK (unat b) (sb s)" and ?bi = "unat b mod BPB"
  obtain bp w where w: "bread 1 ?bb u = Ret (bp, w)" "bdata (bufs w ! bp) = view s ?bb"
    using st.rd_ok [OF R(1) B(1) b(2) R(4)] u(3) by metis
  have fr: "free_block s (unat b) \<longleftrightarrow> bit_clear (view s ?bb) ?bi" by (simp add: free_block_def b')
  show "bfree 1 b s = Panic ''freeing free block''" if "free_block s (unat b)"
    using that by (simp add: bfree_def u(1) same K Let_def w fr)
  assume nf: "\<not> free_block s (unat b)"
  obtain t where t: "rbind (bread 1 ?bb u) (\<lambda>(bp, s). let s = set_bdata bp (unmark_bit (bdata (bufs s ! bp)) ?bi) s
      in rbind (log_write bp s) (\<lambda>s. brelse bp s)) = Ret t"
    "room t (insert ?bb L) H k" "view t = (view u)(?bb := unmark_bit (view u ?bb) ?bi)" "tx_frame u t"
    "\<And>b' n. holds u b' n \<Longrightarrow> holds t b' n"
    by (rule poke_ok [OF u(2) B(1) b(2) B(2) r(2), of "\<lambda>d. unmark_bit d ?bi"])
      (use st.cont_len [OF R(1) B(1)] in auto)
  have "bfree 1 b s = Ret t"
    using t(1) nf by (simp add: bfree_def u(1) same K Let_def w fr)
  then show "\<exists>t. bfree 1 b s = Ret t \<and> room t (insert ?bb L) H k \<and>
       view t = freed_view (sb s) (unat b) (view s) \<and> tx_frame s t \<and> (\<forall>b' n. holds s b' n \<longrightarrow> holds t b' n)"
    using t(2,3,5) u(3,5) tx_frame_trans [OF u(4) t(4)] by (auto simp: freed_view_def)
qed

subsection \<open>A small file system\<close>

text \<open>
  A disk of 64 blocks with an empty file system: log in blocks 2 to 31, sixteen inodes in
  blocks 32 to 34, bitmap in block 35, data from block 36 on; the machine is inside a system
  call that has logged nothing yet.
\<close>

definition sb0 :: superblock where
  "sb0 = \<lparr>sb_size = 64, sb_nblocks = 28, sb_ninodes = 16, sb_nlog = 30, sb_logstart = 2, sb_inodestart = 32,
     sb_bmapstart = 35\<rparr>"

definition sb_bytes :: block where
  "sb_bytes = concat (map le32 [64, 28, 16, 30, 2, 32, 35]) @ replicate 484 0"

definition bitmap0 :: block where
  "bitmap0 = [255, 255, 255, 255, 15] @ replicate 507 0"

definition disk0 :: "block list" where
  "disk0 = (replicate 64 (replicate BSIZE 0))[1 := sb_bytes, 35 := bitmap0]"

definition inode0 :: inode where
  "inode0 = \<lparr>i_type = 0, i_major = 0, i_minor = 0, i_nlink = 0, i_size = 0, i_addrs = replicate (NDIRECT + 1) 0,
     i_dev = 0, i_inum = 0, i_ref = 0, i_valid = False\<rparr>"

definition kfs0 :: kfs where
  "kfs0 = (binit (kbio0 0 (klog_ext 2 30 1 False 1 0 (replicate LOGSIZE 0)
     (kfile_ext (\<lambda>_. pipe0) (replicate NFILE \<lparr>ftype = FD_NONE, fref = 0, readable = False, writable = False,
       fpipe = 0, fip = 0, foff = 0\<rparr>)
     (kfs_ext (replicate NINODE inode0) sb0 ())))))\<lparr>memdisk := disk0\<rparr>"

lemma kbio0_disk:
  fixes x :: 'a and v :: uchar
  assumes "length m = 64" "\<And>d. d \<in> set m \<Longrightarrow> length d = BSIZE"
  defines "s \<equiv> (binit (kbio0 v x))\<lparr>memdisk := m\<rparr>"
  shows "bio_ok s" "held s = {}" "pinned s = {}" "view s bn = m ! unat bn"
proof -
  let ?k = "binit (kbio0 v x)"
  have nb: "\<not> has_buf s n i" "\<not> has_buf ?k n i" for n i
    using kbio0_fresh(3) [of v x n i] by (simp_all add: s_def has_buf_def)
  have nv: "\<not> is_valid (bufs ?k ! i)" if "i < NBUF" for i
    using kbio0_zero(2) [OF that, where v = v and x = x] core_eqD(6) [OF kbio0_binit(5) [where v = v and x = x]]
    by (simp add: is_valid_def)
  have "buf_ok s i" if "i < NBUF" for i
    using bio_invD(6) [OF kbio0_inv(1) [where v = v and x = x] that] nv [OF that]
    by (simp add: s_def buf_ok_def Let_def)
  then have "bio_inv s (rev [0..<NBUF])"
    using bio_invD [OF kbio0_inv(1) [where v = v and x = x]] assms(2) by (simp add: bio_inv_def uniq_def s_def)
  then show "bio_ok s" by (rule bio_okI)
  show "held s = {}" "pinned s = {}" using nb(1) by (simp_all add: held_def pinned_def)
  show "view s bn = m ! unat bn" using view_miss [of s bn] nb(1) by (simp add: s_def)
qed

lemma binit_kfs:
  "icache (binit s) = icache s" "sb (binit s) = sb s" "ftable (binit s) = ftable s"
proof -
  have "icache (binit_loop b n s) = icache s \<and> sb (binit_loop b n s) = sb s \<and> ftable (binit_loop b n s) = ftable s"
    for b n and s :: "'a kfs_scheme"
    by (induction b n s rule: binit_loop.induct) (simp_all add: Let_def initsleeplock_def initlock_def)
  then show "icache (binit s) = icache s" "sb (binit s) = sb s" "ftable (binit s) = ftable s"
    by (simp_all add: binit_def Let_def initlock_def)
qed

lemma disk0_len: "length disk0 = 64" "d \<in> set disk0 \<Longrightarrow> length d = BSIZE"
proof -
  show "length disk0 = 64" by (simp add: disk0_def)
  have "length sb_bytes = BSIZE" "length bitmap0 = BSIZE" by (simp_all add: sb_bytes_def bitmap0_def const_simps)
  then show "d \<in> set disk0 \<Longrightarrow> length d = BSIZE"
    unfolding disk0_def by (auto dest!: set_update_subset_insert [THEN subsetD])
qed

lemma kfs0_fields:
  "log_start kfs0 = 2" "log_size kfs0 = 30" "outstanding kfs0 = 1" "\<not> committing kfs0" "log_dev kfs0 = 1"
  "lh_n kfs0 = 0" "lh_block kfs0 = replicate LOGSIZE 0" "memdisk kfs0 = disk0" "icache kfs0 = replicate NINODE inode0"
  "sb kfs0 = sb0"
  by (simp_all add: kfs0_def binit_klog binit_kfs) (simp_all add: kbio0_def)

lemma kfs0_bio: "bio_ok kfs0" "held kfs0 = {}" "pinned kfs0 = {}" "view kfs0 bn = disk0 ! unat bn"
  unfolding kfs0_def by (rule kbio0_disk; simp add: disk0_len)+

lemma kfs0_tx: "tx kfs0 {} {}" "log_cap kfs0 = 29" "room kfs0 {} {} 29"
proof -
  have "open_log kfs0 0"
    by (simp add: open_log_def kfs0_bio kfs0_fields log_geom_def homes_ok_def disk0_len const_simps)
  then show t: "tx kfs0 {} {}" by (auto simp: tx_def kfs0_bio kfs0_fields)
  show c: "log_cap kfs0 = 29" by (simp add: log_cap_def kfs0_fields)
  show "room kfs0 {} {} 29" by (simp add: room_def t c)
qed

lemma kfs0_free: "free_block kfs0 b \<longleftrightarrow> 36 \<le> b \<and> b < 64"
proof -
  have "bit_clear bitmap0 b \<longleftrightarrow> 36 \<le> b" if "b < 64"
  proof (cases "b < 40")
    case True
    have "\<forall>b \<in> set [0..<40]. bit_clear [255, 255, 255, 255, 15] b \<longleftrightarrow> 36 \<le> b" by code_simp
    moreover have "bitmap0 ! (b div 8) = [255, 255, 255, 255, 15] ! (b div 8)"
      using True unfolding bitmap0_def by (subst nth_append) (simp add: less_mult_imp_div_less)
    ultimately show ?thesis using True unfolding bit_clear_def by simp
  next
    case False
    then have "bitmap0 ! (b div 8) = 0" using that by (simp add: bitmap0_def nth_append div_le_mono less_mult_imp_div_less)
    then show ?thesis using False by (simp add: bit_clear_def)
  qed
  moreover have "view kfs0 35 = bitmap0" by (simp add: kfs0_bio disk0_def)
  ultimately show ?thesis
    by (cases "b < 64") (auto simp: free_block_def kfs0_fields sb0_def BBLOCK_def const_simps)
qed

lemma kfs0_ok: "fs_ok kfs0"
proof -
  have "sb_decode sb_bytes = sb0" by code_simp
  then have "sb_decode (view kfs0 1) = sb kfs0" by (simp add: kfs0_bio disk0_def kfs0_fields)
  then show ?thesis
    by (auto simp: fs_ok_def fs_layout_def Let_def kfs0_free data_start_def kfs0_fields disk0_len sb0_def const_simps)
qed

subsection \<open>Properties\<close>

text \<open>
  C31.  \<^verbatim>\<open>balloc\<close> takes the least free block: in a transaction with room for two more blocks it
  returns the first block whose bit is clear, which it marks as used and fills with zeros; no
  other block but that of the bitmap changes, every other block stays free or used, the layout
  invariant holds, and no inode is touched.  It panics exactly if no block is free.
\<close>

theorem balloc_takes_least_free:
  assumes "tx s L {}" "card L + 2 \<le> log_cap s" "fs_ok s"
  shows "if \<exists>c. free_block s c
    then \<exists>c t. c = (LEAST c. free_block s c) \<and> balloc 1 s = Ret (of_nat c, t) \<and> data_blk (sb s) c \<and>
      view t (of_nat c) = replicate BSIZE 0 \<and> (\<forall>bn. bn \<noteq> of_nat c \<longrightarrow> bn \<noteq> BBLOCK c (sb s) \<longrightarrow> view t bn = view s bn) \<and>
      (\<forall>b. free_block t b \<longleftrightarrow> free_block s b \<and> b \<noteq> c) \<and> fs_ok t \<and> icache t = icache s \<and>
      tx t (insert (of_nat c) (insert (BBLOCK c (sb s)) L)) {}
    else balloc 1 s = Panic ''balloc: out of blocks''"
proof -
  have r: "room s L {} (Suc (Suc 0))" "card {} \<le> (0::nat)" "no_alloc s {}" using assms by (simp_all add: room_def no_alloc_def)
  show ?thesis
  proof (cases "\<exists>c. free_block s c")
    case True
    then obtain b where "free_block s b" ..
    then obtain c t where c: "c = (LEAST c. free_block s c)" "free_block s c" "balloc 1 s = Ret (of_nat c, t)"
      "room t (insert (of_nat c) (insert (BBLOCK c (sb s)) L)) {} 0" "view t = taken_view (sb s) c (view s)" "tx_frame s t"
      "fs_ok t" "\<And>b. free_block t b \<longleftrightarrow> free_block s b \<and> b \<noteq> c"
      by (rule balloc_ok [OF r(1,2) assms(3) r(3)]) blast
    then show ?thesis
      using True free_data [OF assms(3) c(2)] tx_frame_kfs(1) [OF c(6)] roomD(1) [OF c(4)]
      by (auto simp: taken_view_def)
  qed (use balloc_none [OF r(1,2) assms(3) r(3)] in simp)
qed

theorem balloc_takes_least_free_witness:
  "\<exists>t. balloc 1 kfs0 = Ret (36, t) \<and> view t 36 = replicate BSIZE 0 \<and> (\<forall>b. free_block t b \<longleftrightarrow> 37 \<le> b \<and> b < 64)"
proof -
  have l: "Least (free_block kfs0) = 36" by (rule Least_equality) (simp_all add: kfs0_free)
  have ex: "\<exists>c. free_block kfs0 c" using kfs0_free [of 40] by auto
  have c: "card ({} :: uint set) + 2 \<le> log_cap kfs0" by (simp add: kfs0_tx)
  obtain c t where t: "c = 36" "balloc 1 kfs0 = Ret (of_nat c, t)" "view t (of_nat c) = replicate BSIZE 0"
    "\<forall>b. free_block t b \<longleftrightarrow> free_block kfs0 b \<and> b \<noteq> c"
    using balloc_takes_least_free [OF kfs0_tx(1) c kfs0_ok, unfolded if_P [OF ex] l] by (elim exE conjE) (rule that)
  have "free_block t b \<longleftrightarrow> 37 \<le> b \<and> b < 64" for b using t(4) by (simp add: kfs0_free t(1)) linarith
  then show ?thesis using t(1-3) by (intro exI [of _ t]) simp
qed



end
