(* ===== verification/Icache.thy ===== *)
theory Icache
  imports Balloc
begin

text \<open>
  Inodes on the disk and in the cache (\<^verbatim>\<open>fs.c\<close>: \<^verbatim>\<open>ialloc\<close>, \<^verbatim>\<open>iupdate\<close>, \<^verbatim>\<open>iget\<close>, \<^verbatim>\<open>idup\<close>, \<^verbatim>\<open>ilock\<close>,
  \<^verbatim>\<open>iunlock\<close>).  The lemmas show that the byte layout of an inode is decoded to what was encoded,
  that \<^verbatim>\<open>iupdate\<close> writes one inode and \<^verbatim>\<open>ilock\<close> reads it back, and that the cache never holds two
  entries for one inode.
\<close>

subsection \<open>The byte layout\<close>

lemma un16_le16 [simp]: "un16 (ucast w) (ucast (drop_bit 8 w)) = w"
proof (rule bit_word_eqI)
  fix n assume "n < LENGTH(16)"
  then consider "n < 8" | "8 \<le> n" "n < 16" by fastforce
  then show "bit (un16 (ucast w) (ucast (drop_bit 8 w))) n = bit w n"
    by cases (auto simp: un16_def bit_simps)
qed

lemma length_le16 [simp]: "length (le16 w) = 2"
  by (simp add: le16_def)

lemma length_concat_le32 [simp]: "length (concat (map le32 as)) = 4 * length as"
  by (induction as) auto

lemma length_dinode_encode: "length (i_addrs di) = 13 \<Longrightarrow> length (dinode_encode di) = 64"
  by (simp add: dinode_encode_def)

lemma nth_concat_le32:
  "k < length as \<Longrightarrow> r < 4 \<Longrightarrow> concat (map le32 as) ! (4 * k + r) = le32 (as ! k) ! r"
proof (induction as arbitrary: k)
  case (Cons a as)
  show ?case
  proof (cases k)
    case 0
    then show ?thesis using Cons.prems by (simp add: nth_append)
  next
    case (Suc j)
    then have "4 * k + r = 4 + (4 * j + r)" by simp
    then have "concat (map le32 (a # as)) ! (4 * k + r) = concat (map le32 as) ! (4 * j + r)"
      by (simp only: list.map concat.simps) (simp add: nth_append)
    then show ?thesis using Cons Suc by simp
  qed
qed simp

lemma get32_concat:
  assumes "k < length as"
  shows "get32 (concat (map le32 as)) (4 * k) = as ! k"
  using nth_concat_le32 [OF assms, of 0] nth_concat_le32 [OF assms, of 1] nth_concat_le32 [OF assms, of 2]
    nth_concat_le32 [OF assms, of 3]
    un32_byte_of [of "as ! k"]
  by (simp add: get32_def le32_def numeral_2_eq_2 numeral_3_eq_3)

lemma get_splice:
  assumes "off + length e \<le> length d"
  shows "j + 4 \<le> length e \<Longrightarrow> get32 (splice d off e) (off + j) = get32 e j"
    "j + 2 \<le> length e \<Longrightarrow> get16 (splice d off e) (off + j) = get16 e j"
  using assms by (auto simp: get32_def get16_def splice_nth)

lemma get_splice_other:
  assumes "off + length e \<le> length d" "n \<le> length d"
  shows "j + 4 \<le> n \<Longrightarrow> j + 4 \<le> off \<or> off + length e \<le> j \<Longrightarrow> get32 (splice d off e) j = get32 d j"
    "j + 2 \<le> n \<Longrightarrow> j + 2 \<le> off \<or> off + length e \<le> j \<Longrightarrow> get16 (splice d off e) j = get16 d j"
  using assms by (auto simp: get32_def get16_def splice_nth)

lemma get32_append: "length xs = n \<Longrightarrow> get32 (xs @ ys) (n + j) = get32 ys j"
  by (simp add: get32_def nth_append)

lemma get_dinode_encode:
  "get16 (dinode_encode di) 0 = i_type di" "get16 (dinode_encode di) 2 = i_major di"
  "get16 (dinode_encode di) 4 = i_minor di" "get16 (dinode_encode di) 6 = i_nlink di"
  "get32 (dinode_encode di) 8 = i_size di"
  by (simp_all add: dinode_encode_def get16_def get32_def le16_def le32_def nth_append nth_Cons_numeral)

lemma get_dinode_addr:
  assumes "k < length (i_addrs di)"
  shows "get32 (dinode_encode di) (12 + 4 * k) = i_addrs di ! k"
proof -
  have "dinode_encode di = (le16 (i_type di) @ le16 (i_major di) @ le16 (i_minor di) @ le16 (i_nlink di) @
     le32 (i_size di)) @ concat (map le32 (i_addrs di))" by (simp add: dinode_encode_def)
  then show ?thesis using get32_concat [OF assms] by (simp only:) (subst get32_append; simp)
qed

lemma dinode_decode_encode:
  assumes "length (i_addrs di) = 13" "off + 64 \<le> length d"
  shows "dinode_decode (splice d off (dinode_encode di)) off = di"
proof -
  have L: "length (dinode_encode di) = 64" by (rule length_dinode_encode [OF assms(1)])
  note G = get_splice [of off "dinode_encode di" d, unfolded L, OF assms(2)]
  have a: "map (\<lambda>k. get32 (splice d off (dinode_encode di)) (off + 12 + 4 * k)) [0..<NDIRECT + 1] = i_addrs di"
  proof (rule nth_equalityI)
    show "length (map (\<lambda>k. get32 (splice d off (dinode_encode di)) (off + 12 + 4 * k)) [0..<NDIRECT + 1]) =
        length (i_addrs di)" using assms(1) by (simp add: NDIRECT_def)
    fix k assume "k < length (map (\<lambda>k. get32 (splice d off (dinode_encode di)) (off + 12 + 4 * k)) [0..<NDIRECT + 1])"
    then have k: "k < 13" by (simp add: NDIRECT_def)
    then have "get32 (splice d off (dinode_encode di)) (off + (12 + 4 * k)) = i_addrs di ! k"
      using G(1) [of "12 + 4 * k"] get_dinode_addr [of k di] assms(1) by simp
    then show "map (\<lambda>k. get32 (splice d off (dinode_encode di)) (off + 12 + 4 * k)) [0..<NDIRECT + 1] ! k = i_addrs di ! k"
      using k by (simp add: NDIRECT_def add.assoc nth_append del: upt_Suc)
  qed
  show ?thesis
    unfolding dinode_decode_def a using G(2) [of 0] G(2) [of 2] G(2) [of 4] G(2) [of 6] G(1) [of 8]
    by (simp add: get_dinode_encode)
qed

lemma dinode_decode_other:
  assumes "length e = 64" "off + 64 \<le> length d" "off' + 64 \<le> length d" "off' + 64 \<le> off \<or> off + 64 \<le> off'"
  shows "dinode_decode (splice d off e) off' = dinode_decode d off'"
proof -
  note G = get_splice_other [of off e d "length d", unfolded assms(1), OF assms(2) order_refl]
  have "get32 (splice d off e) (off' + 12 + 4 * k) = get32 d (off' + 12 + 4 * k)" if "k < NDIRECT + 1" for k
    using that assms(3,4) by (intro G(1)) (auto simp: NDIRECT_def)
  then show ?thesis
    using G(2) [of off'] G(2) [of "off' + 2"] G(2) [of "off' + 4"] G(2) [of "off' + 6"] G(1) [of "off' + 8"] assms(3,4)
    by (auto simp: dinode_decode_def)
qed

subsection \<open>States with the same blocks\<close>

text \<open>
  The block store does not see the inode cache and its locks.
\<close>

lemma bio_cong_bufs:
  assumes "same_cpu s t" "length (ptable s) = length (ptable t)" "cur_pid s = cur_pid t"
    "\<And>b. sleepl s (BufLock b) = sleepl t (BufLock b)" "bufs s = bufs t" "memdisk s = memdisk t"
  shows "bio_ok s = bio_ok t" "view s = view t" "held s = held t" "pinned s = pinned t" "holds s = holds t"
proof -
  have u: "unlocked s = unlocked t" using assms by (simp add: unlocked_def fun_eq_iff)
  have h: "has_buf s = has_buf t" using assms by (simp add: has_buf_def fun_eq_iff)
  have "quiet s = quiet t" by (rule quiet_same) (use assms in simp_all)
  then show "bio_ok s = bio_ok t"
    using assms u by (simp add: bio_ok_def bio_inv_def buf_ok_def uniq_def)
  show "view s = view t" using assms by (auto simp: view_def split: option.split)
  show "held s = held t" "pinned s = pinned t" using assms u h by (simp_all add: held_def pinned_def)
  show "holds s = holds t" using h assms by (simp add: holds_def slheld_def fun_eq_iff)
qed

definition same_blocks :: "'a kfs_scheme \<Rightarrow> 'a kfs_scheme \<Rightarrow> bool" where
  "same_blocks s t \<longleftrightarrow> same_cpu s t \<and> length (ptable s) = length (ptable t) \<and> cur_pid s = cur_pid t \<and>
     (\<forall>b. sleepl s (BufLock b) = sleepl t (BufLock b)) \<and> bufs s = bufs t \<and> memdisk s = memdisk t \<and>
     log_start s = log_start t \<and> log_size s = log_size t \<and> outstanding s = outstanding t \<and> log_dev s = log_dev t \<and>
     lh_n s = lh_n t \<and> lh_block s = lh_block t \<and> sb s = sb t"

lemma same_blocksD:
  assumes "same_blocks s t"
  shows "tx s = tx t" "view s = view t" "holds s = holds t" "room s = room t" "fs_ok s = fs_ok t"
    "free_block s = free_block t" "in_disk s = in_disk t" "log_area s = log_area t" "no_alloc s = no_alloc t" "sb s = sb t"
    "log_cap s = log_cap t" "quiet s = quiet t" "fs_layout s = fs_layout t"
proof -
  have c: "same_cpu s t" "length (ptable s) = length (ptable t)" "cur_pid s = cur_pid t"
    "\<And>b. sleepl s (BufLock b) = sleepl t (BufLock b)" "bufs s = bufs t" "memdisk s = memdisk t"
    using assms by (simp_all add: same_blocks_def)
  note B = bio_cong_bufs [OF c]
  have g: "log_start s = log_start t" "log_size s = log_size t" "outstanding s = outstanding t" "log_dev s = log_dev t"
    "lh_n s = lh_n t" "lh_block s = lh_block t" "sb s = sb t" using assms by (simp_all add: same_blocks_def)
  show a: "log_area s = log_area t" using g by (simp add: log_area_def)
  have "open_log s n = open_log t n" for n
    using B g c a by (simp add: open_log_def log_geom_def homes_ok_def)
  then show tx: "tx s = tx t" using B g c by (simp add: tx_def fun_eq_iff)
  show "view s = view t" "holds s = holds t" "sb s = sb t" by (simp_all add: B g)
  show cap: "log_cap s = log_cap t" using g by (simp add: log_cap_def)
  show "room s = room t" using tx cap by (simp add: room_def fun_eq_iff)
  show fb: "free_block s = free_block t" using B g by (simp add: free_block_def fun_eq_iff)
  show lay: "fs_layout s = fs_layout t" using g c by (simp add: fs_layout_def)
  show "fs_ok s = fs_ok t" using B g fb lay by (simp add: fs_ok_def)
  show "in_disk s = in_disk t" using c by (simp add: in_disk_def fun_eq_iff)
  show "no_alloc s = no_alloc t" using fb g by (simp add: no_alloc_def fun_eq_iff)
  show "quiet s = quiet t" by (rule quiet_same) (use c in simp_all)
qed

lemma same_cpu_kfs [simp]:
  "same_cpu (s\<lparr>icache := x\<rparr>) t = same_cpu s t" "same_cpu s (t\<lparr>icache := x\<rparr>) = same_cpu s t"
  by (simp_all add: same_cpu_def)

lemma cur_pid_kfs [simp]: "cur_pid (s\<lparr>icache := x\<rparr>) = cur_pid s"
  using cur_same [of "s\<lparr>icache := x\<rparr>" s] by (simp add: cur_pid_def same_cpu_def)

lemma same_blocks_upd [simp]:
  "same_blocks (s\<lparr>icache := x\<rparr>) s" "same_blocks (slock (InodeLock i) s) s"
  "quiet s \<Longrightarrow> same_blocks (sunlock (InodeLock i) s) s"
proof -
  show "same_blocks (s\<lparr>icache := x\<rparr>) s" by (simp add: same_blocks_def same_cpu_def)
  show "same_blocks (slock (InodeLock i) s) s"
    by (simp add: same_blocks_def) (simp add: slock_def same_cpu_def)
  show "quiet s \<Longrightarrow> same_blocks (sunlock (InodeLock i) s) s"
    by (simp add: same_blocks_def) (simp add: sunlock_def same_cpu_def wakeup1_def)
qed

lemma icache_locks [simp]:
  "icache (slock l s) = icache s" "icache (sunlock l s) = icache s" "sb (slock l s) = sb s" "sb (sunlock l s) = sb s"
  by (simp_all add: slock_def sunlock_def wakeup1_def)

lemma tx_quiet: "tx s L H \<Longrightarrow> quiet s"
  by (erule txD) (rule bio_quiet)

subsection \<open>Inodes on the disk\<close>

definition disk_inode :: "'a kfs_scheme \<Rightarrow> uint \<Rightarrow> dinode" where
  "disk_inode s inum = dinode_decode (view s (IBLOCK inum (sb s))) (dinode_off inum)"

lemma dinode_off_bound: "dinode_off inum + 64 \<le> BSIZE"
proof -
  have "unat inum mod 8 < 8" by simp
  then show ?thesis by (simp add: dinode_off_def const_simps)
qed

lemma unat_IBLOCK:
  assumes "fs_layout s" "unat inum < unat (sb_ninodes (sb s))"
  shows "unat (IBLOCK inum (sb s)) = unat (sb_inodestart (sb s)) + unat inum div IPB" "in_disk s (IBLOCK inum (sb s))"
    "IBLOCK inum (sb s) \<notin> log_area s" "1 < unat (IBLOCK inum (sb s))" "unat (IBLOCK inum (sb s)) < unat (sb_bmapstart (sb s))"
proof -
  have le: "unat inum div IPB \<le> unat (sb_ninodes (sb s)) div IPB" using assms(2) by (simp add: div_le_mono)
  have L: "unat (sb_inodestart (sb s)) + unat (sb_ninodes (sb s)) div IPB + 1 \<le> unat (sb_bmapstart (sb s))"
    "data_start (sb s) \<le> length (memdisk s)" "length (memdisk s) < 2 ^ 31"
    using assms(1) by (simp_all add: fs_layout_def Let_def)
  then have "unat (sb_inodestart (sb s)) + unat inum div IPB < length (memdisk s)"
    using le unfolding data_start_def by linarith
  then have "unat (sb_inodestart (sb s)) + unat inum div IPB < 2 ^ 32" using L(3) by simp
  then show u: "unat (IBLOCK inum (sb s)) = unat (sb_inodestart (sb s)) + unat inum div IPB"
    unfolding IBLOCK_def by (simp only: add.commute [of "of_nat _ :: uint"] unat_add_of_nat)
  show b: "unat (IBLOCK inum (sb s)) < unat (sb_bmapstart (sb s))" using u le L(1) by simp
  then show "in_disk s (IBLOCK inum (sb s))" using L(2) by (simp add: in_disk_def data_start_def)
  show "IBLOCK inum (sb s) \<notin> log_area s" "1 < unat (IBLOCK inum (sb s))"
    using assms(1) u by (auto simp: fs_layout_def log_area_def Let_def)
qed

lemma IBLOCK_other:
  assumes lay: "fs_layout s" "unat inum < unat (sb_ninodes (sb s))"
  shows "b < unat (sb_size (sb s)) \<Longrightarrow> IBLOCK inum (sb s) \<noteq> BBLOCK b (sb s)" "IBLOCK inum (sb s) \<noteq> 1"
    "data_blk (sb s) b \<Longrightarrow> IBLOCK inum (sb s) \<noteq> of_nat b"
proof -
  note I = unat_IBLOCK [OF lay]
  show "b < unat (sb_size (sb s)) \<Longrightarrow> IBLOCK inum (sb s) \<noteq> BBLOCK b (sb s)"
    using I(5) unat_BBLOCK(1) [OF lay(1), of b] by (metis not_add_less1)
  show "IBLOCK inum (sb s) \<noteq> 1" using I(4) by (metis less_irrefl unat_1)
  show "data_blk (sb s) b \<Longrightarrow> IBLOCK inum (sb s) \<noteq> of_nat b"
    using I(5) data_blk_props(1) [OF lay(1), of b] by (force simp: data_blk_def data_start_def)
qed

text \<open>Overwriting the slot of one inode leaves the others.\<close>

lemma disk_inode_splice:
  assumes lay: "fs_layout s" "unat inum < unat (sb_ninodes (sb s))" "unat n < unat (sb_ninodes (sb s))"
    and len: "length (view s (IBLOCK inum (sb s))) = BSIZE" "length (i_addrs di) = 13"
    and t: "sb t = sb s" "view t = (view s)(IBLOCK inum (sb s) :=
      splice (view s (IBLOCK inum (sb s))) (dinode_off inum) (dinode_encode di))"
  shows "disk_inode t n = (if n = inum then di else disk_inode s n)"
proof (cases "IBLOCK n (sb s) = IBLOCK inum (sb s)")
  case False
  then show ?thesis using t by (auto simp: disk_inode_def)
next
  case True
  then have d: "unat n div IPB = unat inum div IPB"
    using unat_IBLOCK(1) [OF lay(1,2)] unat_IBLOCK(1) [OF lay(1,3)] by simp
  show ?thesis
  proof (cases "n = inum")
    case True
    then show ?thesis using t dinode_decode_encode [OF len(2)] dinode_off_bound [of inum] len(1) by (simp add: disk_inode_def)
  next
    case False
    then have "unat n mod IPB \<noteq> unat inum mod IPB" using d by (metis div_mult_mod_eq word_unat_eq_iff)
    then have "dinode_off n + 64 \<le> dinode_off inum \<or> dinode_off inum + 64 \<le> dinode_off n"
      unfolding dinode_off_def by linarith
    then show ?thesis
      using False True t dinode_decode_other [OF length_dinode_encode [OF len(2)]] dinode_off_bound len(1)
      by (simp add: disk_inode_def)
  qed
qed

lemma iupdate_ok:
  assumes r: "room s L H (Suc k)" "card H \<le> k" and ok: "fs_ok s"
    and i: "i_dev (icache s ! i) = 1" "i_inum (icache s ! i) = inum" "unat inum < unat (sb_ninodes (sb s))"
      "length (i_addrs (icache s ! i)) = 13" "IBLOCK inum (sb s) \<notin> H"
  obtains t where "iupdate i s = Ret t" "room t (insert (IBLOCK inum (sb s)) L) H k" "tx_frame s t" "fs_ok t"
    "view t = (view s)(IBLOCK inum (sb s) :=
      splice (view s (IBLOCK inum (sb s))) (dinode_off inum) (dinode_encode (dinode.truncate (icache s ! i))))"
    "free_block t = free_block s" "\<And>b' n. holds s b' n \<Longrightarrow> holds t b' n"
    "\<And>n. unat n < unat (sb_ninodes (sb s)) \<Longrightarrow>
       disk_inode t n = (if n = inum then dinode.truncate (icache s ! i) else disk_inode s n)"
proof -
  have lay: "fs_layout s" using ok by (simp add: fs_ok_def)
  note I = unat_IBLOCK [OF lay i(3)] and O = IBLOCK_other [OF lay i(3)]
  let ?di = "dinode.truncate (icache s ! i)"
  have len: "length (i_addrs ?di) = 13" "length (view s (IBLOCK inum (sb s))) = BSIZE"
    using i(4) st.cont_len [OF roomD(1) [OF r(1)] I(2)] by (simp_all add: dinode.truncate_def)
  let ?f = "\<lambda>d. splice d (dinode_off inum) (dinode_encode ?di)"
  obtain t where t: "rbind (bread 1 (IBLOCK inum (sb s)) s) (\<lambda>(b, s). let s = set_bdata b (?f (bdata (bufs s ! b))) s
      in rbind (log_write b s) (\<lambda>s. brelse b s)) = Ret t"
    "room t (insert (IBLOCK inum (sb s)) L) H k" "view t = (view s)(IBLOCK inum (sb s) := ?f (view s (IBLOCK inum (sb s))))"
    "tx_frame s t" "\<And>b' n. holds s b' n \<Longrightarrow> holds t b' n"
    by (rule poke_ok [OF r(1) I(2) i(5) I(3) r(2), of ?f])
      (use length_dinode_encode [OF len(1)] dinode_off_bound [of inum] len(2) in auto)
  obtain bp u where u: "bread 1 (IBLOCK inum (sb s)) s = Ret (bp, u)" "tx_frame s u"
    using st.rd_ok [OF roomD(1) [OF r(1)] I(2) i(5) roomD(4) [OF r(1)]] by blast
  have it: "iupdate i s = Ret t"
    using t(1) i(1,2) u tx_frame_kfs(1) [OF u(2)] by (simp add: iupdate_def Let_def)
  have v: "view t 1 = view s 1" "\<And>b. b < unat (sb_size (sb s)) \<Longrightarrow> view t (BBLOCK b (sb s)) = view s (BBLOCK b (sb s))"
    unfolding t(3) by (rule fun_upd_other, use O(1,2) in metis)+
  note C = fs_ok_cong [OF t(4) v]
  show thesis
    by (rule that [OF it t(2,4) _ t(3) C(2) t(5)])
      (use C(1) ok disk_inode_splice [OF lay i(3) _ len(2,1) tx_frame_kfs(2) [OF t(4)] t(3)] in auto)
qed

subsection \<open>The cache\<close>

text \<open>References are counted, and an inode has at most one entry in use.\<close>

definition icache_ok :: "'a kfs_scheme \<Rightarrow> bool" where
  "icache_ok s \<longleftrightarrow> (\<forall>i < length (icache s). 0 \<le> i_ref (icache s ! i)) \<and>
     (\<forall>i < length (icache s). \<forall>j < length (icache s). 0 < i_ref (icache s ! i) \<longrightarrow> 0 < i_ref (icache s ! j) \<longrightarrow>
        i_dev (icache s ! i) = i_dev (icache s ! j) \<longrightarrow> i_inum (icache s ! i) = i_inum (icache s ! j) \<longrightarrow> i = j)"

definition cached :: "'a kfs_scheme \<Rightarrow> uint \<Rightarrow> uint \<Rightarrow> nat \<Rightarrow> bool" where
  "cached s dev inum i \<longleftrightarrow> i < length (icache s) \<and> 0 < i_ref (icache s ! i) \<and> i_dev (icache s ! i) = dev \<and>
     i_inum (icache s ! i) = inum"

lemma icache_section:
  assumes "quiet s"
  shows "acquire IcacheLock s = Ret (acq IcacheLock s)"
    "release IcacheLock ((acq IcacheLock s)\<lparr>icache := x\<rparr>) = Ret (s\<lparr>icache := x\<rparr>)"
    "release IcacheLock (acq IcacheLock s) = Ret s" "icache (acq IcacheLock s) = icache s"
proof -
  have q: "cpu_ok s" "lock_free IcacheLock s" using quiet_locks [OF assms] by auto
  show "acquire IcacheLock s = Ret (acq IcacheLock s)" using q by (rule acquire_free)
  have "release IcacheLock ((acq IcacheLock s)\<lparr>icache := x\<rparr>) = Ret (unacq s ((acq IcacheLock s)\<lparr>icache := x\<rparr>))"
    using q by (intro release_acq) simp_all
  moreover have "unacq s ((acq IcacheLock s)\<lparr>icache := x\<rparr>) = (unacq s (acq IcacheLock s))\<lparr>icache := x\<rparr>"
    by (simp add: unacq_def)
  ultimately show "release IcacheLock ((acq IcacheLock s)\<lparr>icache := x\<rparr>) = Ret (s\<lparr>icache := x\<rparr>)" by simp
  show "release IcacheLock (acq IcacheLock s) = Ret s" using release_acq [OF q, of "acq IcacheLock s"] by simp
  show "icache (acq IcacheLock s) = icache s" by (simp add: acq_def Let_def)
qed

lemma cached_unique: "icache_ok s \<Longrightarrow> cached s dev inum i \<Longrightarrow> cached s dev inum j \<Longrightarrow> i = j"
  unfolding icache_ok_def cached_def by metis

lemma iget_hit:
  assumes q: "quiet s" and ok: "icache_ok s" and c: "cached s dev inum i"
  shows "iget dev inum s = Ret (i, upd_inode i (\<lambda>ip. ip\<lparr>i_ref := i_ref ip + 1\<rparr>) s)"
proof -
  have "find_idx (\<lambda>ip. i_ref ip > 0 \<and> i_dev ip = dev \<and> i_inum ip = inum) (icache s) = Some i"
    unfolding find_idx_Some
  proof (intro conjI allI impI notI)
    fix j assume "j < i" "0 < i_ref (icache s ! j) \<and> i_dev (icache s ! j) = dev \<and> i_inum (icache s ! j) = inum"
    then show False using cached_unique [OF ok c, of j] c by (simp add: cached_def)
  qed (use c in \<open>simp_all add: cached_def\<close>)
  then show ?thesis using icache_section [OF q] by (simp add: iget_def)
qed

lemma iget_miss:
  assumes q: "quiet s" and c: "\<And>i. \<not> cached s dev inum i"
  shows "iget dev inum s = (case find_idx (\<lambda>ip. i_ref ip = 0) (icache s) of
    None \<Rightarrow> Panic ''iget: no inodes''
  | Some i \<Rightarrow> Ret (i, upd_inode i (\<lambda>ip. ip\<lparr>i_dev := dev, i_inum := inum, i_ref := 1, i_valid := False\<rparr>) s))"
proof -
  have "find_idx (\<lambda>ip. i_ref ip > 0 \<and> i_dev ip = dev \<and> i_inum ip = inum) (icache s) = None"
    unfolding find_idx_None using c unfolding cached_def by (metis in_set_conv_nth)
  then show ?thesis using icache_section [OF q] by (simp add: iget_def split: option.split)
qed

lemma icache_ok_upd:
  assumes ok: "icache_ok s" and i: "i < length (icache s)" "0 \<le> i_ref ip"
    and u: "\<And>j. 0 < i_ref ip \<Longrightarrow> cached s (i_dev ip) (i_inum ip) j \<Longrightarrow> j = i"
  shows "icache_ok (s\<lparr>icache := (icache s)[i := ip]\<rparr>)"
  unfolding icache_ok_def
proof (intro conjI allI impI)
  fix a assume a: "a < length (icache (s\<lparr>icache := (icache s)[i := ip]\<rparr>))"
  show "0 \<le> i_ref (icache (s\<lparr>icache := (icache s)[i := ip]\<rparr>) ! a)"
    using a ok i by (cases "a = i") (auto simp: icache_ok_def)
  fix b assume b: "b < length (icache (s\<lparr>icache := (icache s)[i := ip]\<rparr>))"
    "0 < i_ref (icache (s\<lparr>icache := (icache s)[i := ip]\<rparr>) ! a)" "0 < i_ref (icache (s\<lparr>icache := (icache s)[i := ip]\<rparr>) ! b)"
    "i_dev (icache (s\<lparr>icache := (icache s)[i := ip]\<rparr>) ! a) = i_dev (icache (s\<lparr>icache := (icache s)[i := ip]\<rparr>) ! b)"
    "i_inum (icache (s\<lparr>icache := (icache s)[i := ip]\<rparr>) ! a) = i_inum (icache (s\<lparr>icache := (icache s)[i := ip]\<rparr>) ! b)"
  consider "a = i" "b = i" | "a = i" "b \<noteq> i" | "a \<noteq> i" "b = i" | "a \<noteq> i" "b \<noteq> i" by blast
  then show "a = b"
  proof cases
    case 2
    then show ?thesis using a b u [of b] i by (simp add: cached_def)
  next
    case 3
    then show ?thesis using a b u [of a] i by (simp add: cached_def)
  next
    case 4
    then show ?thesis using a b ok by (simp add: icache_ok_def)
  qed simp
qed

text \<open>Reading an inode into its locked entry.\<close>

lemma ilock_cases:
  assumes r: "room s L H k" and ok: "fs_ok s" and q: "sl_locked (sleepl s (InodeLock i)) = 0"
    and i: "i < length (icache s)" "1 \<le> i_ref (icache s ! i)"
      "i_dev (icache s ! i) = 1" "i_inum (icache s ! i) = inum" "unat inum < unat (sb_ninodes (sb s))" "IBLOCK inum (sb s) \<notin> H"
  shows "i_valid (icache s ! i) \<Longrightarrow> ilock (Some i) s = Ret (slock (InodeLock i) s)"
    "\<not> i_valid (icache s ! i) \<Longrightarrow> i_type (disk_inode s inum) = 0 \<Longrightarrow> ilock (Some i) s = Panic ''ilock: no type''"
    "\<not> i_valid (icache s ! i) \<Longrightarrow> i_type (disk_inode s inum) \<noteq> 0 \<Longrightarrow>
      \<exists>t. ilock (Some i) s = Ret t \<and> icache t = (icache s)[i := (load_inode (disk_inode s inum) (icache s ! i))\<lparr>i_valid := True\<rparr>] \<and>
        room t L H k \<and> view t = view s \<and> sb t = sb s \<and> fs_ok t \<and> slheld (InodeLock i) t \<and>
        (\<forall>j. j \<noteq> i \<longrightarrow> sleepl t (InodeLock j) = sleepl s (InodeLock j))"
proof -
  have qs: "quiet s" by (rule tx_quiet [OF roomD(1) [OF r]])
  have lay: "fs_layout s" using ok by (simp add: fs_ok_def)
  let ?s = "slock (InodeLock i) s"
  have a: "acquiresleep (InodeLock i) s = Ret ?s" by (rule acquiresleep_Ret [OF qs q])
  note S = same_blocksD [OF same_blocks_upd(2) [of i s]]
  show "ilock (Some i) s = Ret ?s" if "i_valid (icache s ! i)" using that i a by (simp add: ilock_def)
  assume nv: "\<not> i_valid (icache s ! i)"
  have R: "room ?s L H k" "in_disk ?s (IBLOCK inum (sb s))" using r unat_IBLOCK(2) [OF lay i(5)] S by simp_all
  obtain b u where u: "bread 1 (IBLOCK inum (sb s)) ?s = Ret (b, u)" "tx u L (insert (IBLOCK inum (sb s)) H)" "view u = view ?s"
    "holds u b (IBLOCK inum (sb s))" "bdata (bufs u ! b) = view ?s (IBLOCK inum (sb s))" "tx_frame ?s u"
    using st.rd_ok [OF roomD(1) [OF R(1)] R(2) i(6) roomD(4) [OF R(1)]] by blast
  note K = tx_frame_kfs [OF u(6)]
  let ?ip = "load_inode (disk_inode s inum) (icache s ! i)"
  let ?v = "u\<lparr>icache := (icache s)[i := ?ip]\<rparr>"
  have v: "tx ?v L (insert (IBLOCK inum (sb s)) H)" "holds ?v b (IBLOCK inum (sb s))"
    using same_blocksD [OF same_blocks_upd(1) [where s = u and x = "(icache s)[i := ?ip]"]] u(2,4) by simp_all
  obtain w where w: "brelse b ?v = Ret w" "tx w L (insert (IBLOCK inum (sb s)) H - {IBLOCK inum (sb s)})" "view w = view ?v" "tx_frame ?v w"
    using st.rel_ok [OF v] by blast
  note KW = tx_frame_kfs [OF w(4)]
  let ?t = "w\<lparr>icache := (icache s)[i := ?ip\<lparr>i_valid := True\<rparr>]\<rparr>"
  have e: "ilock (Some i) s = (if i_type (disk_inode s inum) = 0 then Panic ''ilock: no type'' else Ret ?t)"
    using i nv a u(1,5) w(1) K KW S(2) by (simp add: ilock_def disk_inode_def Let_def load_inode_def)
  then show "ilock (Some i) s = Panic ''ilock: no type''" if "i_type (disk_inode s inum) = 0" using that by simp
  assume nz: "i_type (disk_inode s inum) \<noteq> 0"
  have H: "insert (IBLOCK inum (sb s)) H - {IBLOCK inum (sb s)} = H" using i(6) by blast
  note T = same_blocksD [OF same_blocks_upd(1) [where s = w and x = "(icache s)[i := ?ip\<lparr>i_valid := True\<rparr>]"]]
  have V: "view w = view s" using w(3) u(3) S(2) same_blocksD(2) [OF same_blocks_upd(1) [where s = u]] by simp
  have fr: "log_cap w = log_cap s" "sb w = sb s" "sleepl w (InodeLock j) = sleepl ?s (InodeLock j)" "cur_pid w = cur_pid s" for j
    using tx_frame_fields [OF w(4)] tx_frame_fields [OF u(6)] K KW S(11) by (simp_all add: log_cap_def)
  have rw: "room ?t L H k" using r w(2) T fr unfolding H by (simp add: room_def)
  have fk: "fs_ok ?t"
  proof -
    have "free_block w = free_block s" "fs_layout w = fs_layout s"
      using V fr(2) KW(5) K(5) S(13) by (auto simp: free_block_def fun_eq_iff) (simp_all add: fs_layout_def)
    then show ?thesis using ok V fr(2) T by (simp add: fs_ok_def)
  qed
  have sl: "slheld (InodeLock i) ?t" using fr(3) [of i] fr(4) by (simp add: slheld_def)
  show "\<exists>t. ilock (Some i) s = Ret t \<and> icache t = (icache s)[i := ?ip\<lparr>i_valid := True\<rparr>] \<and>
        room t L H k \<and> view t = view s \<and> sb t = sb s \<and> fs_ok t \<and> slheld (InodeLock i) t \<and>
        (\<forall>j. j \<noteq> i \<longrightarrow> sleepl t (InodeLock j) = sleepl s (InodeLock j))"
    by (rule exI [of _ ?t]) (use e nz rw fk sl V fr T in simp)
qed

subsection \<open>Properties\<close>

text \<open>
  C33.  The inode cache has one entry for an inode: \<^verbatim>\<open>iget\<close> returns the entry in use for the inode,
  with one more reference and its contents kept, or else recycles the first unused entry, which
  it marks as not read from the disk; it changes no other entry, keeps the entries unique, and
  panics exactly if the inode has no entry and none is unused.
\<close>

theorem iget_unique:
  assumes "quiet s" "icache_ok s"
  shows "if (\<exists>i. cached s dev inum i) \<or> (\<exists>i < length (icache s). i_ref (icache s ! i) = 0)
    then \<exists>i t. iget dev inum s = Ret (i, t) \<and> cached t dev inum i \<and> icache_ok t \<and> length (icache t) = length (icache s) \<and>
      (\<forall>j. j \<noteq> i \<longrightarrow> icache t ! j = icache s ! j) \<and>
      (if \<exists>i. cached s dev inum i
       then cached s dev inum i \<and> icache t ! i = (icache s ! i)\<lparr>i_ref := i_ref (icache s ! i) + 1\<rparr>
       else i_ref (icache s ! i) = 0 \<and> (\<forall>j < i. i_ref (icache s ! j) \<noteq> 0) \<and> i_ref (icache t ! i) = 1 \<and> \<not> i_valid (icache t ! i))
    else iget dev inum s = Panic ''iget: no inodes''"
proof (cases "\<exists>i. cached s dev inum i")
  case True
  then obtain i where i: "cached s dev inum i" ..
  then have b: "i < length (icache s)" "0 < i_ref (icache s ! i)" "i_dev (icache s ! i) = dev" "i_inum (icache s ! i) = inum"
    by (simp_all add: cached_def)
  let ?ip = "(icache s ! i)\<lparr>i_ref := i_ref (icache s ! i) + 1\<rparr>"
  have "icache_ok (s\<lparr>icache := (icache s)[i := ?ip]\<rparr>)"
    by (rule icache_ok_upd [OF assms(2) b(1)]) (use b cached_unique [OF assms(2) i] in auto)
  then have "iget dev inum s = Ret (i, s\<lparr>icache := (icache s)[i := ?ip]\<rparr>) \<and> icache_ok (s\<lparr>icache := (icache s)[i := ?ip]\<rparr>)"
    using iget_hit [OF assms i] by simp
  then show ?thesis
    using i b by (simp only: True simp_thms if_True) (intro exI [of _ i] exI [of _ "s\<lparr>icache := (icache s)[i := ?ip]\<rparr>"], simp add: cached_def)
next
  case False
  then have miss: "\<And>i. \<not> cached s dev inum i" by blast
  show ?thesis
  proof (cases "find_idx (\<lambda>ip. i_ref ip = 0) (icache s)")
    case None
    then have "\<not> (\<exists>i < length (icache s). i_ref (icache s ! i) = 0)" by (auto simp: find_idx_None)
    then show ?thesis using iget_miss [OF assms(1) miss] unfolding None by (simp only: False simp_thms if_False option.case)
  next
    case (Some i)
    then have b: "i < length (icache s)" "i_ref (icache s ! i) = 0" "\<forall>j < i. i_ref (icache s ! j) \<noteq> 0"
      by (simp_all add: find_idx_Some)
    let ?ip = "(icache s ! i)\<lparr>i_dev := dev, i_inum := inum, i_ref := 1, i_valid := False\<rparr>"
    have "icache_ok (s\<lparr>icache := (icache s)[i := ?ip]\<rparr>)"
      by (rule icache_ok_upd [OF assms(2) b(1)]) (use miss in auto)
    moreover have ex: "(\<exists>i < length (icache s). i_ref (icache s ! i) = 0) = True" using b(1,2) by blast
    ultimately show ?thesis
      using b iget_miss [OF assms(1) miss] unfolding Some option.case
      by (simp only: False ex if_False if_True simp_thms)
        (intro exI [of _ i] exI [of _ "s\<lparr>icache := (icache s)[i := ?ip]\<rparr>"], simp add: cached_def)
  qed
qed

lemma kfs0_icache: "icache_ok kfs0" "quiet kfs0" "\<not> cached kfs0 dev inum i"
proof -
  have "i_ref (icache kfs0 ! i) = 0" if "i < length (icache kfs0)" for i using that by (simp add: kfs0_fields inode0_def)
  then show "icache_ok kfs0" "\<not> cached kfs0 dev inum i" unfolding icache_ok_def cached_def by force+
  show "quiet kfs0" by (rule tx_quiet [OF kfs0_tx(1)])
qed

lemma binit_locks: "sleepl (binit s) (InodeLock i) = sleepl s (InodeLock i)"
proof -
  have "sleepl (binit_loop b n s) (InodeLock i) = sleepl s (InodeLock i)" for b n and s :: "'a kbio_scheme"
    by (induction b n s rule: binit_loop.induct) (simp_all add: Let_def initsleeplock_def initlock_def)
  then show ?thesis by (simp add: binit_def Let_def initlock_def)
qed

lemma kfs0_locks: "sl_locked (sleepl kfs0 (InodeLock i)) = 0"
  by (simp add: kfs0_def binit_locks) (simp add: kbio0_def)

theorem iget_unique_witness:
  "\<exists>t u. iget 1 5 kfs0 = Ret (0, t) \<and> iget 1 5 t = Ret (0, u) \<and> i_ref (icache u ! 0) = 2"
proof -
  let ?t = "upd_inode 0 (\<lambda>ip. ip\<lparr>i_dev := 1, i_inum := 5, i_ref := 1, i_valid := False\<rparr>) kfs0"
  have l: "length (icache kfs0) = 50" "i_ref (icache kfs0 ! 0) = 0" by (simp_all add: kfs0_fields inode0_def const_simps)
  have t: "iget 1 5 kfs0 = Ret (0, ?t)"
    using iget_miss [OF kfs0_icache(2), of 1 5] kfs0_icache(3) by (simp add: kfs0_fields inode0_def NINODE_def eval_nat_numeral)
  have ok: "icache_ok ?t" by (rule icache_ok_upd [OF kfs0_icache(1)]) (use kfs0_icache(3) l in auto)
  have q: "quiet ?t" using same_blocksD(12) [OF same_blocks_upd(1) [where s = kfs0]] kfs0_icache(2) by blast
  have c: "cached ?t 1 5 0" using l by (simp add: cached_def)
  then have ex: "(\<exists>i. cached ?t 1 5 i) = True" by blast
  obtain i u where u: "iget 1 5 ?t = Ret (i, u)" "cached ?t 1 5 i"
    "icache u ! i = (icache ?t ! i)\<lparr>i_ref := i_ref (icache ?t ! i) + 1\<rparr>"
    using iget_unique [OF q ok, of 1 5, unfolded ex if_True simp_thms] by (elim exE conjE) (rule that)
  have "i = 0" using cached_unique [OF ok u(2) c] .
  then show ?thesis using t u l by (intro exI [of _ ?t] exI [of _ u]) simp
qed


text \<open>Two entries of a cache for inode 5: one that has been filled in and one that has not been read.\<close>

definition kfs_two :: kfs where
  "kfs_two = kfs0\<lparr>icache := (icache kfs0)[0 := inode0\<lparr>i_type := 2, i_size := 77, i_dev := 1, i_inum := 5, i_ref := 1, i_valid := True\<rparr>,
     1 := inode0\<lparr>i_dev := 1, i_inum := 5, i_ref := 1\<rparr>]\<rparr>"


end
