(* ===== verification/Fileio.thy ===== *)
theory Fileio
  imports Icache
begin

text \<open>
  The contents of files (\<^verbatim>\<open>fs.c\<close>: \<^verbatim>\<open>bmap\<close>, \<^verbatim>\<open>readi\<close>, \<^verbatim>\<open>writei\<close>).  A file is seen as a sequence of
  bytes; the block addresses in the inode and in the indirect block are the slots through which
  it is reached.  The invariant of a file says that its slots lead to different data blocks,
  which are in use.  The lemmas show that allocating a block changes no byte of any file, and
  that \<^verbatim>\<open>readi\<close> and \<^verbatim>\<open>writei\<close> read and overwrite the sequence.
\<close>

subsection \<open>The slots of a file\<close>

definition NSLOT :: nat where "NSLOT = NDIRECT + 1 + NINDIRECT"

text \<open>Slot 12 is the address of the indirect block; the slots after it are its words.\<close>

definition slot :: "'a kfs_scheme \<Rightarrow> nat \<Rightarrow> nat \<Rightarrow> uint" where
  "slot s i k =
     (if k \<le> NDIRECT then addr_at i k s
      else if addr_at i NDIRECT s = 0 then 0
      else get32 (view s (addr_at i NDIRECT s)) (4 * (k - Suc NDIRECT)))"

definition slot_of :: "nat \<Rightarrow> nat" where
  "slot_of bn = (if bn < NDIRECT then bn else Suc bn)"

definition file_ok :: "'a kfs_scheme \<Rightarrow> nat \<Rightarrow> bool" where
  "file_ok s i \<longleftrightarrow> i < length (icache s) \<and> i_dev (icache s ! i) = 1 \<and> length (i_addrs (icache s ! i)) = 13 \<and>
     unat (i_inum (icache s ! i)) < unat (sb_ninodes (sb s)) \<and>
     (\<forall>k < NSLOT. slot s i k \<noteq> 0 \<longrightarrow> data_blk (sb s) (unat (slot s i k)) \<and> \<not> free_block s (unat (slot s i k))) \<and>
     (\<forall>k < NSLOT. \<forall>l < NSLOT. slot s i k = slot s i l \<longrightarrow> slot s i k \<noteq> 0 \<longrightarrow> k = l)"

definition file_data :: "'a kfs_scheme \<Rightarrow> nat \<Rightarrow> nat \<Rightarrow> block" where
  "file_data s i bn = (let a = slot s i (slot_of bn) in if a = 0 then replicate BSIZE 0 else view s a)"

lemma slot_of_props:
  "bn < MAXFILE \<Longrightarrow> slot_of bn < NSLOT" "slot_of bn \<noteq> NDIRECT" "slot_of a = slot_of b \<longleftrightarrow> a = b"
  by (auto simp: slot_of_def NSLOT_def MAXFILE_def)

lemma file_okD:
  assumes "file_ok s i"
  shows "i < length (icache s)" "i_dev (icache s ! i) = 1" "length (i_addrs (icache s ! i)) = 13"
    "unat (i_inum (icache s ! i)) < unat (sb_ninodes (sb s))"
    "\<And>k. k < NSLOT \<Longrightarrow> slot s i k \<noteq> 0 \<Longrightarrow> data_blk (sb s) (unat (slot s i k))"
    "\<And>k. k < NSLOT \<Longrightarrow> slot s i k \<noteq> 0 \<Longrightarrow> \<not> free_block s (unat (slot s i k))"
    "\<And>k l. k < NSLOT \<Longrightarrow> l < NSLOT \<Longrightarrow> slot s i k = slot s i l \<Longrightarrow> slot s i k \<noteq> 0 \<Longrightarrow> k = l"
  using assms by (auto simp: file_ok_def)

lemma NDIRECT_slot: "NDIRECT < NSLOT"
  by (simp add: NSLOT_def const_simps)

subsection \<open>Growing a file\<close>

text \<open>What may change besides blocks while inode \<open>i\<close> is worked on.\<close>

definition fs_frame :: "nat \<Rightarrow> 'a kfs_scheme \<Rightarrow> 'a kfs_scheme \<Rightarrow> bool" where
  "fs_frame i s t \<longleftrightarrow> tx_frame (s\<lparr>icache := icache t\<rparr>) t \<and> length (icache t) = length (icache s) \<and>
     (\<forall>j. j \<noteq> i \<longrightarrow> icache t ! j = icache s ! j) \<and>
     (\<exists>a z. icache t ! i = (icache s ! i)\<lparr>i_addrs := a, i_size := z\<rparr>)"

lemma tx_frame_icache: "tx_frame s t \<Longrightarrow> tx_frame (s\<lparr>icache := x\<rparr>) (t\<lparr>icache := x\<rparr>)"
proof -
  assume a: "tx_frame s t"
  then obtain p l b n h where t: "t = s\<lparr>ptable := p, sleepl := l, bufs := b, lh_n := n, lh_block := h\<rparr>"
    by (auto simp: tx_frame_def)
  have "cur (t\<lparr>icache := x\<rparr>) = cur t" "cur (s\<lparr>icache := x\<rparr>) = cur s" by (rule cur_same; simp add: same_cpu_def)+
  moreover have "\<exists>p l b n h. t\<lparr>icache := x\<rparr> = s\<lparr>icache := x, ptable := p, sleepl := l, bufs := b, lh_n := n, lh_block := h\<rparr>"
    by (intro exI [of _ p] exI [of _ l] exI [of _ b] exI [of _ n] exI [of _ h]) (simp add: t)
  ultimately show ?thesis using a by (simp add: tx_frame_def)
qed

lemma fs_frame_refl [simp]: "fs_frame i s s"
  unfolding fs_frame_def by (intro conjI exI [of _ "i_addrs (icache s ! i)"] exI [of _ "i_size (icache s ! i)"]) simp_all

lemma fs_frame_trans [trans]:
  assumes "fs_frame i s t" "fs_frame i t u"
  shows "fs_frame i s u"
proof -
  have "tx_frame (s\<lparr>icache := icache t, icache := icache u\<rparr>) (t\<lparr>icache := icache u\<rparr>)"
    using assms(1) by (intro tx_frame_icache) (simp add: fs_frame_def)
  then have "tx_frame (s\<lparr>icache := icache u\<rparr>) u"
    using assms(2) tx_frame_trans by (auto simp: fs_frame_def)
  moreover obtain a z where "icache t ! i = (icache s ! i)\<lparr>i_addrs := a, i_size := z\<rparr>" using assms(1) by (auto simp: fs_frame_def)
  moreover obtain b y where "icache u ! i = (icache t ! i)\<lparr>i_addrs := b, i_size := y\<rparr>" using assms(2) by (auto simp: fs_frame_def)
  ultimately show ?thesis
    using assms unfolding fs_frame_def by (intro conjI exI [of _ b] exI [of _ y]) simp_all
qed

lemma fs_frame_fields:
  assumes "fs_frame i s t"
  shows "sb t = sb s" "in_disk t = in_disk s" "log_area t = log_area s" "log_cap t = log_cap s" "fs_layout t = fs_layout s"
    "i_dev (icache t ! i) = i_dev (icache s ! i)" "i_inum (icache t ! i) = i_inum (icache s ! i)"
    "i_type (icache t ! i) = i_type (icache s ! i)" "sleepl t (InodeLock j) = sleepl s (InodeLock j)"
    "length (icache t) = length (icache s)" "i_major (icache t ! i) = i_major (icache s ! i)"
proof -
  have f: "tx_frame (s\<lparr>icache := icache t\<rparr>) t" "length (icache t) = length (icache s)" using assms by (simp_all add: fs_frame_def)
  note F = tx_frame_fields [OF f(1)] and K = tx_frame_kfs [OF f(1)]
  show "sb t = sb s" "fs_layout t = fs_layout s" using K by (simp_all add: fs_layout_def)
  show "in_disk t = in_disk s" "log_area t = log_area s" "log_cap t = log_cap s"
    using F by (simp_all add: in_disk_def log_area_def log_cap_def fun_eq_iff)
  show "sleepl t (InodeLock j) = sleepl s (InodeLock j)" using F by simp
  show "length (icache t) = length (icache s)" by (rule f)
  obtain a z where "icache t ! i = (icache s ! i)\<lparr>i_addrs := a, i_size := z\<rparr>" using assms by (auto simp: fs_frame_def)
  then show "i_dev (icache t ! i) = i_dev (icache s ! i)" "i_inum (icache t ! i) = i_inum (icache s ! i)"
    "i_type (icache t ! i) = i_type (icache s ! i)" "i_major (icache t ! i) = i_major (icache s ! i)" by simp_all
qed

lemma fs_frame_tx: "tx_frame s t \<Longrightarrow> fs_frame i s t"
  unfolding fs_frame_def
  by (intro conjI exI [of _ "i_addrs (icache s ! i)"] exI [of _ "i_size (icache s ! i)"]) (simp_all add: tx_frame_kfs)

lemma fs_frame_upd: "i < length (icache s) \<Longrightarrow> fs_frame i s (upd_inode i (set_addr k a) s)"
  unfolding fs_frame_def
  by (intro conjI exI [of _ "(i_addrs (icache s ! i))[k := a]"] exI [of _ "i_size (icache s ! i)"]) (simp_all add: set_addr_def)

text \<open>Blocks that no operation on inode \<open>i\<close> may change: used blocks other than bitmap and indirect block.\<close>

definition fixed_blk :: "'a kfs_scheme \<Rightarrow> nat \<Rightarrow> uint \<Rightarrow> bool" where
  "fixed_blk s i bn \<longleftrightarrow> \<not> free_block s (unat bn) \<and> (\<forall>b < unat (sb_size (sb s)). bn \<noteq> BBLOCK b (sb s)) \<and>
     (slot s i NDIRECT \<noteq> 0 \<longrightarrow> bn \<noteq> slot s i NDIRECT)"

text \<open>From \<open>s\<close> to \<open>t\<close> inode \<open>i\<close> has at most \<open>d\<close> more blocks, and the same contents.\<close>

definition grow :: "nat \<Rightarrow> nat \<Rightarrow> 'a kfs_scheme \<Rightarrow> 'a kfs_scheme \<Rightarrow> bool" where
  "grow i d s t \<longleftrightarrow> fs_frame i s t \<and> fs_ok t \<and> file_ok t i \<and> i_size (icache t ! i) = i_size (icache s ! i) \<and>
     (\<forall>n < MAXFILE. file_data t i n = file_data s i n) \<and>
     (\<forall>k < NSLOT. if slot s i k \<noteq> 0 then slot t i k = slot s i k
        else slot t i k = 0 \<or> free_block s (unat (slot t i k))) \<and>
     (\<forall>b. free_block t b \<longrightarrow> free_block s b) \<and> card {b. free_block s b} \<le> card {b. free_block t b} + d \<and>
     (\<forall>bn. fixed_blk s i bn \<longrightarrow> view t bn = view s bn)"

lemma finite_free: "finite {b. free_block s b}"
  by (rule finite_subset [of _ "{..<unat (sb_size (sb s))}"]) (auto simp: free_block_def)

lemma grow_refl: "fs_ok s \<Longrightarrow> file_ok s i \<Longrightarrow> grow i 0 s s"
  by (simp add: grow_def)

lemma grow_trans:
  assumes "grow i d s t" "grow i e t u"
  shows "grow i (d + e) s u"
proof -
  have a: "fs_frame i s t" "\<And>n. n < MAXFILE \<Longrightarrow> file_data t i n = file_data s i n" "\<And>b. free_block t b \<Longrightarrow> free_block s b"
    "\<And>k. k < NSLOT \<Longrightarrow> if slot s i k \<noteq> 0 then slot t i k = slot s i k else slot t i k = 0 \<or> free_block s (unat (slot t i k))"
    "\<And>bn. fixed_blk s i bn \<Longrightarrow> view t bn = view s bn" "card {b. free_block s b} \<le> card {b. free_block t b} + d"
    "i_size (icache t ! i) = i_size (icache s ! i)"
    using assms(1) by (simp_all add: grow_def)
  have b: "fs_frame i t u" "fs_ok u" "file_ok u i" "\<And>n. n < MAXFILE \<Longrightarrow> file_data u i n = file_data t i n"
    "\<And>b. free_block u b \<Longrightarrow> free_block t b"
    "\<And>k. k < NSLOT \<Longrightarrow> if slot t i k \<noteq> 0 then slot u i k = slot t i k else slot u i k = 0 \<or> free_block t (unat (slot u i k))"
    "\<And>bn. fixed_blk t i bn \<Longrightarrow> view u bn = view t bn" "card {b. free_block t b} \<le> card {b. free_block u b} + e"
    "i_size (icache u ! i) = i_size (icache t ! i)"
    using assms(2) by (simp_all add: grow_def)
  have "if slot s i k \<noteq> 0 then slot u i k = slot s i k else slot u i k = 0 \<or> free_block s (unat (slot u i k))" if "k < NSLOT" for k
    using a(4) [OF that] b(6) [OF that] a(3) by (auto split: if_splits)
  moreover have "view u bn = view s bn" if f: "fixed_blk s i bn" for bn
  proof -
    have "fixed_blk t i bn"
      using f a(4) [OF NDIRECT_slot] a(3) fs_frame_fields(1) [OF a(1)] unfolding fixed_blk_def by (auto split: if_splits)
    then show ?thesis using a(5) [OF f] b(7) by simp
  qed
  ultimately show ?thesis
    unfolding grow_def using a b fs_frame_trans [OF a(1) b(1)] by auto
qed

lemma grow_alloc:
  assumes s: "fs_ok s" "file_ok s i" and c: "free_block s c" and k: "k < NSLOT" "slot s i k = 0"
    and t: "fs_frame i s t" "fs_ok t" "i_size (icache t ! i) = i_size (icache s ! i)" "length (i_addrs (icache t ! i)) = 13"
      "\<And>b. free_block t b \<longleftrightarrow> free_block s b \<and> b \<noteq> c" "view t (of_nat c) = replicate BSIZE 0"
      "\<And>l. l < NSLOT \<Longrightarrow> slot t i l = (if l = k then of_nat c else slot s i l)"
      "\<And>bn. fixed_blk s i bn \<Longrightarrow> view t bn = view s bn"
  shows "grow i 1 s t"
proof -
  have lay: "fs_layout s" using s(1) by (simp add: fs_ok_def)
  note F = file_okD [OF s(2)] and D = data_blk_props [OF lay free_data [OF s(1) c]] and R = fs_frame_fields [OF t(1)]
  have cn: "of_nat c \<noteq> (0::uint)" using D(1,4) by (metis not_less_zero unat_0)
  have nf: "slot s i l \<noteq> of_nat c" if "l < NSLOT" for l
    using F(6) [OF that] c D(1) cn by metis
  have ok: "file_ok t i"
    unfolding file_ok_def
  proof (intro conjI allI impI)
    fix l assume l: "l < NSLOT"
    show "data_blk (sb t) (unat (slot t i l))" if "slot t i l \<noteq> 0"
      using that l t(7) [OF l] F(5) D(1) free_data [OF s(1) c] R(1) by (auto split: if_splits)
    show "\<not> free_block t (unat (slot t i l))" if "slot t i l \<noteq> 0"
      using that l t(7) [OF l] F(6) D(1) t(5) by (auto split: if_splits)
    fix m assume "m < NSLOT" "slot t i l = slot t i m" "slot t i l \<noteq> 0"
    then show "l = m" using l t(7) [OF l] t(7) [of m] F(7) nf by (metis (full_types))
  qed (use F R t(4) in simp_all)
  have "file_data t i n = file_data s i n" if n: "n < MAXFILE" for n
  proof -
    note P = slot_of_props(1) [OF n]
    show ?thesis
    proof (cases "slot s i (slot_of n) = 0")
      case True
      then show ?thesis using t(6) t(7) [OF P] k(2) by (auto simp: file_data_def Let_def)
    next
      case False
      let ?a = "slot s i (slot_of n)"
      have "data_blk (sb s) (unat ?a)" by (rule F(5) [OF P False])
      then have "of_nat (unat ?a) \<noteq> BBLOCK b (sb s)" if "b < unat (sb_size (sb s))" for b
        using data_blk_props(6) [OF lay _ that] by blast
      moreover have "?a \<noteq> slot s i NDIRECT" using F(7) [OF P NDIRECT_slot _ False] slot_of_props(2) by blast
      ultimately have "fixed_blk s i ?a" using F(6) [OF P False] by (simp add: fixed_blk_def)
      then show ?thesis using False t(7) [OF P] t(8) k(2) by (auto simp: file_data_def Let_def)
    qed
  qed
  moreover have "card (Collect (free_block s)) \<le> Suc (card (Collect (free_block t)))"
  proof -
    have "Collect (free_block s) = insert c (Collect (free_block t))" using t(5) c by auto
    then show ?thesis using finite_free [of t] by (simp add: card_insert_if)
  qed
  moreover have "free_block s (unat (of_nat c :: uint))" using c D(1) by simp
  ultimately show ?thesis
    unfolding grow_def using t(1,2,3,5,7,8) ok k(2) by auto
qed

lemma grow_weaken: "grow i d s t \<Longrightarrow> d \<le> e \<Longrightarrow> grow i e s t"
  by (auto simp: grow_def)

subsection \<open>Finding the block of an offset\<close>

lemma used_fixed:
  assumes "fs_ok s" "file_ok s i" "k < NSLOT" "slot s i k \<noteq> 0" "free_block s c"
  shows "slot s i k \<noteq> of_nat c" "b < unat (sb_size (sb s)) \<Longrightarrow> slot s i k \<noteq> BBLOCK b (sb s)"
    "taken_view (sb s) c (view s) (slot s i k) = view s (slot s i k)"
proof -
  have lay: "fs_layout s" using assms(1) by (simp add: fs_ok_def)
  note F = file_okD [OF assms(2)] and D = data_blk_props [OF lay free_data [OF assms(1,5)]]
  show a: "slot s i k \<noteq> of_nat c" using F(6) [OF assms(3,4)] assms(5) D(1) by metis
  show b: "slot s i k \<noteq> BBLOCK b (sb s)" if "b < unat (sb_size (sb s))" for b
    using data_blk_props(6) [OF lay F(5) [OF assms(3,4)] that] by simp
  have "c < unat (sb_size (sb s))" using assms(5) by (simp add: free_block_def)
  then show "taken_view (sb s) c (view s) (slot s i k) = view s (slot s i k)" using a b by (simp add: taken_view_def)
qed

lemma taken_view_fixed:
  assumes "fs_ok s" "free_block s c" "fixed_blk s i bn"
  shows "taken_view (sb s) c (view s) bn = view s bn"
proof -
  have "fs_layout s" using assms(1) by (simp add: fs_ok_def)
  then have "unat (of_nat c :: uint) = c" by (rule data_blk_props [OF _ free_data [OF assms(1,2)]])
  then have "bn \<noteq> of_nat c" using assms(2,3) by (auto simp: fixed_blk_def)
  moreover have "bn \<noteq> BBLOCK c (sb s)" using assms(2,3) by (auto simp: fixed_blk_def free_block_def)
  ultimately show ?thesis by (simp add: taken_view_def)
qed

lemma addr_or_alloc_ok:
  assumes r: "room s L {} (Suc (Suc j))" and ok: "fs_ok s" "file_ok s i" and k: "k \<le> NDIRECT"
    and free: "\<exists>c. free_block s c"
  obtains a t L' where "addr_or_alloc i k s = Ret (a, t)" "slot t i k = a" "a \<noteq> 0" "grow i 1 s t" "room t L' {} j"
proof (cases "addr_at i k s = 0")
  case False
  have "grow i 1 s s" using grow_weaken [OF grow_refl [OF ok]] by simp
  moreover have "room s L {} j" by (rule room_less [OF r]) simp_all
  ultimately show thesis using that [of "addr_at i k s" s L] False k by (simp add: addr_or_alloc_def slot_def)
next
  case True
  note F = file_okD [OF ok(2)]
  have na: "no_alloc s {}" by (simp add: no_alloc_def)
  obtain b where b: "free_block s b" using free ..
  obtain c u where c: "free_block s c" "balloc 1 s = Ret (of_nat c, u)"
    "room u (insert (of_nat c) (insert (BBLOCK c (sb s)) L)) {} j" "view u = taken_view (sb s) c (view s)" "tx_frame s u"
    "fs_ok u" "\<And>b. free_block u b \<longleftrightarrow> free_block s b \<and> b \<noteq> c"
    by (rule balloc_ok [OF r _ ok(1) na b]) (simp, blast)
  let ?t = "upd_inode i (set_addr k (of_nat c)) u"
  note K = tx_frame_kfs [OF c(5)] and S = same_blocksD [OF same_blocks_upd(1) [where s = u]]
  have lay: "fs_layout s" using ok by (simp add: fs_ok_def)
  note D = data_blk_props [OF lay free_data [OF ok(1) c(1)]]
  have at: "addr_at i l ?t = (if l = k then of_nat c else addr_at i l s)" if "l \<le> NDIRECT" for l
    using that k F(1,3) K(1) by (simp add: addr_at_def set_addr_def NDIRECT_def)
  have z: "view ?t (of_nat c) = replicate BSIZE 0" using S(2) c(4) by (simp add: taken_view_def)
  have cn: "of_nat c \<noteq> (0::uint)" using D(1,4) by (metis not_less_zero unat_0)
  have sl: "slot ?t i l = (if l = k then of_nat c else slot s i l)" if l: "l < NSLOT" for l
  proof (cases "l \<le> NDIRECT")
    case True
    then show ?thesis using at by (simp add: slot_def)
  next
    case False
    then have m: "4 * (l - Suc NDIRECT) + 4 \<le> BSIZE" using l by (simp add: NSLOT_def const_simps)
    consider "k = NDIRECT" | "k \<noteq> NDIRECT" "addr_at i NDIRECT s = 0" | "k \<noteq> NDIRECT" "addr_at i NDIRECT s \<noteq> 0" by blast
    then show ?thesis
    proof cases
      case 1
      then show ?thesis using False at [of NDIRECT] z cn get32_zeros [OF m] True by (simp add: slot_def)
    next
      case 2
      then show ?thesis using False at [of NDIRECT] k by (simp add: slot_def)
    next
      case 3
      then have nz: "slot s i NDIRECT \<noteq> 0" by (simp add: slot_def)
      have "view ?t (addr_at i NDIRECT s) = view s (addr_at i NDIRECT s)"
        using used_fixed(3) [OF ok NDIRECT_slot nz c(1)] S(2) c(4) by (simp add: slot_def)
      then show ?thesis using False 3 at [of NDIRECT] k by (simp add: slot_def)
    qed
  qed
  have fr: "fs_frame i s ?t"
    by (rule fs_frame_trans [OF fs_frame_tx [OF c(5)] fs_frame_upd]) (simp add: K F(1))
  have g: "grow i 1 s ?t"
  proof (rule grow_alloc [OF ok c(1) _ _ fr])
    show "k < NSLOT" "slot s i k = 0" using k NDIRECT_slot True by (simp_all add: slot_def)
    show "view ?t bn = view s bn" if "fixed_blk s i bn" for bn
      using taken_view_fixed [OF ok(1) c(1) that] S(2) c(4) by simp
  qed (use c S K F(1,3) z sl in \<open>simp_all add: set_addr_def\<close>)
  show thesis
    by (rule that [OF _ _ cn g]) (use True c F(2) S sl [of k] k NDIRECT_slot in \<open>simp_all add: addr_or_alloc_def\<close>)
qed

lemma indirect_entry:
  assumes "tx s L H" "in_disk s a" "m < NINDIRECT"
  shows "get32 (put32 (view s a) (4 * m) w) (4 * l) = (if l = m then w else get32 (view s a) (4 * l))"
proof -
  have "length (view s a) = BSIZE" by (rule st.cont_len [OF assms(1,2)])
  then show ?thesis using assms(3) by (auto simp: const_simps intro: get32_put32_other)
qed

definition bmap_indirect :: "nat \<Rightarrow> nat \<Rightarrow> uint \<Rightarrow> 'a kfs_scheme \<Rightarrow> (uint \<times> 'a kfs_scheme) result" where
  "bmap_indirect i bn addr s =
     rbind (bread (i_dev (icache s ! i)) addr s) (\<lambda>(bp, s).
     let addr = get32 (bdata (bufs s ! bp)) (4 * bn)
     in if addr = 0
        then rbind (balloc (i_dev (icache s ! i)) s) (\<lambda>(addr, s).
             let s = set_bdata bp (put32 (bdata (bufs s ! bp)) (4 * bn) addr) s
             in rbind (log_write bp s) (\<lambda>s. rbind (brelse bp s) (\<lambda>s. Ret (addr, s))))
        else rbind (brelse bp s) (\<lambda>s. Ret (addr, s)))"

lemma bmap_indirect_found:
  assumes r: "room s L {} j" and ok: "fs_ok s" "file_ok s i" and m: "m < NINDIRECT"
    and a: "slot s i NDIRECT = a" "a \<noteq> 0" "slot s i (Suc NDIRECT + m) \<noteq> 0"
  obtains t where "bmap_indirect i m a s = Ret (slot s i (Suc NDIRECT + m), t)" "tx_frame s t" "view t = view s" "room t L {} j"
proof -
  note F = file_okD [OF ok(2)] and R = roomD [OF r]
  have lay: "fs_layout s" using ok by (simp add: fs_ok_def)
  have d: "in_disk s a" using data_blk_props(2) [OF lay F(5) [OF NDIRECT_slot]] a by auto
  obtain b u t where u: "bread 1 a s = Ret (b, u)" "bdata (bufs u ! b) = view s a" "brelse b u = Ret t" "tx_frame s u"
    "tx t L {}" "view t = view s" "tx_frame s t"
    by (rule st.peek [OF R(1) d _ R(4)]) (simp, blast)
  have "slot s i (Suc NDIRECT + m) = get32 (view s a) (4 * m)" using a(1,2) by (simp add: slot_def)
  then have "bmap_indirect i m a s = Ret (slot s i (Suc NDIRECT + m), t)"
    using u a(3) F(2) by (simp add: bmap_indirect_def Let_def)
  then show thesis using that u room_keep [OF r u(5,7)] by blast
qed

lemma bmap_indirect_alloc:
  assumes r: "room s L {} (Suc (Suc (Suc j)))" and ok: "fs_ok s" "file_ok s i" and m: "m < NINDIRECT"
    and a: "slot s i NDIRECT = a" "a \<noteq> 0" "slot s i (Suc NDIRECT + m) = 0" and free: "\<exists>c. free_block s c"
  obtains c t L' where "bmap_indirect i m a s = Ret (of_nat c, t)" "free_block s c" "tx_frame s t" "room t L' {} j"
    "view t = (taken_view (sb s) c (view s))(a := put32 (view s a) (4 * m) (of_nat c))" "fs_ok t"
    "\<And>b. free_block t b \<longleftrightarrow> free_block s b \<and> b \<noteq> c"
proof -
  note F = file_okD [OF ok(2)] and R = roomD [OF r]
  have lay: "fs_layout s" using ok by (simp add: fs_ok_def)
  have da: "data_blk (sb s) (unat a)" "\<not> free_block s (unat a)" using F(5,6) [OF NDIRECT_slot] a by auto
  note A = data_blk_props [OF lay da(1), simplified]
  obtain bp u where u: "bread 1 a s = Ret (bp, u)" "tx u L {a}" "view u = view s" "holds u bp a" "bdata (bufs u ! bp) = view s a" "tx_frame s u"
    using st.rd_ok [OF R(1) A(2) _ R(4)] by auto
  note K = tx_frame_kfs [OF u(6)] and U = fs_ok_view [OF u(6,3)]
  have ru: "room u L {a} (Suc (Suc (Suc j)))" using r u(2) tx_frame_fields [OF u(6)] by (simp add: room_def log_cap_def)
  have na: "no_alloc u {a}"
    using da(2) A(4,6) U K unfolding no_alloc_def by (auto simp: data_blk_props(1) [OF lay free_data [OF ok(1)]])
  obtain b where b: "free_block u b" using free U by auto
  obtain c v where c: "free_block u c" "balloc 1 u = Ret (of_nat c, v)"
    "room v (insert (of_nat c) (insert (BBLOCK c (sb u)) L)) {a} (Suc j)" "view v = taken_view (sb u) c (view u)" "tx_frame u v"
    "\<And>b' n. holds u b' n \<Longrightarrow> holds v b' n" "fs_ok v" "\<And>b. free_block v b \<longleftrightarrow> free_block u b \<and> b \<noteq> c"
    by (rule balloc_ok [OF ru _ _ na b]) (use U ok in \<open>simp, simp, blast\<close>)
  have va: "view v a = view s a"
    using used_fixed(3) [OF ok NDIRECT_slot] a c(1,4) U u(3) K by auto
  let ?d = "put32 (view s a) (4 * m) (of_nat c)"
  note RV = roomD [OF c(3)]
  have wpre: "holds v bp a" "length ?d = BSIZE" "a \<notin> log_area v" "card (insert (of_nat c) (insert (BBLOCK c (sb u)) L)) < log_cap v"
    using c(6) u(4) st.cont_len [OF R(1) A(2)] A(3) tx_frame_fields [OF c(5)] tx_frame_fields [OF u(6)] RV(5) by simp_all
  obtain w where w: "logged_write bp ?d v = Ret w" "tx w (insert a (insert (of_nat c) (insert (BBLOCK c (sb u)) L))) {a}"
    "view w = (view v)(a := ?d)" "\<forall>b' n. holds w b' n = holds v b' n" "tx_frame v w"
    using st.wr_ok [OF RV(1) wpre] by blast
  have "holds w bp a" using w(4) wpre(1) by simp
  then obtain x where x: "brelse bp w = Ret x" "tx x (insert a (insert (of_nat c) (insert (BBLOCK c (sb u)) L))) ({a} - {a})"
    "view x = view w" "tx_frame w x"
    using st.rel_ok [OF w(2)] by blast
  have vx: "tx_frame v x" by (rule tx_frame_trans [OF w(5) x(4)])
  have sx: "tx_frame s x" using u(6) c(5) vx by (blast intro: tx_frame_trans)
  have rx: "room x (insert a (insert (of_nat c) (insert (BBLOCK c (sb u)) L))) {} j"
    using c(3) x(2) RV(2) tx_frame_fields [OF vx] by (auto simp: room_def log_cap_def card_insert_if)
  have z: "slot s i (Suc NDIRECT + m) = get32 (view s a) (4 * m)" using a(1,2) by (simp add: slot_def)
  have e: "bmap_indirect i m a s = Ret (of_nat c, x)"
    using u(1,5) c(2) w(1) x(1) F(2) a(3) z K st.own_dat [OF RV(1) wpre(1)] va
    by (simp add: bmap_indirect_def Let_def logged_write_def)
  have "view x 1 = view v 1" "\<And>b. b < unat (sb_size (sb v)) \<Longrightarrow> view x (BBLOCK b (sb v)) = view v (BBLOCK b (sb v))"
    using A(1,4,6) K tx_frame_kfs(2) [OF c(5)] x(3) w(3) by (auto simp: fun_upd_def)
  note X = fs_ok_cong [OF vx this]
  show thesis
    by (rule that [OF e _ sx rx]) (use c(1,4,7,8) U X x(3) w(3) K u(3) in auto)
qed

lemma bmap_indirect_grow:
  assumes ok: "fs_ok s" "file_ok s i" "tx s L {}" and m: "m < NINDIRECT"
    and a: "slot s i NDIRECT = a" "a \<noteq> 0" "slot s i (Suc NDIRECT + m) = 0"
    and t: "free_block s c" "tx_frame s t" "view t = (taken_view (sb s) c (view s))(a := put32 (view s a) (4 * m) (of_nat c))"
      "fs_ok t" "\<And>b. free_block t b \<longleftrightarrow> free_block s b \<and> b \<noteq> c"
  shows "grow i 1 s t" "slot t i (Suc NDIRECT + m) = of_nat c"
proof -
  have lay: "fs_layout s" using ok by (simp add: fs_ok_def)
  note F = file_okD [OF ok(2)] and K = tx_frame_kfs [OF t(2)] and D = data_blk_props [OF lay free_data [OF ok(1) t(1)]]
  have da: "in_disk s a" using data_blk_props(2) [OF lay F(5) [OF NDIRECT_slot]] a by auto
  have at: "addr_at i l t = addr_at i l s" for l using K by (simp add: addr_at_def)
  have an: "addr_at i NDIRECT s = a" using a(1) by (simp add: slot_def)
  have sl: "slot t i l = (if l = Suc NDIRECT + m then of_nat c else slot s i l)" if "l < NSLOT" for l
  proof (cases "l \<le> NDIRECT")
    case True
    then show ?thesis by (auto simp: slot_def at)
  next
    case False
    then have "slot t i l = get32 (put32 (view s a) (4 * m) (of_nat c)) (4 * (l - Suc NDIRECT))"
      using at an a(2) t(3) by (simp add: slot_def)
    also have "\<dots> = (if l - Suc NDIRECT = m then of_nat c else get32 (view s a) (4 * (l - Suc NDIRECT)))"
      by (rule indirect_entry [OF ok(3) da m])
    finally show ?thesis using False an a(2) by (auto simp: slot_def)
  qed
  have k: "Suc NDIRECT + m < NSLOT" using m by (simp add: NSLOT_def)
  show "slot t i (Suc NDIRECT + m) = of_nat c" using sl [OF k] by simp
  have ca: "of_nat c \<noteq> a" using used_fixed(1) [OF ok(1,2) NDIRECT_slot _ t(1)] a by auto
  show "grow i 1 s t"
  proof (rule grow_alloc [OF ok(1,2) t(1) k a(3) fs_frame_tx [OF t(2)] t(4)])
    show "view t (of_nat c) = replicate BSIZE 0" using ca by (simp add: t(3) taken_view_def)
    show "view t bn = view s bn" if "fixed_blk s i bn" for bn
      using taken_view_fixed [OF ok(1) t(1) that] that a(1,2) by (auto simp: t(3) fixed_blk_def)
  qed (use sl t(5) K F(3) in simp_all)
qed

lemma bmap_split:
  "bmap i bn s = (if bn < NDIRECT then addr_or_alloc i bn s
     else if bn - NDIRECT < NINDIRECT then rbind (addr_or_alloc i NDIRECT s) (\<lambda>(a, s). bmap_indirect i (bn - NDIRECT) a s)
     else Panic ''bmap: out of range'')"
  unfolding bmap_def Let_def bmap_indirect_def by simp

text \<open>Reading blocks changes no file.\<close>

lemma same_file:
  assumes "tx_frame s t" "view t = view s"
  shows "slot t i = slot s i" "file_ok t i = file_ok s i" "file_data t i = file_data s i"
    "fs_ok s \<Longrightarrow> file_ok s i \<Longrightarrow> grow i 0 s t"
proof -
  note K = tx_frame_kfs [OF assms(1)] and V = fs_ok_view [OF assms]
  show sl: "slot t i = slot s i" using K assms(2) by (simp add: slot_def addr_at_def fun_eq_iff)
  show fo: "file_ok t i = file_ok s i" using K V sl by (simp add: file_ok_def)
  show fd: "file_data t i = file_data s i" using sl assms(2) by (simp add: file_data_def fun_eq_iff Let_def)
  show "fs_ok s \<Longrightarrow> file_ok s i \<Longrightarrow> grow i 0 s t"
    using fs_frame_tx [OF assms(1)] K V sl fo fd assms(2) by (simp add: grow_def)
qed

lemma bmap_found:
  assumes r: "room s L {} j" and ok: "fs_ok s" "file_ok s i" and bn: "bn < MAXFILE" "slot s i (slot_of bn) \<noteq> 0"
  obtains t where "bmap i bn s = Ret (slot s i (slot_of bn), t)" "tx_frame s t" "view t = view s" "room t L {} j"
proof (cases "bn < NDIRECT")
  case True
  then show thesis
    using that [of s] bn r by (simp add: bmap_split addr_or_alloc_def slot_of_def slot_def)
next
  case False
  let ?m = "bn - NDIRECT"
  have m: "?m < NINDIRECT" "slot s i (Suc NDIRECT + ?m) \<noteq> 0" "slot_of bn = Suc NDIRECT + ?m"
    using False bn by (auto simp: slot_of_def MAXFILE_def)
  then have a: "addr_at i NDIRECT s \<noteq> 0" by (auto simp: slot_def)
  obtain t where "bmap_indirect i ?m (addr_at i NDIRECT s) s = Ret (slot s i (Suc NDIRECT + ?m), t)" "tx_frame s t" "view t = view s"
    "room t L {} j"
    by (rule bmap_indirect_found [OF r ok m(1) _ a m(2)]) (simp add: slot_def, blast)
  then show thesis using that False m a by (simp add: bmap_split addr_or_alloc_def)
qed

lemma card_pos_ex: "0 < card (Collect P) \<Longrightarrow> \<exists>c. P c"
  by (metis Collect_empty_eq card.empty less_irrefl)

lemma bmap_ok:
  assumes r: "room s L {} (5 + j)" and ok: "fs_ok s" "file_ok s i" and bn: "bn < MAXFILE"
    and free: "2 \<le> card (Collect (free_block s))"
  obtains a t L' where "bmap i bn s = Ret (a, t)" "slot t i (slot_of bn) = a" "a \<noteq> 0" "grow i 2 s t" "room t L' {} j"
proof -
  have ex: "\<exists>c. free_block s c" by (rule card_pos_ex) (use free in simp)
  have r': "room s L {} (Suc (Suc (3 + j)))" using r by (simp add: eval_nat_numeral)
  show thesis
  proof (cases "bn < NDIRECT")
    case True
    obtain a t L' where t: "addr_or_alloc i bn s = Ret (a, t)" "slot t i bn = a" "a \<noteq> 0" "grow i 1 s t" "room t L' {} (3 + j)"
      by (rule addr_or_alloc_ok [OF r' ok less_imp_le [OF True] ex])
    show thesis
      by (rule that [OF _ _ t(3) grow_weaken [OF t(4)] room_less [OF t(5)]]) (use t(1,2) True in \<open>simp_all add: bmap_split slot_of_def\<close>)
  next
    case False
    let ?m = "bn - NDIRECT"
    have m: "?m < NINDIRECT" "slot_of bn = Suc NDIRECT + ?m" using False bn by (auto simp: slot_of_def MAXFILE_def)
    obtain a t L' where t: "addr_or_alloc i NDIRECT s = Ret (a, t)" "slot t i NDIRECT = a" "a \<noteq> 0" "grow i 1 s t" "room t L' {} (3 + j)"
      by (rule addr_or_alloc_ok [OF r' ok order_refl ex])
    have ok': "fs_ok t" "file_ok t i" "1 \<le> card (Collect (free_block t))" using t(4) free by (simp_all add: grow_def)
    have e: "bmap i bn s = bmap_indirect i ?m a t" using False m t(1) by (simp add: bmap_split)
    show thesis
    proof (cases "slot t i (Suc NDIRECT + ?m) = 0")
      case True
      have ex': "\<exists>c. free_block t c" by (rule card_pos_ex) (use ok'(3) in simp)
      have rt: "room t L' {} (Suc (Suc (Suc j)))" using t(5) by (simp add: eval_nat_numeral)
      obtain c u L'' where u: "bmap_indirect i ?m a t = Ret (of_nat c, u)" "free_block t c" "tx_frame t u" "room u L'' {} j"
        "view u = (taken_view (sb t) c (view t))(a := put32 (view t a) (4 * ?m) (of_nat c))" "fs_ok u"
        "\<And>b. free_block u b \<longleftrightarrow> free_block t b \<and> b \<noteq> c"
        by (rule bmap_indirect_alloc [OF rt ok'(1,2) m(1) t(2,3) True ex']) blast
      note G = bmap_indirect_grow [OF ok'(1,2) roomD(1) [OF rt] m(1) t(2,3) True u(2,3,5,6,7)]
      have "of_nat c \<noteq> (0::uint)"
        using data_blk_props(1,4) [OF _ free_data [OF ok'(1) u(2)]] ok'(1) by (metis fs_ok_def not_less_zero unat_0)
      moreover have "grow i 2 s u" using grow_trans [OF t(4) G(1)] by (simp add: numeral_2_eq_2)
      ultimately show thesis using that [OF _ _ _ _ u(4)] e u(1) G(2) m(2) by simp
    next
      case nz: False
      obtain u where u: "bmap_indirect i ?m a t = Ret (slot t i (Suc NDIRECT + ?m), u)" "tx_frame t u" "view u = view t" "room u L' {} (3 + j)"
        by (rule bmap_indirect_found [OF t(5) ok'(1,2) m(1) t(2,3) nz]) blast
      note g = same_file(4) [OF u(2,3) ok'(1,2)] same_file(1) [OF u(2,3)]
      show thesis
        using that [OF _ _ _ _ room_less [OF u(4)]] e u(1) g nz m(2) grow_weaken [OF grow_trans [OF t(4) g(1)]] by simp
    qed
  qed
qed

subsection \<open>Files as byte sequences\<close>

definition fbytes :: "'a kfs_scheme \<Rightarrow> nat \<Rightarrow> uchar list" where
  "fbytes s i = concat (map (file_data s i) [0..<MAXFILE])"

definition file_bytes :: "'a kfs_scheme \<Rightarrow> nat \<Rightarrow> uchar list" where
  "file_bytes s i = take (unat (i_size (icache s ! i))) (fbytes s i)"

lemma length_concat_blocks:
  "(\<And>n. n < N \<Longrightarrow> length (f n) = B) \<Longrightarrow> length (concat (map f [0..<N])) = N * B"
  by (induction N) auto

lemma nth_concat_blocks:
  assumes "\<And>n. n < N \<Longrightarrow> length (f n) = B" "p < N * B"
  shows "concat (map f [0..<N]) ! p = f (p div B) ! (p mod B)"
  using assms
proof (induction N)
  case (Suc N)
  have l: "length (concat (map f [0..<N])) = N * B" using Suc.prems(1) by (intro length_concat_blocks) simp
  show ?case
  proof (cases "p < N * B")
    case True
    then show ?thesis using Suc l by (simp add: nth_append)
  next
    case False
    have "B \<noteq> 0" using Suc.prems(2) False by (cases B) auto
    moreover have "p div B = N" using False Suc.prems(2) by (intro div_nat_eqI) (simp_all add: mult.commute)
    moreover have "p - N * B = p mod B" using \<open>p div B = N\<close> by (metis minus_div_mult_eq_mod mult.commute)
    ultimately show ?thesis using False l by (simp add: nth_append)
  qed
qed simp

lemma length_file_data:
  assumes "tx s L H" "fs_ok s" "file_ok s i" "n < MAXFILE"
  shows "length (file_data s i n) = BSIZE"
proof (cases "slot s i (slot_of n) = 0")
  case False
  have "in_disk s (of_nat (unat (slot s i (slot_of n))))"
    by (rule data_blk_props(2)) (use assms file_okD(5) [OF assms(3) slot_of_props(1) [OF assms(4)] False] in \<open>simp_all add: fs_ok_def\<close>)
  then show ?thesis using False st.cont_len [OF assms(1)] by (simp add: file_data_def Let_def)
qed (simp add: file_data_def)

lemma fbytes_nth:
  assumes "tx s L H" "fs_ok s" "file_ok s i"
  shows "length (fbytes s i) = MAXFILE * BSIZE"
    "p < MAXFILE * BSIZE \<Longrightarrow> fbytes s i ! p = file_data s i (p div BSIZE) ! (p mod BSIZE)"
  unfolding fbytes_def using length_file_data [OF assms] by (auto intro: length_concat_blocks nth_concat_blocks)

lemma div_mod_within:
  assumes "x mod B + j < (B::nat)"
  shows "(x + j) div B = x div B" "(x + j) mod B = x mod B + j"
  using assms div_add1_eq [of x j B] mod_add_left_eq [of x B j] by simp_all

lemma fbytes_part:
  assumes "tx s L H" "fs_ok s" "file_ok s i" "off div BSIZE < MAXFILE" "m \<le> BSIZE - off mod BSIZE"
  shows "take m (drop (off mod BSIZE) (file_data s i (off div BSIZE))) = take m (drop off (fbytes s i))"
proof (rule nth_equalityI)
  note L = length_file_data [OF assms(1-4)] and B = fbytes_nth [OF assms(1-3)]
  have B0: "0 < BSIZE" by (simp add: const_simps)
  have e: "off = off div BSIZE * BSIZE + off mod BSIZE" by simp
  have le: "off div BSIZE * BSIZE + BSIZE \<le> MAXFILE * BSIZE"
    using assms(4) by (metis Suc_leI add.commute mult_Suc mult_le_mono1)
  have r: "off + m \<le> MAXFILE * BSIZE" using e le assms(5) mod_less_divisor [OF B0, of off] by linarith
  show "length (take m (drop (off mod BSIZE) (file_data s i (off div BSIZE)))) = length (take m (drop off (fbytes s i)))"
    using L B(1) r assms(5) by simp
  fix j assume "j < length (take m (drop (off mod BSIZE) (file_data s i (off div BSIZE))))"
  then have j: "j < m" by simp
  have "off mod BSIZE + j < BSIZE" using j assms(5) by linarith
  note d = div_mod_within [OF this]
  show "take m (drop (off mod BSIZE) (file_data s i (off div BSIZE))) ! j = take m (drop off (fbytes s i)) ! j"
    using j B(2) [of "off + j"] r d L B(1) assms(5) by simp
qed

text \<open>A file without holes before its end.\<close>

definition no_holes :: "'a kfs_scheme \<Rightarrow> nat \<Rightarrow> bool" where
  "no_holes s i \<longleftrightarrow> unat (i_size (icache s ! i)) \<le> MAXFILE * BSIZE \<and>
     (\<forall>n. n * BSIZE < unat (i_size (icache s ! i)) \<longrightarrow> slot s i (slot_of n) \<noteq> 0)"

lemma readi_loop_ok:
  assumes r: "room s L {} j" and ok: "fs_ok s" "file_ok s i" "no_holes s i" and k: "off + k \<le> unat (i_size (icache s ! i))"
  shows "\<exists>t. readi_loop i off k s = Ret (take k (drop off (fbytes s i)), t) \<and> tx_frame s t \<and> view t = view s \<and> room t L {} j"
  using assms
proof (induction k arbitrary: off s rule: less_induct)
  case (less k)
  show ?case
  proof (cases "k = 0")
    case True
    then show ?thesis using less.prems(1) by (simp add: readi_loop.simps)
  next
    case False
    have B0: "0 < BSIZE" by (simp add: const_simps)
    let ?n = "off div BSIZE" and ?m = "min k (BSIZE - off mod BSIZE)"
    have lt: "off < unat (i_size (icache s ! i))" using False less.prems(5) by simp
    then have n: "?n * BSIZE < unat (i_size (icache s ! i))" using div_times_less_eq_dividend [of off BSIZE] by linarith
    have max: "?n < MAXFILE"
      using lt less.prems(4) by (auto simp: no_holes_def intro!: less_mult_imp_div_less)
    have nz: "slot s i (slot_of ?n) \<noteq> 0" using n less.prems(4) by (simp add: no_holes_def)
    obtain t where t: "bmap i ?n s = Ret (slot s i (slot_of ?n), t)" "tx_frame s t" "view t = view s" "room t L {} j"
      by (rule bmap_found [OF less.prems(1-3) max nz]) blast
    note K = tx_frame_kfs [OF t(2)] and S = same_file [OF t(2,3)] and V = fs_ok_view [OF t(2,3)]
    let ?a = "slot s i (slot_of ?n)"
    have lay: "fs_layout s" using less.prems(2) by (simp add: fs_ok_def)
    have "in_disk s ?a"
      using data_blk_props(2) [OF lay file_okD(5) [OF less.prems(3) slot_of_props(1) [OF max] nz]] by simp
    then have d: "in_disk t ?a" using tx_frame_fields [OF t(2)] by (simp add: in_disk_def)
    note RT = roomD [OF t(4)]
    obtain b u v where u: "bread 1 ?a t = Ret (b, u)" "bdata (bufs u ! b) = view t ?a" "brelse b u = Ret v" "tx v L {}"
      "view v = view t" "tx_frame t v"
      by (rule st.peek [OF RT(1) d _ RT(4)]) (simp, blast)
    have sv: "tx_frame s v" "view v = view s" using tx_frame_trans [OF t(2) u(6)] u(5) t(3) by simp_all
    note KV = tx_frame_kfs [OF sv(1)] and SV = same_file [OF sv] and VV = fs_ok_view [OF sv]
    have rv: "room v L {} j" by (rule room_keep [OF less.prems(1) u(4) sv(1)])
    have m: "?m \<noteq> 0" "?m \<le> k" "k - ?m < k" using False mod_less_divisor [OF B0, of off] by auto
    have "\<exists>t. readi_loop i (off + ?m) (k - ?m) v = Ret (take (k - ?m) (drop (off + ?m) (fbytes v i)), t) \<and> tx_frame v t \<and>
        view t = view v \<and> room t L {} j"
      by (rule less.IH [OF m(3) rv]) (use less.prems m(2) KV SV VV in \<open>simp_all add: no_holes_def\<close>)
    then obtain w where w: "readi_loop i (off + ?m) (k - ?m) v = Ret (take (k - ?m) (drop (off + ?m) (fbytes v i)), w)"
      "tx_frame v w" "view w = view v" "room w L {} j" by blast
    have fb: "fbytes v i = fbytes s i" using SV by (simp add: fbytes_def)
    have x: "take ?m (drop (off mod BSIZE) (view t ?a)) = take ?m (drop off (fbytes s i))"
      using fbytes_part [OF roomD(1) [OF less.prems(1)] less.prems(2,3) max, of ?m] nz t(3) by (simp add: file_data_def Let_def)
    have "take ?m (drop off (fbytes s i)) @ take (k - ?m) (drop (off + ?m) (fbytes s i)) = take k (drop off (fbytes s i))"
      using take_add [of ?m "k - ?m" "drop off (fbytes s i)"] m(2) by (simp add: add.commute)
    then have "readi_loop i off k s = Ret (take k (drop off (fbytes s i)), w)"
      using False t(1) K file_okD(2) [OF less.prems(3)] u(1-3) w(1) fb x by (subst readi_loop.simps) (simp add: Let_def)
    then show ?thesis using w sv tx_frame_trans [OF sv(1) w(2)] by auto
  qed
qed

subsection \<open>Overwriting a file\<close>

text \<open>Blocks that do not belong to inode \<open>i\<close>, and that it cannot be given.\<close>

definition other_blk :: "'a kfs_scheme \<Rightarrow> nat \<Rightarrow> uint \<Rightarrow> bool" where
  "other_blk s i bn \<longleftrightarrow> fixed_blk s i bn \<and> (\<forall>k < NSLOT. slot s i k \<noteq> 0 \<longrightarrow> bn \<noteq> slot s i k)"

text \<open>
  From \<open>s\<close> to \<open>t\<close> the bytes \<open>src\<close> have been written at \<open>off\<close>, using at most \<open>d\<close> free blocks.
\<close>

definition wrote :: "nat \<Rightarrow> nat \<Rightarrow> nat \<Rightarrow> uchar list \<Rightarrow> 'a kfs_scheme \<Rightarrow> 'a kfs_scheme \<Rightarrow> bool" where
  "wrote i d off src s t \<longleftrightarrow> fs_frame i s t \<and> fs_ok t \<and> file_ok t i \<and> i_size (icache t ! i) = i_size (icache s ! i) \<and>
     fbytes t i = splice (fbytes s i) off src \<and>
     (\<forall>k < NSLOT. if slot s i k \<noteq> 0 then slot t i k = slot s i k
        else slot t i k = 0 \<or> free_block s (unat (slot t i k))) \<and>
     (\<forall>p < length src. slot t i (slot_of ((off + p) div BSIZE)) \<noteq> 0) \<and>
     (\<forall>b. free_block t b \<longrightarrow> free_block s b) \<and> card (Collect (free_block s)) \<le> card (Collect (free_block t)) + d \<and>
     (\<forall>bn. other_blk s i bn \<longrightarrow> view t bn = view s bn) \<and>
     ((\<forall>p < length src. slot s i (slot_of ((off + p) div BSIZE)) \<noteq> 0) \<longrightarrow> icache t = icache s)"

lemma wroteD:
  assumes "wrote i d off src s t"
  shows "fs_frame i s t" "fs_ok t" "file_ok t i" "i_size (icache t ! i) = i_size (icache s ! i)"
    "fbytes t i = splice (fbytes s i) off src"
    "\<And>k. k < NSLOT \<Longrightarrow> if slot s i k \<noteq> 0 then slot t i k = slot s i k else slot t i k = 0 \<or> free_block s (unat (slot t i k))"
    "\<And>p. p < length src \<Longrightarrow> slot t i (slot_of ((off + p) div BSIZE)) \<noteq> 0"
    "\<And>b. free_block t b \<Longrightarrow> free_block s b" "card (Collect (free_block s)) \<le> card (Collect (free_block t)) + d"
    "\<And>bn. other_blk s i bn \<Longrightarrow> view t bn = view s bn"
    "(\<And>p. p < length src \<Longrightarrow> slot s i (slot_of ((off + p) div BSIZE)) \<noteq> 0) \<Longrightarrow> icache t = icache s"
  using assms by (simp_all add: wrote_def)

lemma splice_splice:
  assumes "off + length a + length b \<le> length d"
  shows "splice (splice d off a) (off + length a) b = splice d off (a @ b)"
proof (rule nth_equalityI)
  fix j assume "j < length (splice (splice d off a) (off + length a) b)"
  then show "splice (splice d off a) (off + length a) b ! j = splice d off (a @ b) ! j"
    using assms by (simp add: splice_nth nth_append) linarith
qed (use assms in simp)

lemma other_blk_later:
  assumes "other_blk s i bn" "sb t = sb s" "\<And>b. free_block t b \<Longrightarrow> free_block s b"
    "\<And>k. k < NSLOT \<Longrightarrow> if slot s i k \<noteq> 0 then slot t i k = slot s i k else slot t i k = 0 \<or> free_block s (unat (slot t i k))"
  shows "other_blk t i bn"
proof -
  have "bn \<noteq> slot t i k" if "k < NSLOT" "slot t i k \<noteq> 0" for k
    using assms(1) assms(4) [OF that(1)] that by (auto simp: other_blk_def fixed_blk_def split: if_splits)
  then show ?thesis using assms NDIRECT_slot by (auto simp: other_blk_def fixed_blk_def)
qed

lemma wrote_trans:
  assumes a: "wrote i d off x s t" and b: "wrote i e (off + length x) y t u" and l: "off + length x + length y \<le> MAXFILE * BSIZE"
      "length (fbytes s i) = MAXFILE * BSIZE"
  shows "wrote i (d + e) off (x @ y) s u"
proof -
  note A = wroteD [OF a] and B = wroteD [OF b]
  have sl: "if slot s i k \<noteq> 0 then slot u i k = slot s i k else slot u i k = 0 \<or> free_block s (unat (slot u i k))" if "k < NSLOT" for k
    using A(6) [OF that] B(6) [OF that] A(8) by (auto split: if_splits)
  have "slot u i (slot_of ((off + p) div BSIZE)) \<noteq> 0" if p: "p < length (x @ y)" for p
  proof (cases "p < length x")
    case True
    have "(off + p) div BSIZE < MAXFILE" using True l by (intro less_mult_imp_div_less) simp
    then show ?thesis using A(7) [OF True] B(6) [OF slot_of_props(1)] by (metis (full_types))
  next
    case False
    then obtain q where "p = length x + q" using le_Suc_ex not_less by blast
    then show ?thesis using B(7) [of q] p by (simp add: add.assoc)
  qed
  moreover have "view u bn = view s bn" if f: "other_blk s i bn" for bn
  proof -
    have "other_blk t i bn" by (rule other_blk_later [OF f fs_frame_fields(1) [OF A(1)] A(8,6)])
    then show ?thesis using A(10) [OF f] B(10) by simp
  qed
  moreover have "icache u = icache s" if m: "\<forall>p < length (x @ y). slot s i (slot_of ((off + p) div BSIZE)) \<noteq> 0"
  proof -
    have "icache t = icache s" by (rule A(11)) (use m in simp)
    moreover have "slot t i (slot_of ((off + length x + q) div BSIZE)) \<noteq> 0" if "q < length y" for q
    proof -
      have "(off + length x + q) div BSIZE < MAXFILE" using that l by (intro less_mult_imp_div_less) simp
      then show ?thesis using m [rule_format, of "length x + q"] A(6) [OF slot_of_props(1)] that
        by (metis (full_types) add.assoc length_append nat_add_left_cancel_less)
    qed
    then have "icache u = icache t" by (rule B(11))
    ultimately show ?thesis by simp
  qed
  ultimately show ?thesis
    unfolding wrote_def
    using A B sl fs_frame_trans [OF A(1) B(1)] splice_splice [OF l(1) [folded l(2)]] by auto
qed

text \<open>Overwriting one data block of a file.\<close>

lemma poke_slot:
  assumes ok: "fs_ok s" "file_ok s i" and n: "n < MAXFILE" and a: "slot s i (slot_of n) = a" "a \<noteq> 0"
    and t: "tx_frame s t" "view t = (view s)(a := d)"
  shows "fs_ok t" "free_block t = free_block s" "slot t i = slot s i" "file_ok t i"
    "n' < MAXFILE \<Longrightarrow> file_data t i n' = (if n' = n then d else file_data s i n')"
    "other_blk s i bn \<Longrightarrow> view t bn = view s bn"
proof -
  have lay: "fs_layout s" using ok(1) by (simp add: fs_ok_def)
  note F = file_okD [OF ok(2)] and K = tx_frame_kfs [OF t(1)] and P = slot_of_props(1) [OF n]
  note D = data_blk_props [OF lay F(5) [OF P], unfolded a(1), OF a(2), simplified]
  have "view t 1 = view s 1" "\<And>b. b < unat (sb_size (sb s)) \<Longrightarrow> view t (BBLOCK b (sb s)) = view s (BBLOCK b (sb s))"
    unfolding t(2) using D(4,6) by (auto simp: fun_upd_def)
  note C = fs_ok_cong [OF t(1) this]
  show "fs_ok t" "free_block t = free_block s" using C ok(1) by simp_all
  have "a \<noteq> slot s i NDIRECT" using F(7) [OF P NDIRECT_slot] slot_of_props(2) [of n] a by auto
  then have "a \<noteq> addr_at i NDIRECT s" by (simp add: slot_def)
  then show sl: "slot t i = slot s i" using K t(2) by (auto simp: slot_def addr_at_def fun_eq_iff)
  show "file_ok t i" using ok(2) K C sl by (simp add: file_ok_def)
  show "file_data t i n' = (if n' = n then d else file_data s i n')" if "n' < MAXFILE"
  proof (cases "slot s i (slot_of n') = a")
    case True
    then have "n' = n" using F(7) [OF slot_of_props(1) [OF that] P] a slot_of_props(3) [of n' n] by metis
    then show ?thesis using a t(2) sl by (simp add: file_data_def Let_def)
  next
    case False
    then have "n' \<noteq> n" using a(1) by blast
    then show ?thesis using False t(2) sl by (simp add: file_data_def Let_def)
  qed
  show "view t bn = view s bn" if "other_blk s i bn" using that P a t(2) by (auto simp: other_blk_def)
qed

lemma fbytes_poke:
  assumes s: "tx s L H" "fs_ok s" "file_ok s i" and t: "tx t L' H'" "fs_ok t" "file_ok t i"
    and n: "off div BSIZE < MAXFILE" "length x \<le> BSIZE - off mod BSIZE"
    and d: "\<And>n. n < MAXFILE \<Longrightarrow> file_data t i n =
      (if n = off div BSIZE then splice (file_data s i n) (off mod BSIZE) x else file_data s i n)"
  shows "fbytes t i = splice (fbytes s i) off x"
proof (rule nth_equalityI)
  note S = fbytes_nth [OF s] and T = fbytes_nth [OF t]
  have B0: "0 < BSIZE" by (simp add: const_simps)
  have e: "off = off div BSIZE * BSIZE + off mod BSIZE" by simp
  have le: "off div BSIZE * BSIZE + BSIZE \<le> MAXFILE * BSIZE"
    using n(1) by (metis Suc_leI add.commute mult_Suc mult_le_mono1)
  have r: "off + length x \<le> MAXFILE * BSIZE" using e le n(2) mod_less_divisor [OF B0, of off] by linarith
  show "length (fbytes t i) = length (splice (fbytes s i) off x)" using S T r by simp
  fix p assume "p < length (fbytes t i)"
  then have p: "p < MAXFILE * BSIZE" using T by simp
  then have pm: "p div BSIZE < MAXFILE" by (simp add: less_mult_imp_div_less)
  have pe: "p = p div BSIZE * BSIZE + p mod BSIZE" by simp
  have lm: "p mod BSIZE < BSIZE" "off mod BSIZE < BSIZE" using B0 by simp_all
  have "file_data t i (p div BSIZE) ! (p mod BSIZE) = splice (fbytes s i) off x ! p"
  proof (cases "p div BSIZE = off div BSIZE")
    case True
    then have pe': "p = off div BSIZE * BSIZE + p mod BSIZE" using pe by simp
    have "off \<le> p \<and> p < off + length x \<longleftrightarrow> off mod BSIZE \<le> p mod BSIZE \<and> p mod BSIZE < off mod BSIZE + length x"
      "p - off = p mod BSIZE - off mod BSIZE"
      using pe' e by linarith+
    moreover have "length (file_data s i (p div BSIZE)) = BSIZE" by (rule length_file_data [OF s pm])
    ultimately show ?thesis
      using True d [OF pm] S p r n(2) lm by (simp add: splice_nth)
  next
    case False
    have "\<not> (off \<le> p \<and> p < off + length x)"
    proof
      assume a: "off \<le> p \<and> p < off + length x"
      then have "off mod BSIZE + (p - off) < BSIZE" using n(2) lm by linarith
      then have "(off + (p - off)) div BSIZE = off div BSIZE" by (rule div_mod_within)
      then show False using a False by simp
    qed
    then show ?thesis using False d [OF pm] S p r by (auto simp: splice_nth)
  qed
  then show "fbytes t i ! p = splice (fbytes s i) off x ! p" using T(2) [OF p] by simp
qed

lemma writei_step:
  assumes r: "room s L {} (6 + j)" and ok: "fs_ok s" "file_ok s i" and n: "off div BSIZE < MAXFILE"
    and x: "length x \<le> BSIZE - off mod BSIZE" and ne: "x \<noteq> []" and free: "2 \<le> card (Collect (free_block s))"
  obtains t L' where "rbind (bmap i (off div BSIZE) s) (\<lambda>(a, s). rbind (bread (i_dev (icache s ! i)) a s) (\<lambda>(bp, s).
      let s = set_bdata bp (splice (bdata (bufs s ! bp)) (off mod BSIZE) x) s
      in rbind (log_write bp s) (\<lambda>s. brelse bp s))) = Ret t"
    "wrote i 2 off x s t" "room t L' {} j"
proof -
  let ?n = "off div BSIZE"
  have r': "room s L {} (5 + Suc j)" using r by simp
  obtain a u L' where u: "bmap i ?n s = Ret (a, u)" "slot u i (slot_of ?n) = a" "a \<noteq> 0" "grow i 2 s u" "room u L' {} (Suc j)"
    by (rule bmap_ok [OF r' ok n free])
  have G: "fs_frame i s u" "fs_ok u" "file_ok u i" "i_size (icache u ! i) = i_size (icache s ! i)"
    "\<And>n. n < MAXFILE \<Longrightarrow> file_data u i n = file_data s i n"
    "\<And>k. k < NSLOT \<Longrightarrow> if slot s i k \<noteq> 0 then slot u i k = slot s i k else slot u i k = 0 \<or> free_block s (unat (slot u i k))"
    "\<And>b. free_block u b \<Longrightarrow> free_block s b" "card (Collect (free_block s)) \<le> card (Collect (free_block u)) + 2"
    "\<And>bn. fixed_blk s i bn \<Longrightarrow> view u bn = view s bn"
    using u(4) by (simp_all add: grow_def)
  have lay: "fs_layout u" using G(2) by (simp add: fs_ok_def)
  note F = file_okD [OF G(3)] and P = slot_of_props(1) [OF n] and RU = roomD [OF u(5)]
  note D = data_blk_props [OF lay F(5) [OF P], unfolded u(2), OF u(3), simplified]
  have len: "length (view u a) = BSIZE" by (rule st.cont_len [OF RU(1) D(2)])
  have fit: "off mod BSIZE + length x \<le> BSIZE" using x mod_less_divisor [of BSIZE off] by (simp add: const_simps)
  obtain t where t: "rbind (bread 1 a u) (\<lambda>(b, s). let s = set_bdata b (splice (bdata (bufs s ! b)) (off mod BSIZE) x) s
      in rbind (log_write b s) (\<lambda>s. brelse b s)) = Ret t"
    "room t (insert a L') {} j" "view t = (view u)(a := splice (view u a) (off mod BSIZE) x)" "tx_frame u t"
    by (rule poke_ok [OF u(5) D(2) _ D(3), of "\<lambda>d. splice d (off mod BSIZE) x"]) (use len fit in auto)
  note Q = poke_slot [OF G(2,3) n u(2,3) t(4,3)] and KT = tx_frame_kfs [OF t(4)]
  have "fbytes t i = splice (fbytes s i) off x"
  proof (rule fbytes_poke [OF roomD(1) [OF r] ok roomD(1) [OF t(2)] Q(1,4) n x])
    fix m assume m: "m < MAXFILE"
    show "file_data t i m = (if m = ?n then splice (file_data s i m) (off mod BSIZE) x else file_data s i m)"
      using Q(5) [OF m] G(5) [OF m] u(2,3) by (auto simp: file_data_def Let_def)
  qed
  moreover have "slot t i (slot_of ((off + p) div BSIZE)) \<noteq> 0" if "p < length x" for p
  proof -
    have "(off + p) div BSIZE = ?n" by (rule div_mod_within) (use that x in linarith)
    then show ?thesis using Q(3) u(2,3) by simp
  qed
  moreover have "view t bn = view s bn" if o: "other_blk s i bn" for bn
  proof -
    have "other_blk u i bn" by (rule other_blk_later [OF o fs_frame_fields(1) [OF G(1)] G(7,6)])
    then show ?thesis using Q(6) G(9) o by (simp add: other_blk_def)
  qed
  moreover have "icache t = icache s" if m: "\<forall>p < length x. slot s i (slot_of ((off + p) div BSIZE)) \<noteq> 0"
  proof -
    have "slot s i (slot_of ?n) \<noteq> 0" using m [rule_format, of 0] ne by simp
    from bmap_found [OF r ok n this] u(1) have "tx_frame s u" by (metis prod.inject result.inject(1))
    then show ?thesis using KT tx_frame_kfs(1) by metis
  qed
  ultimately have "wrote i 2 off x s t"
    unfolding wrote_def using fs_frame_trans [OF G(1) fs_frame_tx [OF t(4)]] Q(1-4) G(4,6-8) KT by auto
  moreover have "i_dev (icache u ! i) = 1" by (rule F(2))
  ultimately show thesis using that [OF _ _ t(2)] u(1) t(1) by simp
qed

text \<open>The number of blocks that hold the bytes from \<open>off\<close> on.\<close>

definition nblocks :: "nat \<Rightarrow> nat \<Rightarrow> nat" where
  "nblocks off n = (if n = 0 then 0 else (off + n - 1) div BSIZE - off div BSIZE + 1)"

lemma nblocks_step:
  fixes off :: nat
  assumes "n \<noteq> 0"
  defines "m \<equiv> min n (BSIZE - off mod BSIZE)"
  shows "nblocks off n = Suc (nblocks (off + m) (n - m))"
proof (cases "m = n")
  case True
  have "off mod BSIZE + (n - 1) < BSIZE"
    using True assms mod_less_divisor [of BSIZE off] by (auto simp: min_def const_simps split: if_splits)
  then have "(off + (n - 1)) div BSIZE = off div BSIZE" by (rule div_mod_within)
  then show ?thesis using True assms(1) by (simp add: nblocks_def)
next
  case False
  have B0: "0 < BSIZE" by (simp add: const_simps)
  have m: "m = BSIZE - off mod BSIZE" "m < n" using False by (auto simp: m_def min_def split: if_splits)
  have om: "off + m = (off div BSIZE + 1) * BSIZE"
    using m(1) mod_less_divisor [OF B0, of off] div_mult_mod_eq [of off BSIZE] unfolding add_mult_distrib by linarith
  then have "(off + m) div BSIZE = off div BSIZE + 1" using B0 by simp
  moreover have "off div BSIZE + 1 \<le> (off + n - 1) div BSIZE"
  proof -
    have "off + m \<le> off + n - 1" using m(2) by simp
    then have "(off + m) div BSIZE \<le> (off + n - 1) div BSIZE" by (rule div_le_mono)
    with calculation show ?thesis by simp
  qed
  ultimately show ?thesis using m(2) by (simp add: nblocks_def)
qed

lemma wrote_refl: "fs_ok s \<Longrightarrow> file_ok s i \<Longrightarrow> wrote i 0 off [] s s"
  by (simp add: wrote_def)

lemma writei_loop_ok:
  assumes "room s L {} (6 * nblocks off (length src) + j)" "fs_ok s" "file_ok s i" "off + length src \<le> MAXFILE * BSIZE"
    "2 * nblocks off (length src) \<le> card (Collect (free_block s))"
  shows "\<exists>t L'. writei_loop i off src s = Ret t \<and> wrote i (2 * nblocks off (length src)) off src s t \<and> room t L' {} j"
  using assms
proof (induction "length src" arbitrary: off src s L rule: less_induct)
  case less
  show ?case
  proof (cases "src = []")
    case True
    then show ?thesis using less.prems wrote_refl [of s i off] by (auto simp: writei_loop.simps nblocks_def)
  next
    case False
    have B0: "0 < BSIZE" by (simp add: const_simps)
    let ?m = "min (length src) (BSIZE - off mod BSIZE)" and ?n = "off div BSIZE"
    have nb: "nblocks off (length src) = Suc (nblocks (off + ?m) (length (drop ?m src)))"
      using nblocks_step [of "length src" off] False by simp
    have n: "?n < MAXFILE" using less.prems(4) False by (intro less_mult_imp_div_less) (cases src; simp)
    have m: "length (take ?m src) = ?m" "length (take ?m src) \<le> BSIZE - off mod BSIZE" "length (drop ?m src) < length src"
      using False mod_less_divisor [OF B0, of off] by auto
    have r: "room s L {} (6 + (6 * nblocks (off + ?m) (length (drop ?m src)) + j))" using less.prems(1) unfolding nb by (simp add: add.assoc)
    obtain t L' where t: "rbind (bmap i ?n s) (\<lambda>(a, s). rbind (bread (i_dev (icache s ! i)) a s) (\<lambda>(bp, s).
        let s = set_bdata bp (splice (bdata (bufs s ! bp)) (off mod BSIZE) (take ?m src)) s
        in rbind (log_write bp s) (\<lambda>s. brelse bp s))) = Ret t"
      "wrote i 2 off (take ?m src) s t" "room t L' {} (6 * nblocks (off + ?m) (length (drop ?m src)) + j)"
      by (rule writei_step [OF r less.prems(2,3) n m(2)]) (use less.prems(5) False m(3) in \<open>auto simp: nb\<close>)
    note W = wroteD [OF t(2)]
    have "\<exists>u L'. writei_loop i (off + ?m) (drop ?m src) t = Ret u \<and>
        wrote i (2 * nblocks (off + ?m) (length (drop ?m src))) (off + ?m) (drop ?m src) t u \<and> room u L' {} j"
      by (rule less.hyps [OF m(3) t(3) W(2,3)]) (use less.prems(4,5) W(9) nb in \<open>simp_all\<close>)
    then obtain u L'' where u: "writei_loop i (off + ?m) (drop ?m src) t = Ret u"
      "wrote i (2 * nblocks (off + ?m) (length (drop ?m src))) (off + ?m) (drop ?m src) t u" "room u L'' {} j" by blast
    have "wrote i (2 + 2 * nblocks (off + ?m) (length (drop ?m src))) off (take ?m src @ drop ?m src) s u"
      by (rule wrote_trans [OF t(2)]) (use u(2) m(1) less.prems fbytes_nth(1) [OF roomD(1) [OF r]] in simp_all)
    moreover have "writei_loop i off src s = rbind (rbind (bmap i ?n s) (\<lambda>(a, s). rbind (bread (i_dev (icache s ! i)) a s) (\<lambda>(bp, s).
        let s = set_bdata bp (splice (bdata (bufs s ! bp)) (off mod BSIZE) (take ?m src)) s
        in rbind (log_write bp s) (\<lambda>s. brelse bp s)))) (writei_loop i (off + ?m) (drop ?m src))"
      using False by (subst writei_loop.simps) (simp add: rbind_assoc Let_def split_def)
    then have "writei_loop i off src s = writei_loop i (off + ?m) (drop ?m src) t" unfolding t(1) by simp
    ultimately show ?thesis using u(1,3) nb by (intro exI [of _ u] exI [of _ L'']) simp
  qed
qed

subsection \<open>Properties\<close>

text \<open>The inode in memory is the one on the disk.\<close>

definition synced :: "'a kfs_scheme \<Rightarrow> nat \<Rightarrow> bool" where
  "synced s i \<longleftrightarrow> disk_inode s (i_inum (icache s ! i)) = dinode.truncate (icache s ! i)"

lemma readi_ok:
  assumes "tx s L {}" "card L \<le> log_cap s" "fs_ok s" "file_ok s i" "no_holes s i" "i_type (icache s ! i) \<noteq> T_DEV"
  shows "if off > i_size (icache s ! i) \<or> off + n < off then readi dv i off n s = Ret (- 1, [], s)
    else \<exists>t xs. readi dv i off n s = Ret (int (length xs), xs, t) \<and> xs = take (unat n) (drop (unat off) (file_bytes s i)) \<and>
      view t = view s \<and> tx_frame s t \<and> room t L {} 0"
proof (cases "off > i_size (icache s ! i) \<or> off + n < off")
  case True
  then show ?thesis using assms(6) by (simp add: readi_def Let_def)
next
  case False
  let ?z = "i_size (icache s ! i)"
  have le: "unat off \<le> unat ?z" "unat (off + n) = unat off + unat n"
    using False unat_plus_simple [of off n] by (auto simp: word_le_nat_alt not_less)
  define m where "m = (if off + n > ?z then ?z - off else n)"
  have m: "unat m = min (unat n) (unat ?z - unat off)"
    using le False by (auto simp: m_def word_less_nat_alt unat_sub word_le_nat_alt)
  have z: "unat ?z \<le> MAXFILE * BSIZE" using assms(5) by (simp add: no_holes_def)
  have om: "unat off + unat m \<le> unat ?z" using m le by linarith
  have r: "room s L {} 0" using assms by (simp add: room_def)
  obtain t where t: "readi_loop i (unat off) (unat m) s = Ret (take (unat m) (drop (unat off) (fbytes s i)), t)"
    "tx_frame s t" "view t = view s" "room t L {} 0"
    using readi_loop_ok [OF r assms(3-5) om] by blast
  have len: "length (fbytes s i) = MAXFILE * BSIZE" by (rule fbytes_nth [OF assms(1,3,4)])
  have x: "take (unat m) (drop (unat off) (fbytes s i)) = take (unat n) (drop (unat off) (file_bytes s i))"
    unfolding file_bytes_def m drop_take by (simp add: min.commute)
  have "unat m < 2 ^ 31" using m z by (auto simp: const_simps)
  then have "sint m = int (unat m)" by (rule sint_small_32)
  moreover have "length (take (unat m) (drop (unat off) (fbytes s i))) = unat m" using len z m le by simp
  ultimately show ?thesis
    using False assms(6) t x by (simp add: readi_def Let_def m_def [symmetric])
qed

text \<open>
  C27.  \<^verbatim>\<open>readi\<close> returns the bytes of the file: for an offset inside the file, the bytes from there
  on, as many as asked for or as there are; for an offset behind the end, or an end that wraps
  around, it returns -1.  It changes no block and no inode.
\<close>

theorem readi_reads:
  assumes "tx s L {}" "card L \<le> log_cap s" "fs_ok s" "file_ok s i" "no_holes s i" "i_type (icache s ! i) \<noteq> T_DEV"
  shows "if off > i_size (icache s ! i) \<or> off + n < off then readi dv i off n s = Ret (- 1, [], s)
    else \<exists>t xs. readi dv i off n s = Ret (int (length xs), xs, t) \<and> xs = take (unat n) (drop (unat off) (file_bytes s i)) \<and>
      view t = view s \<and> icache t = icache s \<and> tx t L {}"
  using readi_ok [OF assms, of off n dv] tx_frame_kfs(1) roomD(1) by (auto split: if_splits)

lemma take_splice:
  assumes "off \<le> z" "off + length src \<le> length d" "z \<le> length d"
  shows "take (max z (off + length src)) (splice d off src) = splice (take z d) off src"
proof -
  have e: "length d \<le> off \<Longrightarrow> src = []" using assms by (cases src) auto
  have "max z (off + length src) - (off + length src) = z - (off + length src)" by simp
  then have "take (max z (off + length src)) (splice d off src) =
      take off d @ src @ take (z - (off + length src)) (drop (off + length src) d)"
    using assms e by (cases "length d \<le> off") (auto simp: splice_def min_def max_def)
  also have "\<dots> = splice (take z d) off src" using assms(1) by (simp add: splice_def drop_take min_def)
  finally show ?thesis .
qed

lemma IBLOCK_fixed:
  assumes "fs_ok s" "file_ok s i" "unat inum < unat (sb_ninodes (sb s))"
  shows "other_blk s i (IBLOCK inum (sb s))" "k < NSLOT \<Longrightarrow> slot s i k \<noteq> 0 \<Longrightarrow> slot s i k \<noteq> IBLOCK inum (sb s)"
proof -
  have lay: "fs_layout s" using assms(1) by (simp add: fs_ok_def)
  note O = IBLOCK_other [OF lay assms(3)] and F = file_okD [OF assms(2)]
  show s: "slot s i k \<noteq> IBLOCK inum (sb s)" if "k < NSLOT" "slot s i k \<noteq> 0" for k
    using O(3) [OF F(5) [OF that]] by simp
  have "\<not> free_block s (unat (IBLOCK inum (sb s)))"
    using O(3) [OF free_data [OF assms(1), of "unat (IBLOCK inum (sb s))"]] by auto
  then show "other_blk s i (IBLOCK inum (sb s))"
    using O(1) s NDIRECT_slot unfolding other_blk_def fixed_blk_def by metis
qed

text \<open>Changing a block of inodes, and the size of the inode in memory, leaves the blocks of a file.\<close>

lemma inode_change:
  assumes ok: "fs_ok s" "file_ok s i" "unat inum < unat (sb_ninodes (sb s))"
    and t: "sb t = sb s" "length (icache t) = length (icache s)" "icache t ! i = (icache s ! i)\<lparr>i_size := z\<rparr>"
      "free_block t = free_block s" "\<And>bn. bn \<noteq> IBLOCK inum (sb s) \<Longrightarrow> view t bn = view s bn"
  shows "k < NSLOT \<Longrightarrow> slot t i k = slot s i k" "file_ok t i" "fbytes t i = fbytes s i"
proof -
  note I = IBLOCK_fixed [OF ok]
  have at: "addr_at i k t = addr_at i k s" for k using t(3) by (simp add: addr_at_def)
  have sl: "slot t i k = slot s i k" if "k < NSLOT" for k
    using at t(5) I(2) [OF NDIRECT_slot] by (simp add: slot_def)
  show "slot t i k = slot s i k" if "k < NSLOT" by (rule sl [OF that])
  show "file_ok t i" using ok(2) sl t(1-4) by (simp add: file_ok_def)
  have "file_data t i n = file_data s i n" if "n < MAXFILE" for n
    using sl [OF slot_of_props(1) [OF that]] I(2) [OF slot_of_props(1) [OF that]] t(5) by (auto simp: file_data_def Let_def)
  then show "fbytes t i = fbytes s i" unfolding fbytes_def by (intro arg_cong [of _ _ concat] map_cong) simp_all
qed

lemma writei_sizes:
  fixes off z :: uint
  assumes "unat off \<le> unat z" "unat off + length src \<le> MAXFILE * BSIZE" "length src < 2 ^ 31"
  shows "unat (of_nat (length src) :: uint) = length src" "unat (off + of_nat (length src)) = unat off + length src"
    "sint (of_nat (length src) :: uint) = int (length src)" "\<not> off + of_nat (length src) < off"
    "\<not> off + of_nat (length src) > of_nat (MAXFILE * BSIZE)" "(of_nat (length src) :: uint) > 0 \<longleftrightarrow> src \<noteq> []"
proof -
  show l: "unat (of_nat (length src) :: uint) = length src" using assms(3) by (simp add: unat_of_nat)
  have "unat off + length src < 2 ^ 32" using assms(2) by (simp add: const_simps)
  then show o: "unat (off + of_nat (length src)) = unat off + length src" by (rule unat_add_of_nat)
  show "sint (of_nat (length src) :: uint) = int (length src)" using sint_small_32 [of "of_nat (length src)"] l assms(3) by simp
  show "\<not> off + of_nat (length src) < off" using o by (simp add: word_less_nat_alt)
  have "unat (of_nat (MAXFILE * BSIZE) :: uint) = MAXFILE * BSIZE" by (simp add: const_simps)
  then show "\<not> off + of_nat (length src) > of_nat (MAXFILE * BSIZE)" using o assms(2) by (simp add: word_less_nat_alt del: of_nat_mult)
  show "(of_nat (length src) :: uint) > 0 \<longleftrightarrow> src \<noteq> []" using l by (simp add: word_less_nat_alt)
qed

lemma writei_refused:
  assumes "no_holes s i" "i_type (icache s ! i) \<noteq> T_DEV" "length src < 2 ^ 31"
    "off > i_size (icache s ! i) \<or> unat off + length src > MAXFILE * BSIZE"
  shows "writei dv i src off s = Ret (- 1, s)"
proof (cases "off > i_size (icache s ! i)")
  case False
  then have "unat off \<le> MAXFILE * BSIZE" using assms(1) by (simp add: no_holes_def word_le_nat_alt not_less)
  then have b: "unat off \<le> 71680" by (simp add: const_simps)
  then have "unat off + length src < 2 ^ 32" using assms(3) by simp
  then have o: "unat (off + of_nat (length src)) = unat off + length src" by (rule unat_add_of_nat)
  have "unat (of_nat (MAXFILE * BSIZE) :: uint) = MAXFILE * BSIZE" by (simp add: const_simps)
  then have "off + of_nat (length src) > of_nat (MAXFILE * BSIZE)"
    using o assms(4) False by (simp add: word_less_nat_alt del: of_nat_mult)
  then show ?thesis using assms(2) by (simp add: writei_def Let_def)
qed (use assms in \<open>simp add: writei_def Let_def\<close>)

lemma writei_accepted:
  assumes "i_type (icache s ! i) \<noteq> T_DEV" "length src < 2 ^ 31" "unat off \<le> unat (i_size (icache s ! i))"
    "unat off + length src \<le> MAXFILE * BSIZE" "writei_loop i (unat off) src s = Ret u"
  shows "writei dv i src off s =
    rbind (if src \<noteq> [] \<and> off + of_nat (length src) > i_size (icache u ! i)
           then iupdate i (upd_inode i (\<lambda>ip. ip\<lparr>i_size := off + of_nat (length src)\<rparr>) u) else Ret u)
      (\<lambda>s. Ret (int (length src), s))"
proof -
  note S = writei_sizes [OF assms(3,4,2)]
  have "\<not> off > i_size (icache s ! i)" using assms(3) by (simp add: word_less_nat_alt)
  then show ?thesis using assms(1,5) S by (simp add: writei_def Let_def)
qed

text \<open>What has been achieved when \<^verbatim>\<open>writei\<close> returns.\<close>

definition writei_done :: "nat \<Rightarrow> nat \<Rightarrow> uchar list \<Rightarrow> 'a kfs_scheme \<Rightarrow> 'a kfs_scheme \<Rightarrow> bool" where
  "writei_done i off src s t \<longleftrightarrow> file_bytes t i = splice (file_bytes s i) off src \<and>
     unat (i_size (icache t ! i)) = max (unat (i_size (icache s ! i))) (off + length src) \<and>
     fs_ok t \<and> file_ok t i \<and> no_holes t i \<and> (synced s i \<longrightarrow> synced t i) \<and> fs_frame i s t \<and> (\<exists>L. room t L {} 0) \<and>
     (\<forall>bn. other_blk s i bn \<longrightarrow> bn \<noteq> IBLOCK (i_inum (icache s ! i)) (sb s) \<longrightarrow> view t bn = view s bn)"

lemma no_holes_wrote:
  assumes w: "wrote i d off src s u" and nh: "no_holes s i" and le: "off \<le> unat (i_size (icache s ! i))" "off + length src \<le> MAXFILE * BSIZE"
    and n: "n * BSIZE < max (unat (i_size (icache s ! i))) (off + length src)"
  shows "n < MAXFILE" "slot u i (slot_of n) \<noteq> 0"
proof -
  note W = wroteD [OF w]
  have "n * BSIZE < MAXFILE * BSIZE" using n nh le(2) unfolding no_holes_def less_max_iff_disj by linarith
  then show m: "n < MAXFILE" by simp
  show "slot u i (slot_of n) \<noteq> 0"
  proof (cases "n * BSIZE < unat (i_size (icache s ! i))")
    case True
    then have "slot s i (slot_of n) \<noteq> 0" using nh by (simp add: no_holes_def)
    then show ?thesis using W(6) [OF slot_of_props(1) [OF m]] by simp
  next
    case False
    then have "n * BSIZE - off < length src" "off + (n * BSIZE - off) = n * BSIZE" using n le(1) by auto
    then show ?thesis using W(7) [of "n * BSIZE - off"] by (simp add: const_simps)
  qed
qed

lemma wrote_bytes:
  assumes "wrote i d off src s u" "tx s L {}" "fs_ok s" "file_ok s i" "no_holes s i" "off \<le> unat (i_size (icache s ! i))"
    "off + length src \<le> MAXFILE * BSIZE"
  shows "take (max (unat (i_size (icache s ! i))) (off + length src)) (fbytes u i) = splice (file_bytes s i) off src"
  unfolding file_bytes_def wroteD(5) [OF assms(1)]
  by (rule take_splice) (use assms fbytes_nth(1) [OF assms(2-4)] in \<open>simp_all add: no_holes_def\<close>)

lemma writei_within:
  assumes s: "tx s L {}" "fs_ok s" "file_ok s i" "no_holes s i"
    and le: "unat off \<le> unat (i_size (icache s ! i))" "unat off + length src \<le> MAXFILE * BSIZE"
    and w: "wrote i d (unat off) src s u" and r: "room u L' {} 1" and z: "\<not> unat off + length src > unat (i_size (icache s ! i))"
  shows "writei_done i (unat off) src s u" "\<not> off + of_nat (length src) > i_size (icache u ! i)"
proof -
  note W = wroteD [OF w] and F = file_okD [OF s(3)]
  have mx: "max (unat (i_size (icache s ! i))) (unat off + length src) = unat (i_size (icache s ! i))" using z by simp
  have "length src < 2 ^ 31" using le(2) by (simp add: const_simps)
  note Z = writei_sizes [OF le this]
  show "\<not> off + of_nat (length src) > i_size (icache u ! i)" using z W(4) Z(2) by (simp add: word_less_nat_alt)
  have "slot s i (slot_of ((unat off + p) div BSIZE)) \<noteq> 0" if "p < length src" for p
  proof -
    have "(unat off + p) div BSIZE * BSIZE \<le> unat off + p" by simp
    then have "(unat off + p) div BSIZE * BSIZE < unat (i_size (icache s ! i))" using that z by linarith
    then show ?thesis using s(4) by (simp add: no_holes_def)
  qed
  then have ic: "icache u = icache s" by (rule W(11))
  have "view u (IBLOCK (i_inum (icache s ! i)) (sb s)) = view s (IBLOCK (i_inum (icache s ! i)) (sb s))"
    by (rule W(10) [OF IBLOCK_fixed(1) [OF s(2,3) F(4)]])
  then have "synced s i \<longrightarrow> synced u i" using ic fs_frame_fields(1) [OF W(1)] by (simp add: synced_def disk_inode_def)
  moreover have "no_holes u i" using no_holes_wrote(2) [OF w s(4) le] s(4) W(4) unfolding mx by (simp add: no_holes_def)
  moreover have "file_bytes u i = splice (file_bytes s i) (unat off) src"
    using wrote_bytes [OF w s le] W(4) unfolding mx by (simp add: file_bytes_def)
  moreover have "\<exists>L. room u L {} 0" using r by (auto simp: room_def)
  ultimately show "writei_done i (unat off) src s u" unfolding writei_done_def mx using W by simp
qed

lemma writei_extends:
  assumes s: "tx s L {}" "fs_ok s" "file_ok s i" "no_holes s i"
    and le: "unat off \<le> unat (i_size (icache s ! i))" "unat off + length src \<le> MAXFILE * BSIZE"
    and w: "wrote i d (unat off) src s u" and r: "room u L' {} 1" and z: "unat off + length src > unat (i_size (icache s ! i))"
  shows "\<exists>t. iupdate i (upd_inode i (\<lambda>ip. ip\<lparr>i_size := off + of_nat (length src)\<rparr>) u) = Ret t \<and> writei_done i (unat off) src s t"
    "off + of_nat (length src) > i_size (icache u ! i)" "src \<noteq> []"
proof -
  note W = wroteD [OF w] and F = file_okD [OF s(3)] and U = file_okD [OF wroteD(3) [OF w]] and X = fs_frame_fields [OF wroteD(1) [OF w]]
  have mx: "max (unat (i_size (icache s ! i))) (unat off + length src) = unat off + length src" using z by simp
  have "length src < 2 ^ 31" using le(2) by (simp add: const_simps)
  note Z = writei_sizes [OF le this]
  show "off + of_nat (length src) > i_size (icache u ! i)" using z W(4) Z(2) by (simp add: word_less_nat_alt)
  show "src \<noteq> []" using z le(1) by auto
  let ?inum = "i_inum (icache s ! i)" and ?z = "off + of_nat (length src) :: uint"
  let ?v = "upd_inode i (\<lambda>ip. ip\<lparr>i_size := ?z\<rparr>) u"
  note S = same_blocksD [OF same_blocks_upd(1) [where s = u and x = "(icache u)[i := (icache u ! i)\<lparr>i_size := ?z\<rparr>]"]]
  have v: "room ?v L' {} (Suc 0)" "fs_ok ?v" "icache ?v ! i = (icache u ! i)\<lparr>i_size := ?z\<rparr>" "sb ?v = sb u"
    using r W(2) S U(1) by simp_all
  have inum: "unat ?inum < unat (sb_ninodes (sb u))" using F(4) X(1) by simp
  obtain t where t: "iupdate i ?v = Ret t" "tx_frame ?v t" "fs_ok t"
    "view t = (view ?v)(IBLOCK ?inum (sb ?v) := splice (view ?v (IBLOCK ?inum (sb ?v))) (dinode_off ?inum) (dinode_encode (dinode.truncate (icache ?v ! i))))"
    "free_block t = free_block ?v" "\<And>n. unat n < unat (sb_ninodes (sb ?v)) \<Longrightarrow>
       disk_inode t n = (if n = ?inum then dinode.truncate (icache ?v ! i) else disk_inode ?v n)"
    "room t (insert (IBLOCK ?inum (sb ?v)) L') {} 0"
    by (rule iupdate_ok [OF v(1) _ v(2), of i ?inum]) (use v(3,4) U X inum in \<open>simp_all\<close>)
  note K = tx_frame_kfs [OF t(2)]
  have ti: "icache t ! i = (icache u ! i)\<lparr>i_size := ?z\<rparr>" "sb t = sb u" using K v(3) by simp_all
  have vw: "view t bn = view u bn" if "bn \<noteq> IBLOCK ?inum (sb u)" for bn using that t(4) S(2) by simp
  note C = inode_change [OF W(2,3) inum ti(2) _ ti(1) _ vw]
  have C': "k < NSLOT \<Longrightarrow> slot t i k = slot u i k" "file_ok t i" "fbytes t i = fbytes u i" for k
    using C K t(5) S(6) by simp_all
  have "synced t i" using t(6) [of ?inum] inum K v(3) X by (simp add: synced_def)
  moreover have "no_holes t i"
    using no_holes_wrote [OF w s(4) le] C'(1) slot_of_props(1) le(2) Z(2) ti(1) unfolding mx by (simp add: no_holes_def)
  moreover have "file_bytes t i = splice (file_bytes s i) (unat off) src"
    using wrote_bytes [OF w s le] C'(3) ti(1) Z(2) unfolding mx by (simp add: file_bytes_def)
  moreover have "fs_frame i s t"
  proof (rule fs_frame_trans [OF W(1)])
    have "fs_frame i u ?v" unfolding fs_frame_def
      by (intro conjI exI [of _ "i_addrs (icache u ! i)"] exI [of _ ?z]) (simp_all add: U(1))
    then show "fs_frame i u t" using fs_frame_tx [OF t(2)] by (rule fs_frame_trans)
  qed
  moreover have "\<exists>L. room t L {} 0" using t(7) by blast
  ultimately have "writei_done i (unat off) src s t"
    unfolding writei_done_def mx using t(3) C'(2) ti(1) Z(2) W(10) vw X(1) by simp
  with t(1) show "\<exists>t. iupdate i ?v = Ret t \<and> writei_done i (unat off) src s t" by blast
qed

lemma writei_ok:
  assumes "tx s L {}" "card L + 6 * nblocks (unat off) (length src) + 1 \<le> log_cap s" "fs_ok s" "file_ok s i" "no_holes s i"
    "i_type (icache s ! i) \<noteq> T_DEV" "2 * nblocks (unat off) (length src) \<le> card (Collect (free_block s))" "length src < 2 ^ 31"
  shows "if off > i_size (icache s ! i) \<or> unat off + length src > MAXFILE * BSIZE then writei dv i src off s = Ret (- 1, s)
    else \<exists>t. writei dv i src off s = Ret (int (length src), t) \<and> writei_done i (unat off) src s t"
proof (cases "off > i_size (icache s ! i) \<or> unat off + length src > MAXFILE * BSIZE")
  case True
  then show ?thesis using writei_refused [OF assms(5,6,8) True] by simp
next
  case False
  then have le: "unat off \<le> unat (i_size (icache s ! i))" "unat off + length src \<le> MAXFILE * BSIZE"
    by (auto simp: word_less_nat_alt not_less)
  have r: "room s L {} (6 * nblocks (unat off) (length src) + 1)" using assms(1,2) by (simp add: room_def)
  obtain u L' where u: "writei_loop i (unat off) src s = Ret u" "room u L' {} 1"
    "wrote i (2 * nblocks (unat off) (length src)) (unat off) src s u"
    using writei_loop_ok [OF r assms(3,4) le(2) assms(7)] by blast
  show ?thesis
  proof (cases "unat off + length src > unat (i_size (icache s ! i))")
    case True
    show ?thesis
      using writei_extends [OF assms(1,3-5) le u(3,2) True] writei_accepted [OF assms(6,8) le u(1)] False by auto
  next
    case nt: False
    show ?thesis
      using writei_within [OF assms(1,3-5) le u(3,2) nt] writei_accepted [OF assms(6,8) le u(1)] False by auto
  qed
qed

text \<open>
  C4.  \<^verbatim>\<open>writei\<close> overwrites the bytes of the file at the offset, which may be its end, extending it
  if necessary: afterwards the file is the old one with the new bytes in place, its size is
  the larger of the old size and the end of the write, and the inode on the disk agrees with
  the one in memory if it did before.  The transaction goes on with room in the log.  No block that belongs to another file changes, and no
  other inode.  An offset behind the end, and a write that would exceed the largest file,
  are refused with -1 and no change.
\<close>

theorem writei_writes:
  assumes "tx s L {}" "card L + 6 * nblocks (unat off) (length src) + 1 \<le> log_cap s" "fs_ok s" "file_ok s i" "no_holes s i"
    "i_type (icache s ! i) \<noteq> T_DEV" "2 * nblocks (unat off) (length src) \<le> card (Collect (free_block s))" "length src < 2 ^ 31"
  shows "if off > i_size (icache s ! i) \<or> unat off + length src > MAXFILE * BSIZE then writei dv i src off s = Ret (- 1, s)
    else \<exists>t. writei dv i src off s = Ret (int (length src), t) \<and> file_bytes t i = splice (file_bytes s i) (unat off) src \<and>
      unat (i_size (icache t ! i)) = max (unat (i_size (icache s ! i))) (unat off + length src) \<and>
      fs_ok t \<and> file_ok t i \<and> no_holes t i \<and> (synced s i \<longrightarrow> synced t i) \<and> fs_frame i s t \<and> (\<exists>L. room t L {} 0) \<and>
      (\<forall>bn. other_blk s i bn \<longrightarrow> bn \<noteq> IBLOCK (i_inum (icache s ! i)) (sb s) \<longrightarrow> view t bn = view s bn)"
  using writei_ok [OF assms, of dv] unfolding writei_done_def .

text \<open>An empty file with inode 3, on the small file system.\<close>

definition kfs_file :: kfs where
  "kfs_file = kfs0\<lparr>icache := (icache kfs0)[0 := inode0\<lparr>i_type := 2, i_dev := 1, i_inum := 3, i_ref := 1, i_valid := True\<rparr>]\<rparr>"

lemma kfs_file_props:
  "tx kfs_file {} {}" "log_cap kfs_file = 29" "fs_ok kfs_file" "file_ok kfs_file 0" "no_holes kfs_file 0"
  "i_type (icache kfs_file ! 0) \<noteq> T_DEV" "i_size (icache kfs_file ! 0) = 0" "card (Collect (free_block kfs_file)) = 28"
proof -
  have e: "same_blocks kfs_file kfs0" unfolding kfs_file_def by (rule same_blocks_upd)
  note S = same_blocksD [OF e]
  have l: "icache kfs_file ! 0 = inode0\<lparr>i_type := 2, i_dev := 1, i_inum := 3, i_ref := 1, i_valid := True\<rparr>" "length (icache kfs_file) = 50"
    by (simp_all add: kfs_file_def kfs0_fields const_simps)
  show "tx kfs_file {} {}" "log_cap kfs_file = 29" "fs_ok kfs_file" using S kfs0_tx kfs0_ok by simp_all
  have "slot kfs_file 0 k = 0" for k
    by (simp add: slot_def addr_at_def l(1) inode0_def NDIRECT_def nth_Cons' del: replicate_Suc)
  then show "file_ok kfs_file 0" using l S(10) by (simp add: file_ok_def inode0_def kfs0_fields sb0_def NDIRECT_def)
  show "no_holes kfs_file 0" "i_type (icache kfs_file ! 0) \<noteq> T_DEV" "i_size (icache kfs_file ! 0) = 0"
    by (simp_all add: no_holes_def l(1) inode0_def T_DEV_def)
  have "Collect (free_block kfs_file) = {36..<64}" by (auto simp: S(6) kfs0_free)
  then show "card (Collect (free_block kfs_file)) = 28" by simp
qed

theorem writei_writes_witness:
  "\<exists>t. writei [] 0 [10, 20, 30] 0 kfs_file = Ret (3, t) \<and> file_bytes t 0 = [10, 20, 30] \<and> unat (i_size (icache t ! 0)) = 3"
proof -
  have n: "nblocks 0 (Suc (Suc (Suc 0))) = 1" by (simp add: nblocks_def const_simps)
  have "file_bytes kfs_file 0 = []" by (simp add: file_bytes_def kfs_file_props)
  then show ?thesis
    using writei_writes [of kfs_file "{}" 0 "[10, 20, 30]" 0 "[]"] kfs_file_props
    by (simp add: n splice_def const_simps) (auto simp: numeral_3_eq_3)
qed

theorem readi_reads_witness:
  "\<exists>t. readi [] 0 0 10 kfs_file = Ret (0, [], t) \<and> readi [] 0 5 10 kfs_file = Ret (- 1, [], kfs_file)"
proof -
  have "file_bytes kfs_file 0 = []" by (simp add: file_bytes_def kfs_file_props)
  then show ?thesis
    using readi_reads [of kfs_file "{}" 0 0 10 "[]"] readi_reads [of kfs_file "{}" 0 5 10 "[]"] kfs_file_props by auto
qed

end
