(* ===== verification/Dir.thy ===== *)
theory Dir
  imports Fileio
begin

text \<open>
  Directories and path names (\<^verbatim>\<open>fs.c\<close>: \<^verbatim>\<open>dirlookup\<close>, \<^verbatim>\<open>dirlink\<close>, \<^verbatim>\<open>skipelem\<close>).  A directory is seen as the
  list of its entries; a path as the list of its components.
\<close>

subsection \<open>Paths\<close>

text \<open>The components of a path: the non-empty stretches between slashes.\<close>

fun split_path :: "uchar list \<Rightarrow> uchar list \<Rightarrow> uchar list list" where
  "split_path acc [] = (if acc = [] then [] else [rev acc])"
| "split_path acc (c # cs) =
     (if c = slash then (if acc = [] then split_path [] cs else rev acc # split_path [] cs)
      else split_path (c # acc) cs)"

definition components :: "uchar list \<Rightarrow> uchar list list" where
  "components p = split_path [] p"

text \<open>The names that the loop of \<^verbatim>\<open>namex\<close> asks for, one after the other.\<close>

function path_names :: "uchar list \<Rightarrow> uchar list list" where
  "path_names p = (case skipelem p of None \<Rightarrow> [] | Some (rest, name) \<Rightarrow> name # path_names rest)"
  by pat_completeness auto
termination by (relation "measure length") (auto dest: skipelem_length)

declare path_names.simps [simp del]

lemma split_path_slashes: "split_path [] (dropWhile (\<lambda>c. c = slash) p) = split_path [] p"
  by (induction p) auto

lemma split_path_elem:
  assumes "acc \<noteq> [] \<or> p \<noteq> [] \<and> hd p \<noteq> slash"
  shows "split_path acc p = (rev acc @ takeWhile (\<lambda>c. c \<noteq> slash) p) # split_path [] (dropWhile (\<lambda>c. c \<noteq> slash) p)"
  using assms
proof (induction p arbitrary: acc)
  case (Cons c p)
  show ?case
  proof (cases "c = slash")
    case True
    then show ?thesis using Cons.prems by simp
  next
    case False
    then show ?thesis using Cons.IH [of "c # acc"] by simp
  qed
qed simp

lemma skipelem_components:
  "case skipelem p of None \<Rightarrow> components p = []
   | Some (rest, name) \<Rightarrow> (\<exists>el. components p = el # components rest \<and> name = take DIRSIZ el \<and> el \<noteq> []) \<and>
       (rest = [] \<or> hd rest \<noteq> slash)"
proof -
  let ?q = "dropWhile (\<lambda>c. c = slash) p"
  have c: "components p = split_path [] ?q" by (simp add: components_def split_path_slashes)
  show ?thesis
  proof (cases "?q = []")
    case True
    have "components p = []" using c unfolding True by simp
    then show ?thesis using True by (simp add: skipelem_def Let_def del: dropWhile_eq_Nil_conv)
  next
    case False
    then have h: "hd ?q \<noteq> slash" using hd_dropWhile by blast
    let ?r = "dropWhile (\<lambda>c. c = slash) (dropWhile (\<lambda>c. c \<noteq> slash) ?q)"
    have "components p = takeWhile (\<lambda>c. c \<noteq> slash) ?q # components ?r"
      using c split_path_elem [of "[]" ?q] False h by (simp add: components_def split_path_slashes)
    moreover have "takeWhile (\<lambda>c. c \<noteq> slash) ?q \<noteq> []" using False h by (cases ?q) auto
    moreover have "?r = [] \<or> hd ?r \<noteq> slash" using hd_dropWhile by blast
    ultimately show ?thesis using False by (simp add: skipelem_def Let_def)
  qed
qed

subsection \<open>Directories\<close>

definition entry_at :: "uchar list \<Rightarrow> nat \<Rightarrow> dirent" where
  "entry_at d k = dirent_decode (take 16 (drop (16 * k) d))"

definition entries :: "uchar list \<Rightarrow> dirent list" where
  "entries d = map (entry_at d) [0..<length d div 16]"

definition dir_ok :: "'a kfs_scheme \<Rightarrow> nat \<Rightarrow> bool" where
  "dir_ok s dp \<longleftrightarrow> fs_ok s \<and> file_ok s dp \<and> no_holes s dp \<and> i_type (icache s ! dp) = T_DIR \<and>
     unat (i_size (icache s ! dp)) mod 16 = 0"

definition named :: "uchar list \<Rightarrow> dirent \<Rightarrow> bool" where
  "named name e \<longleftrightarrow> d_inum e \<noteq> 0 \<and> namecmp name (d_name e) = 0"

lemma dir_ok_same:
  assumes "tx_frame s t" "view t = view s"
  shows "dir_ok t dp = dir_ok s dp" "file_bytes t dp = file_bytes s dp"
proof -
  note K = tx_frame_kfs [OF assms(1)] and S = same_file [OF assms] and V = fs_ok_view [OF assms]
  show "dir_ok t dp = dir_ok s dp" using K S V by (simp add: dir_ok_def no_holes_def)
  show "file_bytes t dp = file_bytes s dp" using K S by (simp add: file_bytes_def fbytes_def)
qed

lemma length_file_bytes:
  assumes "tx s L H" "fs_ok s" "file_ok s i" "no_holes s i"
  shows "length (file_bytes s i) = unat (i_size (icache s ! i))"
  using fbytes_nth(1) [OF assms(1-3)] assms(4) by (simp add: file_bytes_def no_holes_def)

lemma readi_entry:
  assumes r: "room s L {} j" and d: "dir_ok s dp" and k: "16 * k < unat (i_size (icache s ! dp))"
  obtains t where "readi dv dp (of_nat (16 * k)) 16 s = Ret (16, take 16 (drop (16 * k) (file_bytes s dp)), t)"
    "tx_frame s t" "view t = view s" "room t L {} j"
proof -
  have D: "fs_ok s" "file_ok s dp" "no_holes s dp" "i_type (icache s ! dp) \<noteq> T_DEV" "unat (i_size (icache s ! dp)) mod 16 = 0"
    using d by (simp_all add: dir_ok_def T_DIR_def T_DEV_def)
  let ?z = "unat (i_size (icache s ! dp))"
  obtain q where q: "?z = 16 * q" using D(5) by auto
  have mx: "?z \<le> 71680" using D(3) by (simp add: no_holes_def const_simps)
  have k': "k < q" using k q by simp
  have u: "unat (of_nat (16 * k) :: uint) = 16 * k" using k mx by (simp add: unat_of_nat del: of_nat_mult)
  have u16: "unat (of_nat (16 * k) + 16 :: uint) = 16 * k + 16" using u k mx by (simp add: unat_word_ariths del: of_nat_mult)
  have c: "\<not> (of_nat (16 * k) > i_size (icache s ! dp) \<or> of_nat (16 * k) + 16 < (of_nat (16 * k) :: uint))"
    using u u16 k by (simp add: word_less_nat_alt del: of_nat_mult)
  have R: "tx s L {}" "card L \<le> log_cap s" using r by (simp_all add: room_def)
  obtain t xs where t: "readi dv dp (of_nat (16 * k)) 16 s = Ret (int (length xs), xs, t)"
    "xs = take 16 (drop (16 * k) (file_bytes s dp))" "view t = view s" "tx_frame s t" "room t L {} 0"
    using readi_ok [OF R D(1-4), of "of_nat (16 * k)" 16 dv] c u by auto
  have "length xs = 16" using t(2) length_file_bytes [OF R(1) D(1-3)] q k' by simp
  then show thesis using that [of t] t room_keep [OF r roomD(1) [OF t(5)] t(4)] by simp
qed

lemma dirlookup_loop_ok:
  assumes "room s L {} j" "dir_ok s dp" "off = 16 * k" "fsz = unat (i_size (icache s ! dp))" "off \<le> fsz"
  shows "\<exists>t. tx_frame s t \<and> view t = view s \<and> room t L {} j \<and>
    dirlookup_loop dv dp name fsz off s =
      (case find_idx (named name) (drop k (entries (file_bytes s dp))) of
         None \<Rightarrow> Ret (None, t)
       | Some m \<Rightarrow> rbind (iget 1 (ucast (d_inum (entries (file_bytes s dp) ! (k + m)))) t) (\<lambda>(ip, s). Ret (Some (ip, 16 * (k + m)), s)))"
  using assms
proof (induction "fsz - off" arbitrary: off k s rule: less_induct)
  case less
  have D: "fs_ok s" "file_ok s dp" "no_holes s dp" using less.prems(2) by (simp_all add: dir_ok_def)
  note T = roomD(1) [OF less.prems(1)]
  have len: "length (entries (file_bytes s dp)) = fsz div 16"
    using length_file_bytes [OF T D] less.prems(4) by (simp add: entries_def)
  show ?case
  proof (cases "off < fsz")
    case False
    then have "fsz div 16 \<le> k" using less.prems(3,5) by simp
    then show ?thesis using False less.prems(1) len by (intro exI [of _ s]) (simp add: dirlookup_loop.simps)
  next
    case True
    have k: "k < fsz div 16" using True less.prems(2-4) by (auto simp: dir_ok_def)
    obtain u where u: "readi dv dp (of_nat (16 * k)) 16 s = Ret (16, take 16 (drop (16 * k) (file_bytes s dp)), u)"
      "tx_frame s u" "view u = view s" "room u L {} j"
      by (rule readi_entry [OF less.prems(1,2), of k dv]) (use True less.prems(3,4) in \<open>simp, blast\<close>)
    note S = dir_ok_same [OF u(2,3)] and K = tx_frame_kfs [OF u(2)]
    let ?e = "entry_at (file_bytes s dp) k"
    have ek: "entries (file_bytes s dp) ! k = ?e" "drop k (entries (file_bytes s dp)) = ?e # drop (Suc k) (entries (file_bytes s dp))"
      using k len Cons_nth_drop_Suc [of k "entries (file_bytes s dp)"] by (simp_all add: entries_def)
    have step: "dirlookup_loop dv dp name fsz off s =
        (if named name ?e then rbind (iget 1 (ucast (d_inum ?e)) u) (\<lambda>(ip, s). Ret (Some (ip, off), s))
         else dirlookup_loop dv dp name fsz (off + 16) u)"
      using True u(1) less.prems(3) file_okD(2) [OF D(2)] K(1)
      by (subst dirlookup_loop.simps) (simp add: Let_def named_def entry_at_def del: of_nat_mult)
    show ?thesis
    proof (cases "named name ?e")
      case True
      then show ?thesis using step ek u less.prems(3) by (intro exI [of _ u]) simp
    next
      case False
      have "\<exists>t. tx_frame u t \<and> view t = view u \<and> room t L {} j \<and>
        dirlookup_loop dv dp name fsz (off + 16) u =
          (case find_idx (named name) (drop (Suc k) (entries (file_bytes u dp))) of
             None \<Rightarrow> Ret (None, t)
           | Some m \<Rightarrow> rbind (iget 1 (ucast (d_inum (entries (file_bytes u dp) ! (Suc k + m)))) t)
               (\<lambda>(ip, s). Ret (Some (ip, 16 * (Suc k + m)), s)))"
        by (rule less.hyps) (use True less.prems u(4) S K k in simp_all)
      then obtain t where t: "tx_frame u t" "view t = view u" "room t L {} j" "dirlookup_loop dv dp name fsz (off + 16) u =
          (case find_idx (named name) (drop (Suc k) (entries (file_bytes u dp))) of
             None \<Rightarrow> Ret (None, t)
           | Some m \<Rightarrow> rbind (iget 1 (ucast (d_inum (entries (file_bytes u dp) ! (Suc k + m)))) t)
               (\<lambda>(ip, s). Ret (Some (ip, 16 * (Suc k + m)), s)))" by blast
      show ?thesis
        by (rule exI [of _ t]) (use step False ek u(3) S t tx_frame_trans [OF u(2) t(1)] in \<open>simp add: algebra_simps split: option.split\<close>)
    qed
  qed
qed

subsection \<open>Adding an entry\<close>

lemma dirlink_slot_ok:
  assumes "room s L {} j" "dir_ok s dp" "off = 16 * k" "fsz = unat (i_size (icache s ! dp))" "off \<le> fsz"
  shows "\<exists>t. tx_frame s t \<and> view t = view s \<and> room t L {} j \<and>
    dirlink_slot dv dp fsz off s =
      Ret (case find_idx (\<lambda>e. d_inum e = 0) (drop k (entries (file_bytes s dp))) of None \<Rightarrow> fsz | Some m \<Rightarrow> 16 * (k + m), t)"
  using assms
proof (induction "fsz - off" arbitrary: off k s rule: less_induct)
  case less
  have D: "fs_ok s" "file_ok s dp" "no_holes s dp" using less.prems(2) by (simp_all add: dir_ok_def)
  note T = roomD(1) [OF less.prems(1)]
  have len: "length (entries (file_bytes s dp)) = fsz div 16"
    using length_file_bytes [OF T D] less.prems(4) by (simp add: entries_def)
  show ?case
  proof (cases "off < fsz")
    case False
    then have "fsz div 16 \<le> k" "off = fsz" using less.prems(3,5) by simp_all
    then show ?thesis using False less.prems(1) len by (intro exI [of _ s]) (simp add: dirlink_slot.simps)
  next
    case True
    have k: "k < fsz div 16" using True less.prems(2-4) by (auto simp: dir_ok_def)
    obtain u where u: "readi dv dp (of_nat (16 * k)) 16 s = Ret (16, take 16 (drop (16 * k) (file_bytes s dp)), u)"
      "tx_frame s u" "view u = view s" "room u L {} j"
      by (rule readi_entry [OF less.prems(1,2), of k dv]) (use True less.prems(3,4) in \<open>simp, blast\<close>)
    note S = dir_ok_same [OF u(2,3)] and K = tx_frame_kfs [OF u(2)]
    let ?e = "entry_at (file_bytes s dp) k"
    have ek: "drop k (entries (file_bytes s dp)) = ?e # drop (Suc k) (entries (file_bytes s dp))"
      using k len Cons_nth_drop_Suc [of k "entries (file_bytes s dp)"] by (simp add: entries_def)
    have step: "dirlink_slot dv dp fsz off s = (if d_inum ?e = 0 then Ret (off, u) else dirlink_slot dv dp fsz (off + 16) u)"
      using True u(1) less.prems(3) by (subst dirlink_slot.simps) (simp add: entry_at_def del: of_nat_mult)
    show ?thesis
    proof (cases "d_inum ?e = 0")
      case True
      then show ?thesis using step ek u less.prems(3) by (intro exI [of _ u]) simp
    next
      case False
      have "\<exists>t. tx_frame u t \<and> view t = view u \<and> room t L {} j \<and> dirlink_slot dv dp fsz (off + 16) u =
          Ret (case find_idx (\<lambda>e. d_inum e = 0) (drop (Suc k) (entries (file_bytes u dp))) of None \<Rightarrow> fsz | Some m \<Rightarrow> 16 * (Suc k + m), t)"
        by (rule less.hyps) (use True less.prems u(4) S K k in simp_all)
      then obtain t where t: "tx_frame u t" "view t = view u" "room t L {} j" "dirlink_slot dv dp fsz (off + 16) u =
          Ret (case find_idx (\<lambda>e. d_inum e = 0) (drop (Suc k) (entries (file_bytes u dp))) of None \<Rightarrow> fsz | Some m \<Rightarrow> 16 * (Suc k + m), t)"
        by blast
      show ?thesis
        by (rule exI [of _ t])
          (use step False ek u(3) S t tx_frame_trans [OF u(2) t(1)] in \<open>simp add: algebra_simps split: option.split\<close>)
    qed
  qed
qed

lemma length_pad_name [simp]: "length (pad_name name) = 14"
  by (simp add: pad_name_def DIRSIZ_def)

lemma length_dirent_encode: "length (d_name e) = 14 \<Longrightarrow> length (dirent_encode e) = 16"
  by (simp add: dirent_encode_def)

lemma dirent_decode_encode: "length (d_name e) = 14 \<Longrightarrow> dirent_decode (dirent_encode e) = e"
  by (simp add: dirent_decode_def dirent_encode_def get16_def le16_def DIRSIZ_def)

lemma entries_splice:
  assumes d: "length d mod 16 = 0" "16 * k \<le> length d" and x: "length x = 16"
  shows "entries (splice d (16 * k) x) =
    (if 16 * k < length d then (entries d)[k := dirent_decode x] else entries d @ [dirent_decode x])"
proof -
  obtain q where q: "length d = 16 * q" using d(1) by auto
  then have kq: "k \<le> q" using d(2) by simp
  have sp: "splice d (16 * k) x = take (16 * k) d @ x @ drop (16 * k + 16) d" by (simp add: splice_def x)
  have len: "length (splice d (16 * k) x) = 16 * max q (Suc k)"
    unfolding sp using q kq x by (cases "k < q") (auto simp: max_def)
  have e: "entry_at (splice d (16 * k) x) m = (if m = k then dirent_decode x else entry_at d m)" if m: "m < max q (Suc k)" for m
  proof -
    consider "m < k" | "m = k" | "k < m" "m < q" using m by linarith
    then show ?thesis
    proof cases
      case 1
      then have "take 16 (drop (16 * m) (splice d (16 * k) x)) = take 16 (drop (16 * m) (take (16 * k) d))"
        using q kq by (simp add: sp)
      also have "\<dots> = take 16 (drop (16 * m) d)" using 1 by (simp add: drop_take min_def)
      finally show ?thesis using 1 by (simp add: entry_at_def)
    next
      case 2
      then show ?thesis unfolding sp using q kq x by (simp add: entry_at_def)
    next
      case 3
      then have a: "16 * m = 16 * k + (16 + (16 * m - 16 * k - 16))" by simp
      have "drop (16 * m) (splice d (16 * k) x) = drop (16 * m - 16 * k - 16) (drop (16 * k + 16) d)"
        using 3 q kq x by (subst a) (simp add: sp)
      also have "\<dots> = drop (16 * m) d" using 3 by simp
      finally show ?thesis using 3 by (simp add: entry_at_def)
    qed
  qed
  show ?thesis
  proof (cases "16 * k < length d")
    case True
    then have "max q (Suc k) = q" using q by simp
    then show ?thesis
      using True q len e by (intro nth_equalityI) (auto simp: entries_def nth_list_update)
  next
    case False
    then have "k = q" using q kq by simp
    then show ?thesis
      using False q len e by (intro nth_equalityI) (auto simp: entries_def nth_append less_Suc_eq)
  qed
qed

lemma dirlookup_ok:
  assumes r: "room s L {} j" and d: "dir_ok s dp"
  obtains t where "tx_frame s t" "view t = view s" "room t L {} j"
    "dirlookup dv dp name s = (case find_idx (named name) (entries (file_bytes s dp)) of
         None \<Rightarrow> Ret (None, t)
       | Some m \<Rightarrow> rbind (iget 1 (ucast (d_inum (entries (file_bytes s dp) ! m))) t) (\<lambda>(ip, s). Ret (Some (ip, 16 * m), s)))"
proof -
  obtain t where t: "tx_frame s t" "view t = view s" "room t L {} j"
    "dirlookup_loop dv dp name (unat (i_size (icache s ! dp))) 0 s = (case find_idx (named name) (entries (file_bytes s dp)) of
         None \<Rightarrow> Ret (None, t)
       | Some m \<Rightarrow> rbind (iget 1 (ucast (d_inum (entries (file_bytes s dp) ! m))) t) (\<lambda>(ip, s). Ret (Some (ip, 16 * m), s)))"
    using dirlookup_loop_ok [OF r d, of 0 0 "unat (i_size (icache s ! dp))" dv name, simplified]
    by (elim exE conjE) (rule that, simp_all only: add_0)
  then show thesis using that [of t] d by (simp add: dirlookup_def dir_ok_def)
qed

lemma dirlink_ok:
  assumes r: "room s L {} 7" and d: "dir_ok s dp" and free: "2 \<le> card (Collect (free_block s))"
    and new: "find_idx (named name) (entries (file_bytes s dp)) = None"
    and max: "unat (i_size (icache s ! dp)) < MAXFILE * BSIZE"
  obtains t where "dirlink dv dp name inum s = Ret (0, t)" "fs_frame dp s t" "dir_ok t dp" "\<exists>L. room t L {} 0"
    "entries (file_bytes t dp) =
      (let es = entries (file_bytes s dp); e = \<lparr>d_inum = ucast inum, d_name = pad_name name\<rparr>
       in case find_idx (\<lambda>e. d_inum e = 0) es of None \<Rightarrow> es @ [e] | Some m \<Rightarrow> es[m := e])"
proof -
  obtain u where u: "tx_frame s u" "view u = view s" "room u L {} 7" "dirlookup dv dp name s = Ret (None, u)"
    by (rule dirlookup_ok [OF r d, of dv name]) (simp add: new)
  have D: "fs_ok s" "file_ok s dp" "no_holes s dp" "unat (i_size (icache s ! dp)) mod 16 = 0" using d by (simp_all add: dir_ok_def)
  have len: "length (file_bytes s dp) = unat (i_size (icache s ! dp))" using length_file_bytes [OF roomD(1) [OF r] D(1-3)] .
  note K = tx_frame_kfs [OF u(1)] and S = dir_ok_same [OF u(1,2)]
  let ?es = "entries (file_bytes s dp)" and ?z = "unat (i_size (icache s ! dp))" and ?x = "dirent_encode \<lparr>d_inum = ucast inum, d_name = pad_name name\<rparr>"
  define k where "k = (case find_idx (\<lambda>e. d_inum e = 0) ?es of None \<Rightarrow> ?z div 16 | Some m \<Rightarrow> m)"
  obtain v where v: "tx_frame u v" "view v = view u" "room v L {} 7" "dirlink_slot dv dp ?z 0 u = Ret (16 * k, v)"
    using dirlink_slot_ok [OF u(3), of dp 0 0 ?z dv] S K d D(4) by (auto simp: k_def split: option.splits)
  note K' = tx_frame_kfs [OF v(1)] and S' = dir_ok_same [OF v(1,2)]
  have dv': "dir_ok v dp" "file_bytes v dp = file_bytes s dp" "i_size (icache v ! dp) = i_size (icache s ! dp)" "log_cap v = log_cap s"
    using S S' K K' d tx_frame_fields [OF u(1)] tx_frame_fields [OF v(1)] by (simp_all add: log_cap_def)
  have kz: "16 * k \<le> ?z" using find_idx_Some [of "\<lambda>e. d_inum e = 0" ?es] len
    by (auto simp: k_def entries_def split: option.splits)
  have x: "length ?x = 16" by (simp add: length_dirent_encode)
  have mx: "?z \<le> 71664" using max D(4) by (auto simp: const_simps)
  have uk: "unat (of_nat (16 * k) :: uint) = 16 * k" using kz mx by (simp add: unat_of_nat del: of_nat_mult)
  have nb: "nblocks (16 * k) 16 = 1" by (simp add: nblocks_def BSIZE_def)
  have f: "Collect (free_block v) = Collect (free_block s)"
    using fs_ok_view u(1,2) v(1,2) by metis
  have "\<exists>t. writei dv dp ?x (of_nat (16 * k)) v = Ret (16, t) \<and> writei_done dp (16 * k) ?x v t"
    using writei_ok [of v L "of_nat (16 * k)" ?x dp dv] roomD(1) [OF v(3)] v(3) dv' uk x nb free f kz mx
    by (simp add: room_def dir_ok_def T_DIR_def T_DEV_def word_less_nat_alt const_simps del: of_nat_mult)
  then obtain t where t: "writei dv dp ?x (of_nat (16 * k)) v = Ret (16, t)" "writei_done dp (16 * k) ?x v t" by blast
  show thesis
  proof (rule that)
    show "dirlink dv dp name inum s = Ret (0, t)"
      using u(4) v(4) t(1) K by (simp add: dirlink_def Let_def del: of_nat_mult)
    note W = t(2) [unfolded writei_done_def]
    show fr: "fs_frame dp s t" using fs_frame_trans [OF fs_frame_tx [OF u(1)] fs_frame_trans [OF fs_frame_tx [OF v(1)]]] W by blast
    show "\<exists>L. room t L {} 0" using W by blast
    obtain q where q: "?z = 16 * q" using D(4) by auto
    have "unat (i_size (icache t ! dp)) = 16 * max q (k + 1)" using W x q dv'(3) by (simp add: max_def)
    then show "dir_ok t dp" using W fs_frame_fields(8) [OF fr] d by (simp add: dir_ok_def)
    have "entries (file_bytes t dp) = entries (splice (file_bytes s dp) (16 * k) ?x)" using W dv'(2) by simp
    also have "\<dots> = (if 16 * k < ?z then ?es[k := dirent_decode ?x] else ?es @ [dirent_decode ?x])"
      using entries_splice [OF _ _ x, of "file_bytes s dp" k] D(4) kz len by simp
    also have "16 * k < ?z \<longleftrightarrow> find_idx (\<lambda>e. d_inum e = 0) ?es \<noteq> None"
      using find_idx_Some [of "\<lambda>e. d_inum e = 0" ?es] len q by (auto simp: k_def entries_def split: option.splits)
    finally show "entries (file_bytes t dp) =
      (let es = ?es; e = \<lparr>d_inum = ucast inum, d_name = pad_name name\<rparr>
       in case find_idx (\<lambda>e. d_inum e = 0) es of None \<Rightarrow> es @ [e] | Some m \<Rightarrow> es[m := e])"
      by (simp add: dirent_decode_encode Let_def k_def split: option.split)
  qed
qed

lemma strncmp_pad:
  "n \<le> m \<Longrightarrow> strncmp (ptr name) (ptr (take n (takeWhile (\<lambda>c. c \<noteq> 0) name @ replicate m 0))) n = 0"
proof (induction n arbitrary: name)
  case (Suc n)
  show ?case
  proof (cases name)
    case Nil
    then show ?thesis using Suc.prems by (simp add: ptr_def)
  next
    case (Cons c cs)
    have "(\<lambda>i. ptr (x # xs) (Suc i)) = ptr xs" for x :: uchar and xs by (rule ext) (simp add: ptr_def)
    then show ?thesis using Cons Suc.IH [of cs] Suc.prems by (simp add: ptr_def [of "_ # _" 0])
  qed
qed simp

lemma namecmp_pad: "namecmp name (pad_name name) = 0"
  using strncmp_pad [of DIRSIZ DIRSIZ name] by (simp add: namecmp_def pad_name_def)

lemma find_idx_bound: "find_idx Q es = Some m \<Longrightarrow> m < length es"
  by (simp add: find_idx_Some)

lemma find_idx_added:
  assumes "find_idx P es = None" "P e"
  shows "find_idx P (case find_idx Q es of None \<Rightarrow> es @ [e] | Some m \<Rightarrow> es[m := e]) =
    Some (case find_idx Q es of None \<Rightarrow> length es | Some m \<Rightarrow> m)"
proof (cases "find_idx Q es")
  case None
  show ?thesis unfolding None using assms by (auto simp: find_idx_None find_idx_Some nth_append)
next
  case (Some m)
  then have "m < length es" by (rule find_idx_bound)
  then show ?thesis unfolding Some using assms by (auto simp: find_idx_None find_idx_Some [of P] nth_list_update)
qed

text \<open>
  C30.  Calling \<^verbatim>\<open>skipelem\<close> until it returns 0, as \<^verbatim>\<open>namex\<close> does, yields the components of the path,
  that is the non-empty stretches between slashes, each cut off after \<^verbatim>\<open>DIRSIZ\<close> bytes.
\<close>

theorem skipelem_walks_components: "path_names p = map (take DIRSIZ) (components p)"
proof (induction p rule: path_names.induct)
  case (1 p)
  show ?case
    using 1 skipelem_components [of p] by (subst path_names.simps) (auto split: option.split)
qed

text \<open>
  C29.  \<^verbatim>\<open>dirlookup\<close> in a directory returns the inode of the first entry in use with that name, with its
  offset, and 0 if there is none; it changes no block, and panics on an inode that is not a directory.
\<close>

theorem dirlookup_first:
  assumes "tx s L {}" "card L \<le> log_cap s" "fs_ok s" "file_ok s dp" "no_holes s dp" "unat (i_size (icache s ! dp)) mod 16 = 0"
  shows "if i_type (icache s ! dp) \<noteq> T_DIR then dirlookup dv dp name s = Panic ''dirlookup not DIR''
    else \<exists>t. tx_frame s t \<and> view t = view s \<and> dirlookup dv dp name s =
      (case find_idx (named name) (entries (file_bytes s dp)) of
         None \<Rightarrow> Ret (None, t)
       | Some m \<Rightarrow> rbind (iget 1 (ucast (d_inum (entries (file_bytes s dp) ! m))) t) (\<lambda>(ip, s). Ret (Some (ip, 16 * m), s)))"
proof (cases "i_type (icache s ! dp) = T_DIR")
  case True
  have "room s L {} 0" "dir_ok s dp" using assms True by (simp_all add: room_def dir_ok_def)
  then obtain t where "tx_frame s t" "view t = view s" "dirlookup dv dp name s =
      (case find_idx (named name) (entries (file_bytes s dp)) of
         None \<Rightarrow> Ret (None, t)
       | Some m \<Rightarrow> rbind (iget 1 (ucast (d_inum (entries (file_bytes s dp) ! m))) t) (\<lambda>(ip, s). Ret (Some (ip, 16 * m), s)))"
    by (rule dirlookup_ok) (rule that)
  then show ?thesis using True by (intro if_not_P [THEN iffD2] exI [of _ t]) simp_all
qed (simp add: dirlookup_def)

text \<open>
  C28.  \<^verbatim>\<open>dirlink\<close> of a name that the directory does not have stores the entry in the first unused slot, or
  behind the last one, leaves the other entries as they are, and a \<^verbatim>\<open>dirlookup\<close> of the name
  then gets exactly the inode number that was linked.
\<close>

theorem dirlink_dirlookup:
  assumes "tx s L {}" "card L + 7 \<le> log_cap s" "dir_ok s dp" "2 \<le> card (Collect (free_block s))"
    "find_idx (named name) (entries (file_bytes s dp)) = None" "unat (i_size (icache s ! dp)) < MAXFILE * BSIZE"
    "(ucast inum :: ushort) \<noteq> 0"
  shows "\<exists>t u. dirlink dv dp name inum s = Ret (0, t) \<and> fs_frame dp s t \<and> dir_ok t dp \<and> tx_frame t u \<and> view u = view t \<and>
    (let es = entries (file_bytes s dp); e = \<lparr>d_inum = ucast inum, d_name = pad_name name\<rparr>;
         m = (case find_idx (\<lambda>e. d_inum e = 0) es of None \<Rightarrow> length es | Some m \<Rightarrow> m)
     in entries (file_bytes t dp) = take m es @ [e] @ drop (Suc m) es \<and>
        dirlookup dv dp name t = rbind (iget 1 (ucast (ucast inum :: ushort)) u) (\<lambda>(ip, s). Ret (Some (ip, 16 * m), s)))"
proof -
  have r: "room s L {} 7" using assms(1,2) by (simp add: room_def)
  let ?es = "entries (file_bytes s dp)" and ?e = "\<lparr>d_inum = ucast inum, d_name = pad_name name\<rparr>"
  let ?i = "find_idx (\<lambda>e. d_inum e = 0) ?es"
  obtain t L' where t: "dirlink dv dp name inum s = Ret (0, t)" "fs_frame dp s t" "dir_ok t dp" "room t L' {} 0"
    "entries (file_bytes t dp) = (case ?i of None \<Rightarrow> ?es @ [?e] | Some m \<Rightarrow> ?es[m := ?e])"
    by (rule dirlink_ok [OF r assms(3-6), of dv inum]) (auto simp: Let_def)
  have e: "named name ?e" using assms(7) by (simp add: named_def namecmp_pad)
  define m where "m = (case ?i of None \<Rightarrow> length ?es | Some m \<Rightarrow> m)"
  have f: "find_idx (named name) (entries (file_bytes t dp)) = Some m"
    unfolding t(5) m_def by (rule find_idx_added [OF assms(5) e])
  have es: "entries (file_bytes t dp) = take m ?es @ [?e] @ drop (Suc m) ?es"
    unfolding t(5) m_def by (cases ?i) (simp_all add: find_idx_bound upd_conv_take_nth_drop)
  have m: "m \<le> length ?es" unfolding m_def by (cases ?i) (simp_all add: find_idx_bound less_imp_le)
  obtain u where u: "tx_frame t u" "view u = view t"
    "dirlookup dv dp name t = rbind (iget 1 (ucast (d_inum (entries (file_bytes t dp) ! m))) u) (\<lambda>(ip, s). Ret (Some (ip, 16 * m), s))"
    by (rule dirlookup_ok [OF t(4,3), of dv name]) (simp add: f)
  have "d_inum (entries (file_bytes t dp) ! m) = ucast inum" using m unfolding es by (simp add: nth_append)
  then show ?thesis
    using t u es by (intro exI [of _ t] exI [of _ u]) (simp add: Let_def m_def)
qed

text \<open>An empty directory with inode 3, on the small file system.\<close>

definition kfs_dir :: kfs where
  "kfs_dir = kfs0\<lparr>icache := (icache kfs0)[0 := inode0\<lparr>i_type := 1, i_dev := 1, i_inum := 3, i_ref := 1, i_valid := True\<rparr>]\<rparr>"

lemma kfs_dir_props:
  "tx kfs_dir {} {}" "log_cap kfs_dir = 29" "dir_ok kfs_dir 0" "card (Collect (free_block kfs_dir)) = 28"
  "i_size (icache kfs_dir ! 0) = 0" "entries (file_bytes kfs_dir 0) = []"
proof -
  have e: "same_blocks kfs_dir kfs0" unfolding kfs_dir_def by (rule same_blocks_upd)
  note S = same_blocksD [OF e]
  have l: "icache kfs_dir ! 0 = inode0\<lparr>i_type := 1, i_dev := 1, i_inum := 3, i_ref := 1, i_valid := True\<rparr>" "length (icache kfs_dir) = 50"
    by (simp_all add: kfs_dir_def kfs0_fields const_simps)
  show "tx kfs_dir {} {}" "log_cap kfs_dir = 29" using S kfs0_tx by simp_all
  have "slot kfs_dir 0 k = 0" for k
    by (simp add: slot_def addr_at_def l(1) inode0_def NDIRECT_def nth_Cons' del: replicate_Suc)
  then have "file_ok kfs_dir 0" using l S(10) by (simp add: file_ok_def inode0_def kfs0_fields sb0_def NDIRECT_def)
  then show "dir_ok kfs_dir 0" using S kfs0_ok by (simp add: dir_ok_def no_holes_def l(1) inode0_def T_DIR_def)
  have "Collect (free_block kfs_dir) = {36..<64}" by (auto simp: S(6) kfs0_free)
  then show "card (Collect (free_block kfs_dir)) = 28" by simp
  show "i_size (icache kfs_dir ! 0) = 0" by (simp add: l(1) inode0_def)
  then show "entries (file_bytes kfs_dir 0) = []" by (simp add: file_bytes_def entries_def)
qed

lemma kfs_dir_linked:
  obtains t L where "dirlink [] 0 [97, 98] 7 kfs_dir = Ret (0, t)" "dir_ok t 0" "room t L {} 0"
    "entries (file_bytes t 0) = [\<lparr>d_inum = 7, d_name = [97, 98] @ replicate 12 0\<rparr>]"
proof -
  have r: "room kfs_dir {} {} 7" using kfs_dir_props by (simp add: room_def)
  have p: "pad_name [97, 98] = [97, 98] @ replicate 12 0" by (simp add: pad_name_def DIRSIZ_def)
  obtain t where t: "dirlink [] 0 [97, 98] 7 kfs_dir = Ret (0, t)" "dir_ok t 0" "\<exists>L. room t L {} 0"
    "entries (file_bytes t 0) = [\<lparr>d_inum = 7, d_name = [97, 98] @ replicate 12 0\<rparr>]"
    by (rule dirlink_ok [OF r kfs_dir_props(3), of "[97, 98]" "[]" 7]) (use kfs_dir_props p in \<open>simp_all add: const_simps\<close>)
  then show thesis using that by blast
qed

theorem dirlookup_first_witness:
  "\<exists>s t. dirlink [] 0 [97, 98] 7 kfs_dir = Ret (0, s) \<and> tx_frame s t \<and>
     dirlookup [] 0 [97, 98] s = rbind (iget 1 7 t) (\<lambda>(ip, s). Ret (Some (ip, 0), s)) \<and>
     (\<exists>t. dirlookup [] 0 [97] s = Ret (None, t))"
proof -
  obtain s L where s: "dirlink [] 0 [97, 98] 7 kfs_dir = Ret (0, s)" "dir_ok s 0" "room s L {} 0"
    "entries (file_bytes s 0) = [\<lparr>d_inum = 7, d_name = [97, 98] @ replicate 12 0\<rparr>]"
    by (rule kfs_dir_linked)
  have p: "tx s L {}" "card L \<le> log_cap s" "fs_ok s" "file_ok s 0" "no_holes s 0" "unat (i_size (icache s ! 0)) mod 16 = 0"
    and d: "\<not> i_type (icache s ! 0) \<noteq> T_DIR"
    using s(2,3) by (simp_all add: room_def dir_ok_def)
  obtain k where D: "DIRSIZ = Suc (Suc (Suc k))" using that [of 11] by (simp add: DIRSIZ_def)
  have n: "named [97, 98] \<lparr>d_inum = 7, d_name = [97, 98] @ replicate 12 0\<rparr>"
    "\<not> named [97] \<lparr>d_inum = 7, d_name = [97, 98] @ replicate 12 0\<rparr>"
    by (simp_all add: named_def namecmp_def D ptr_def)
  note X = dirlookup_first [OF p, of "[]", unfolded if_not_P [OF d] s(4)]
  obtain t where "tx_frame s t" "dirlookup [] 0 [97, 98] s = rbind (iget 1 7 t) (\<lambda>(ip, s). Ret (Some (ip, 0), s))"
    using X [of "[97, 98]"] n by auto
  moreover have "\<exists>t. dirlookup [] 0 [97] s = Ret (None, t)" using X [of "[97]"] n by auto
  ultimately show ?thesis using s(1) by blast
qed

theorem dirlink_dirlookup_witness:
  "\<exists>t u. dirlink [] 0 [97, 98] 7 kfs_dir = Ret (0, t) \<and>
     dirlookup [] 0 [97, 98] t = rbind (iget 1 7 u) (\<lambda>(ip, s). Ret (Some (ip, 0), s))"
  using dirlink_dirlookup [of kfs_dir "{}" 0 "[97, 98]" 7 "[]"] kfs_dir_props by (auto simp: Let_def const_simps)

end
