(* ===== verification/Vm.thy ===== *)
theory Vm
  imports Fs
begin

text \<open>
  Virtual memory (\<^verbatim>\<open>vm.c\<close> with the page table format and the descriptor formats of \<^verbatim>\<open>mmu.h\<close>).  Page
  directories and page tables are the C ones: 1024 words in a page of the kernel's byte-addressed
  memory, found through the physical addresses they hold.  \<open>translate\<close> is the walk that the
  hardware does.  The null pointer is the address 0; reading through a null page table entry
  is the outcome \<open>Fault\<close>.  The messages that \<^verbatim>\<open>allocuvm\<close> prints are not part of the state.
\<close>

subsection \<open>Page tables\<close>

definition NPDENTRIES :: nat where "NPDENTRIES = 1024"

definition PTE_P :: uint where "PTE_P = 1"
definition PTE_W :: uint where "PTE_W = 2"
definition PTE_U :: uint where "PTE_U = 4"

definition PDX :: "uint \<Rightarrow> uint" where "PDX va = drop_bit 22 va AND 0x3FF"
definition PTX :: "uint \<Rightarrow> uint" where "PTX va = drop_bit 12 va AND 0x3FF"
definition PGADDR :: "uint \<Rightarrow> uint \<Rightarrow> uint \<Rightarrow> uint" where
  "PGADDR d t off = push_bit 22 d OR push_bit 12 t OR off"

definition PTE_ADDR :: "uint \<Rightarrow> uint" where "PTE_ADDR pte = pte AND NOT 0xFFF"
definition PTE_FLAGS :: "uint \<Rightarrow> uint" where "PTE_FLAGS pte = pte AND 0xFFF"

text \<open>
  What the hardware makes of a virtual address: the kernel address of the byte and the
  flags of its page, or a page fault.
\<close>

definition translate :: "memory \<Rightarrow> uint \<Rightarrow> uint \<Rightarrow> (uint \<times> uint) option" where
  "translate m pd va =
     (let pde = load32 m (pd + 4 * PDX va)
      in if pde AND PTE_P = 0 then None
         else let pte = load32 m (P2V (PTE_ADDR pde) + 4 * PTX va)
           in if pte AND PTE_P = 0 then None else Some (P2V (PTE_ADDR pte) + (va AND 0xFFF), PTE_FLAGS pte))"

definition walkpgdir :: "uint \<Rightarrow> uint \<Rightarrow> bool \<Rightarrow> 'a kmem_scheme \<Rightarrow> (uint \<times> 'a kmem_scheme) result" where
  "walkpgdir pd va alloc s =
     (let pde = pd + 4 * PDX va
      in if load32 (mem s) pde AND PTE_P \<noteq> 0
         then Ret (P2V (PTE_ADDR (load32 (mem s) pde)) + 4 * PTX va, s)
         else if \<not> alloc then Ret (0, s)
         else rbind (kalloc s) (\<lambda>(pgtab, s).
           if pgtab = 0 then Ret (0, s)
           else let s = s\<lparr>mem := memset (mem s) pgtab 0 PGSIZE\<rparr>;
                    s = s\<lparr>mem := store32 (mem s) pde (V2P pgtab OR PTE_P OR PTE_W OR PTE_U)\<rparr>
                in Ret (pgtab + 4 * PTX va, s)))"

text \<open>
  The loop of \<^verbatim>\<open>mappages\<close> ends when its address is the last page.  Both are page aligned, so this
  is after \<open>(last - a) / PGSIZE\<close> further rounds, also when the address wraps around.
\<close>

fun mappages_loop :: "nat \<Rightarrow> uint \<Rightarrow> uint \<Rightarrow> uint \<Rightarrow> uint \<Rightarrow> 'a kmem_scheme \<Rightarrow> (int \<times> 'a kmem_scheme) result" where
  "mappages_loop n pd a pa perm s =
     rbind (walkpgdir pd a True s) (\<lambda>(pte, s).
     if pte = 0 then Ret (- 1, s)
     else if load32 (mem s) pte AND PTE_P \<noteq> 0 then Panic ''remap''
     else let s = s\<lparr>mem := store32 (mem s) pte (pa OR perm OR PTE_P)\<rparr>
       in case n of 0 \<Rightarrow> Ret (0, s) | Suc n \<Rightarrow> mappages_loop n pd (a + PGSIZE) (pa + PGSIZE) perm s)"

definition mappages :: "uint \<Rightarrow> uint \<Rightarrow> uint \<Rightarrow> uint \<Rightarrow> uint \<Rightarrow> 'a kmem_scheme \<Rightarrow> (int \<times> 'a kmem_scheme) result" where
  "mappages pd va n pa perm s =
     (let a = PGROUNDDOWN va; last = PGROUNDDOWN (va + n - 1)
      in mappages_loop (unat (last - a) div unat PGSIZE) pd a pa perm s)"

subsection \<open>User memory\<close>

text \<open>
  The loops over user addresses go up by pages.  An address that wraps around starts the
  walk again at 0, and the loop does not end: \<open>Hang\<close>.
\<close>

lemma page_up_less: "\<not> (b::uint) \<le> a \<Longrightarrow> 2 ^ 32 - unat b < 2 ^ 32 - unat a"
  using unat_less_32 [of a] unat_less_32 [of b] by (simp add: word_le_nat_alt diff_less_mono2)

function deallocuvm_loop :: "uint \<Rightarrow> uint \<Rightarrow> uint \<Rightarrow> 'a kmem_scheme \<Rightarrow> 'a kmem_scheme result" where
  "deallocuvm_loop pd oldsz a s =
     (if a < oldsz
      then rbind (walkpgdir pd a False s) (\<lambda>(pte, s).
           rbind (if pte = 0 then Ret (PGADDR (PDX a + 1) 0 0 - PGSIZE, s)
                  else if load32 (mem s) pte AND PTE_P \<noteq> 0
                  then let pa = PTE_ADDR (load32 (mem s) pte)
                    in if pa = 0 then Panic ''kfree''
                       else rbind (kfree (P2V pa) s) (\<lambda>s. Ret (a, s\<lparr>mem := store32 (mem s) pte 0\<rparr>))
                  else Ret (a, s)) (\<lambda>(b, s).
           if b + PGSIZE \<le> a then Hang else deallocuvm_loop pd oldsz (b + PGSIZE) s))
      else Ret s)"
  by pat_completeness auto
termination
  by (relation "measure (\<lambda>(pd, oldsz, a, s). 2 ^ 32 - unat a)") (auto dest: page_up_less)

definition deallocuvm :: "uint \<Rightarrow> uint \<Rightarrow> uint \<Rightarrow> 'a kmem_scheme \<Rightarrow> (uint \<times> 'a kmem_scheme) result" where
  "deallocuvm pd oldsz newsz s =
     (if newsz \<ge> oldsz then Ret (oldsz, s)
      else rbind (deallocuvm_loop pd oldsz (PGROUNDUP newsz) s) (\<lambda>s. Ret (newsz, s)))"

function allocuvm_loop :: "uint \<Rightarrow> uint \<Rightarrow> uint \<Rightarrow> uint \<Rightarrow> 'a kmem_scheme \<Rightarrow> (uint \<times> 'a kmem_scheme) result" where
  "allocuvm_loop pd oldsz newsz a s =
     (if a < newsz
      then rbind (kalloc s) (\<lambda>(page, s).
           if page = 0
           then rbind (deallocuvm pd newsz oldsz s) (\<lambda>(_, s). Ret (0, s))
           else let s = s\<lparr>mem := memset (mem s) page 0 PGSIZE\<rparr>
             in rbind (mappages pd a PGSIZE (V2P page) (PTE_W OR PTE_U) s) (\<lambda>(r, s).
                if r < 0
                then rbind (deallocuvm pd newsz oldsz s) (\<lambda>(_, s).
                     rbind (kfree page s) (\<lambda>s. Ret (0, s)))
                else if a + PGSIZE \<le> a then Hang
                else allocuvm_loop pd oldsz newsz (a + PGSIZE) s))
      else Ret (newsz, s))"
  by pat_completeness auto
termination
  by (relation "measure (\<lambda>(pd, oldsz, newsz, a, s). 2 ^ 32 - unat a)") (auto dest: page_up_less)

definition allocuvm :: "uint \<Rightarrow> uint \<Rightarrow> uint \<Rightarrow> 'a kmem_scheme \<Rightarrow> (uint \<times> 'a kmem_scheme) result" where
  "allocuvm pd oldsz newsz s =
     (if newsz \<ge> KERNBASE then Ret (0, s)
      else if newsz < oldsz then Ret (oldsz, s)
      else allocuvm_loop pd oldsz newsz (PGROUNDUP oldsz) s)"

fun freevm_loop :: "uint \<Rightarrow> nat \<Rightarrow> nat \<Rightarrow> 'a kmem_scheme \<Rightarrow> 'a kmem_scheme result" where
  "freevm_loop pd i 0 s = Ret s"
| "freevm_loop pd i (Suc n) s =
     (let pde = load32 (mem s) (pd + 4 * of_nat i)
      in rbind (if pde AND PTE_P \<noteq> 0 then kfree (P2V (PTE_ADDR pde)) s else Ret s) (freevm_loop pd (Suc i) n))"

definition freevm :: "uint \<Rightarrow> 'a kmem_scheme \<Rightarrow> 'a kmem_scheme result" where
  "freevm pd s =
     (if pd = 0 then Panic ''freevm: no pgdir''
      else rbind (deallocuvm pd KERNBASE 0 s) (\<lambda>(_, s).
           rbind (freevm_loop pd 0 NPDENTRIES s) (kfree pd)))"

subsection \<open>The kernel part\<close>

text \<open>\<open>data\<close> is the linker's address of the kernel's data segment.\<close>

record kmap =
  virt :: uint
  phys_start :: uint
  phys_end :: uint
  perm :: uint

definition kmap_tab :: "uint \<Rightarrow> kmap list" where
  "kmap_tab data =
     [\<lparr>virt = KERNBASE, phys_start = 0, phys_end = EXTMEM, perm = PTE_W\<rparr>,
      \<lparr>virt = KERNLINK, phys_start = V2P KERNLINK, phys_end = V2P data, perm = 0\<rparr>,
      \<lparr>virt = data, phys_start = V2P data, phys_end = PHYSTOP, perm = PTE_W\<rparr>,
      \<lparr>virt = DEVSPACE, phys_start = DEVSPACE, phys_end = 0, perm = PTE_W\<rparr>]"

fun setupkvm_loop :: "uint \<Rightarrow> kmap list \<Rightarrow> 'a kmem_scheme \<Rightarrow> (uint \<times> 'a kmem_scheme) result" where
  "setupkvm_loop pd [] s = Ret (pd, s)"
| "setupkvm_loop pd (k # ks) s =
     rbind (mappages pd (virt k) (phys_end k - phys_start k) (phys_start k) (perm k) s) (\<lambda>(r, s).
     if r < 0 then rbind (freevm pd s) (\<lambda>s. Ret (0, s)) else setupkvm_loop pd ks s)"

definition setupkvm :: "uint \<Rightarrow> 'a kmem_scheme \<Rightarrow> (uint \<times> 'a kmem_scheme) result" where
  "setupkvm data s =
     rbind (kalloc s) (\<lambda>(pd, s).
     if pd = 0 then Ret (0, s)
     else let s = s\<lparr>mem := memset (mem s) pd 0 PGSIZE\<rparr>
       in if P2V PHYSTOP > DEVSPACE then Panic ''PHYSTOP too high''
          else setupkvm_loop pd (kmap_tab data) s)"

subsection \<open>Filling and copying user memory\<close>

definition inituvm :: "uint \<Rightarrow> uint \<Rightarrow> uint \<Rightarrow> 'a kmem_scheme \<Rightarrow> 'a kmem_scheme result" where
  "inituvm pd init n s =
     (if n \<ge> PGSIZE then Panic ''inituvm: more than a page''
      else rbind (kalloc s) (\<lambda>(page, s).
        if page = 0 then Fault
        else let s = s\<lparr>mem := memset (mem s) page 0 PGSIZE\<rparr>
          in rbind (mappages pd 0 PGSIZE (V2P page) (PTE_W OR PTE_U) s) (\<lambda>(_, s).
             Ret (s\<lparr>mem := memmove (mem s) page init n\<rparr>))))"

fun store_bytes :: "memory \<Rightarrow> uint \<Rightarrow> uchar list \<Rightarrow> memory" where
  "store_bytes m a [] = m"
| "store_bytes m a (x # xs) = store_bytes (m(a := x)) (a + 1) xs"

function loaduvm_loop :: "'a kfs_scheme devsw list \<Rightarrow> uint \<Rightarrow> uint \<Rightarrow> nat \<Rightarrow> uint \<Rightarrow> uint \<Rightarrow> uint \<Rightarrow> 'a kfs_scheme \<Rightarrow>
    (int \<times> 'a kfs_scheme) result" where
  "loaduvm_loop dv pd addr ip off n i s =
     (if i < n
      then rbind (walkpgdir pd (addr + i) False s) (\<lambda>(pte, s).
           if pte = 0 then Panic ''loaduvm: address should exist''
           else let pa = PTE_ADDR (load32 (mem s) pte);
                    k = (if n - i < PGSIZE then n - i else PGSIZE)
             in rbind (readi dv ip (off + i) k s) (\<lambda>(r, xs, s).
                let s = s\<lparr>mem := store_bytes (mem s) (P2V pa) xs\<rparr>
                in if r \<noteq> sint k then Ret (- 1, s)
                   else if i + PGSIZE \<le> i then Hang
                   else loaduvm_loop dv pd addr ip off n (i + PGSIZE) s))
      else Ret (0, s))"
  by pat_completeness auto
termination
  by (relation "measure (\<lambda>(dv, pd, addr, ip, off, n, i, s). 2 ^ 32 - unat i)") (auto dest: page_up_less)

definition loaduvm :: "'a kfs_scheme devsw list \<Rightarrow> uint \<Rightarrow> uint \<Rightarrow> nat \<Rightarrow> uint \<Rightarrow> uint \<Rightarrow> 'a kfs_scheme \<Rightarrow>
    (int \<times> 'a kfs_scheme) result" where
  "loaduvm dv pd addr ip off n s =
     (if unat addr mod unat PGSIZE \<noteq> 0 then Panic ''loaduvm: addr must be page aligned''
      else loaduvm_loop dv pd addr ip off n 0 s)"

definition clearpteu :: "uint \<Rightarrow> uint \<Rightarrow> 'a kmem_scheme \<Rightarrow> 'a kmem_scheme result" where
  "clearpteu pd uva s =
     rbind (walkpgdir pd uva False s) (\<lambda>(pte, s).
     if pte = 0 then Panic ''clearpteu''
     else Ret (s\<lparr>mem := store32 (mem s) pte (load32 (mem s) pte AND NOT PTE_U)\<rparr>))"

function copyuvm_loop :: "uint \<Rightarrow> uint \<Rightarrow> uint \<Rightarrow> uint \<Rightarrow> 'a kmem_scheme \<Rightarrow> (uint \<times> 'a kmem_scheme) result" where
  "copyuvm_loop pd d n i s =
     (if i < n
      then rbind (walkpgdir pd i False s) (\<lambda>(pte, s).
           if pte = 0 then Panic ''copyuvm: pte should exist''
           else let e = load32 (mem s) pte
             in if e AND PTE_P = 0 then Panic ''copyuvm: page not present''
                else rbind (kalloc s) (\<lambda>(page, s).
                  if page = 0 then rbind (freevm d s) (\<lambda>s. Ret (0, s))
                  else let s = s\<lparr>mem := memmove (mem s) page (P2V (PTE_ADDR e)) PGSIZE\<rparr>
                    in rbind (mappages d i PGSIZE (V2P page) (PTE_FLAGS e) s) (\<lambda>(r, s).
                       if r < 0
                       then rbind (kfree page s) (\<lambda>s. rbind (freevm d s) (\<lambda>s. Ret (0, s)))
                       else if i + PGSIZE \<le> i then Hang
                       else copyuvm_loop pd d n (i + PGSIZE) s)))
      else Ret (d, s))"
  by pat_completeness auto
termination
  by (relation "measure (\<lambda>(pd, d, n, i, s). 2 ^ 32 - unat i)") (auto dest: page_up_less)

definition copyuvm :: "uint \<Rightarrow> uint \<Rightarrow> uint \<Rightarrow> 'a kmem_scheme \<Rightarrow> (uint \<times> 'a kmem_scheme) result" where
  "copyuvm data pd n s =
     rbind (setupkvm data s) (\<lambda>(d, s). if d = 0 then Ret (0, s) else copyuvm_loop pd d n 0 s)"

definition uva2ka :: "uint \<Rightarrow> uint \<Rightarrow> 'a kmem_scheme \<Rightarrow> uint result" where
  "uva2ka pd uva s =
     rbind (walkpgdir pd uva False s) (\<lambda>(pte, s).
     if pte = 0 then Fault
     else let e = load32 (mem s) pte
       in if e AND PTE_P = 0 then Ret 0
          else if e AND PTE_U = 0 then Ret 0
          else Ret (P2V (PTE_ADDR e)))"

text \<open>The distance to the next page boundary is positive, so every round copies something.\<close>

lemma unat_page_off: "unat (va - PGROUNDDOWN va) = unat va mod 4096"
proof -
  have "PGROUNDDOWN va \<le> va" by (simp add: word_le_nat_alt unat_PGROUNDDOWN)
  then show ?thesis by (simp add: unat_sub unat_PGROUNDDOWN minus_mult_div_eq_mod)
qed

lemma unat_page_rest: "unat (PGSIZE - (va - PGROUNDDOWN va)) = 4096 - unat va mod 4096"
proof -
  have "va - PGROUNDDOWN va \<le> PGSIZE" by (simp add: word_le_nat_alt unat_page_off PGSIZE_def less_imp_le)
  then show ?thesis by (simp add: unat_sub unat_page_off) (simp add: PGSIZE_def)
qed

text \<open>The bytes that \<^verbatim>\<open>copyout\<close> copies from its pointer argument are an argument here.\<close>

function copyout :: "uint \<Rightarrow> uint \<Rightarrow> uchar list \<Rightarrow> 'a kmem_scheme \<Rightarrow> (int \<times> 'a kmem_scheme) result" where
  "copyout pd va bs s =
     (if bs \<noteq> []
      then let va0 = PGROUNDDOWN va
        in rbind (uva2ka pd va0 s) (\<lambda>pa0.
           if pa0 = 0 then Ret (- 1, s)
           else let n = min (length bs) (unat (PGSIZE - (va - va0)));
                    s = s\<lparr>mem := store_bytes (mem s) (pa0 + (va - va0)) (take n bs)\<rparr>
             in copyout pd (va0 + PGSIZE) (drop n bs) s)
      else Ret (0, s))"
  by pat_completeness auto
termination
proof (relation "measure (\<lambda>(pd, va, bs, s). length bs)", goal_cases)
  case (2 pd va bs s va0 pa0 n s')
  then show ?case using unat_page_rest [of va] mod_less_divisor [of 4096 "unat va"] by auto
qed simp

declare mappages_loop.simps [simp del] deallocuvm_loop.simps [simp del] allocuvm_loop.simps [simp del]
  loaduvm_loop.simps [simp del] copyuvm_loop.simps [simp del] copyout.simps [simp del]

subsection \<open>Segments and the switch of address spaces\<close>

record segdesc =
  lim_15_0 :: "16 word"
  base_15_0 :: "16 word"
  base_23_16 :: "8 word"
  seg_type :: "4 word"
  seg_s :: "1 word"
  seg_dpl :: "2 word"
  seg_p :: "1 word"
  lim_19_16 :: "4 word"
  seg_avl :: "1 word"
  seg_rsv1 :: "1 word"
  seg_db :: "1 word"
  seg_g :: "1 word"
  base_31_24 :: "8 word"

definition SEG :: "uint \<Rightarrow> uint \<Rightarrow> uint \<Rightarrow> uint \<Rightarrow> segdesc" where
  "SEG ty base lim dpl =
     \<lparr>lim_15_0 = ucast (drop_bit 12 lim AND 0xFFFF), base_15_0 = ucast (base AND 0xFFFF),
      base_23_16 = ucast (drop_bit 16 base AND 0xFF), seg_type = ucast ty, seg_s = 1, seg_dpl = ucast dpl, seg_p = 1,
      lim_19_16 = ucast (drop_bit 28 lim), seg_avl = 0, seg_rsv1 = 0, seg_db = 1, seg_g = 1,
      base_31_24 = ucast (drop_bit 24 base)\<rparr>"

definition SEG16 :: "uint \<Rightarrow> uint \<Rightarrow> uint \<Rightarrow> uint \<Rightarrow> segdesc" where
  "SEG16 ty base lim dpl =
     \<lparr>lim_15_0 = ucast (lim AND 0xFFFF), base_15_0 = ucast (base AND 0xFFFF),
      base_23_16 = ucast (drop_bit 16 base AND 0xFF), seg_type = ucast ty, seg_s = 1, seg_dpl = ucast dpl, seg_p = 1,
      lim_19_16 = ucast (drop_bit 16 lim), seg_avl = 0, seg_rsv1 = 0, seg_db = 1, seg_g = 0,
      base_31_24 = ucast (drop_bit 24 base)\<rparr>"

record taskstate =
  ts_link :: uint
  ts_esp0 :: uint
  ts_ss0 :: ushort
  ts_padding1 :: ushort
  ts_esp1 :: uint
  ts_ss1 :: ushort
  ts_padding2 :: ushort
  ts_esp2 :: uint
  ts_ss2 :: ushort
  ts_padding3 :: ushort
  ts_cr3 :: uint
  ts_eip :: uint
  ts_eflags :: uint
  ts_eax :: uint
  ts_ecx :: uint
  ts_edx :: uint
  ts_ebx :: uint
  ts_esp :: uint
  ts_ebp :: uint
  ts_esi :: uint
  ts_edi :: uint
  ts_es :: ushort
  ts_padding4 :: ushort
  ts_cs :: ushort
  ts_padding5 :: ushort
  ts_ss :: ushort
  ts_padding6 :: ushort
  ts_ds :: ushort
  ts_padding7 :: ushort
  ts_fs :: ushort
  ts_padding8 :: ushort
  ts_gs :: ushort
  ts_padding9 :: ushort
  ts_ldt :: ushort
  ts_padding10 :: ushort
  ts_t :: ushort
  ts_iomb :: ushort

text \<open>
  The state that address spaces add: the kernel's page directory, the page directory register,
  and for each CPU its descriptor table and task state; \<open>fork_first\<close> is the static variable of \<^verbatim>\<open>forkret\<close>.
  The fields in between are addresses that the
  linker gives: the kernel's data segment, the two routines a new process starts in, the image of
  the first program and its size, and where each CPU's task state lies.
\<close>

record kvm = kfs +
  kpgdir :: uint
  cr3 :: uint
  gdt :: "nat \<Rightarrow> nat \<Rightarrow> segdesc"
  tss :: "nat \<Rightarrow> taskstate"
  gdtr :: "nat option"
  task_reg :: ushort
  k_data :: uint
  k_forkret :: uint
  k_trapret :: uint
  k_initcode :: uint
  k_initcode_size :: uint
  k_ts :: "nat \<Rightarrow> uint"
  fork_first :: bool

definition SEG_KCODE :: nat where "SEG_KCODE = 1"
definition SEG_KDATA :: nat where "SEG_KDATA = 2"
definition SEG_UCODE :: nat where "SEG_UCODE = 3"
definition SEG_UDATA :: nat where "SEG_UDATA = 4"
definition SEG_TSS :: nat where "SEG_TSS = 5"
definition DPL_USER :: uint where "DPL_USER = 3"
definition STA_X :: uint where "STA_X = 8"
definition STA_W :: uint where "STA_W = 2"
definition STA_R :: uint where "STA_R = 2"
definition STS_T32A :: uint where "STS_T32A = 9"

definition seginit :: "'a kvm_scheme \<Rightarrow> 'a kvm_scheme result" where
  "seginit s =
     rbind (mycpu s) (\<lambda>c.
     Ret (s\<lparr>gdt := (gdt s)(c := (gdt s c)(
        SEG_KCODE := SEG (STA_X OR STA_R) 0 0xFFFFFFFF 0,
        SEG_KDATA := SEG STA_W 0 0xFFFFFFFF 0,
        SEG_UCODE := SEG (STA_X OR STA_R) 0 0xFFFFFFFF DPL_USER,
        SEG_UDATA := SEG STA_W 0 0xFFFFFFFF DPL_USER)), gdtr := Some c\<rparr>))"

definition switchkvm :: "'a kvm_scheme \<Rightarrow> 'a kvm_scheme" where
  "switchkvm s = s\<lparr>cr3 := V2P (kpgdir s)\<rparr>"

definition kvmalloc :: "'a kvm_scheme \<Rightarrow> 'a kvm_scheme result" where
  "kvmalloc s = rbind (setupkvm (k_data s) s) (\<lambda>(pd, s). Ret (switchkvm (s\<lparr>kpgdir := pd\<rparr>)))"

definition switchuvm :: "nat option \<Rightarrow> 'a kvm_scheme \<Rightarrow> 'a kvm_scheme result" where
  "switchuvm p s =
     (case p of None \<Rightarrow> Panic ''switchuvm: no process''
      | Some i \<Rightarrow>
        let p = ptable s ! i
        in if kstack p = 0 then Panic ''switchuvm: no kstack''
           else if pgdir p = 0 then Panic ''switchuvm: no pgdir''
           else rbind (pushcli s) (\<lambda>s.
             rbind (mycpu s) (\<lambda>c.
             popcli (s\<lparr>gdt := (gdt s)(c := (gdt s c)(SEG_TSS := (SEG16 STS_T32A (k_ts s c) (104 - 1) 0)\<lparr>seg_s := 0\<rparr>)),
                tss := (tss s)(c := (tss s c)\<lparr>ts_ss0 := push_bit 3 (of_nat SEG_KDATA),
                  ts_esp0 := kstack p + of_nat KSTACKSIZE, ts_iomb := 0xFFFF\<rparr>),
                task_reg := push_bit 3 (of_nat SEG_TSS), cr3 := V2P (pgdir p)\<rparr>))))"

end
