(* ===== verification/File.thy ===== *)
theory File
  imports Fs
begin

text \<open>
  Open files (\<^verbatim>\<open>file.c\<close>) on top of inodes and pipes, and \<^verbatim>\<open>pipealloc\<close> of \<^verbatim>\<open>pipe.c\<close>, which needs the
  file table and the page allocator.  Files are the indices of \<^verbatim>\<open>ftable.file\<close>.  The bytes that a read
  stores at its address are part of the result; those of a write are an argument.
\<close>

definition fileclose :: "nat \<Rightarrow> 'a kfs_scheme \<Rightarrow> 'a kfs_scheme result" where
  "fileclose f s =
     rbind (acquire FtableLock s) (\<lambda>s.
     if fref (ftable s ! f) < 1 then Panic ''fileclose''
     else let s = upd_file f (\<lambda>x. x\<lparr>fref := fref x - 1\<rparr>) s
       in if fref (ftable s ! f) > 0 then release FtableLock s
          else let ff = ftable s ! f; s = upd_file f (\<lambda>x. x\<lparr>fref := 0, ftype := FD_NONE\<rparr>) s
            in rbind (release FtableLock s) (\<lambda>s.
               case ftype ff of
                 FD_PIPE \<Rightarrow> pipeclose (fpipe ff) (writable ff) s
               | FD_INODE \<Rightarrow> rbind (begin_op s) (\<lambda>s. rbind (iput (fip ff) s) (\<lambda>s. end_op s))
               | FD_NONE \<Rightarrow> Ret s))"

text \<open>The result \<open>None\<close> of \<open>filestat\<close> is the return of -1.\<close>

definition filestat :: "nat \<Rightarrow> 'a kfs_scheme \<Rightarrow> (stat option \<times> 'a kfs_scheme) result" where
  "filestat f s =
     (let ip = fip (ftable s ! f)
      in if ftype (ftable s ! f) = FD_INODE
         then rbind (ilock (Some ip) s) (\<lambda>s.
              let st = stati (icache s ! ip)
              in rbind (iunlock (Some ip) s) (\<lambda>s. Ret (Some st, s)))
         else Ret (None, s))"

definition fileread :: "'a kfs_scheme devsw list \<Rightarrow> nat \<Rightarrow> int \<Rightarrow> 'a kfs_scheme \<Rightarrow> (int \<times> uchar list \<times> 'a kfs_scheme) result" where
  "fileread dv f n s =
     (if \<not> readable (ftable s ! f) then Ret (- 1, [], s)
      else case ftype (ftable s ! f) of
        FD_PIPE \<Rightarrow> rbind (piperead (fpipe (ftable s ! f)) (nat n) s) (\<lambda>(r, s).
          case r of None \<Rightarrow> Ret (- 1, [], s) | Some cs \<Rightarrow> Ret (int (length cs), cs, s))
      | FD_INODE \<Rightarrow>
          let ip = fip (ftable s ! f)
          in rbind (ilock (Some ip) s) (\<lambda>s.
             rbind (readi dv ip (foff (ftable s ! f)) (of_int n) s) (\<lambda>(r, xs, s).
             let s = (if r > 0 then upd_file f (\<lambda>x. x\<lparr>foff := foff x + of_int r\<rparr>) s else s)
             in rbind (iunlock (Some ip) s) (\<lambda>s. Ret (r, xs, s))))
      | FD_NONE \<Rightarrow> Panic ''fileread'')"

text \<open>\<^verbatim>\<open>int max = ((MAXOPBLOCKS-1-1-2) / 2) * 512\<close>.\<close>

definition filewrite_max :: nat where
  "filewrite_max = ((MAXOPBLOCKS - 1 - 1 - 2) div 2) * 512"

text \<open>
  The loop of \<^verbatim>\<open>filewrite\<close> on the bytes still to be written; it returns whether it got to the
  end of them.
\<close>

function filewrite_loop :: "'a kfs_scheme devsw list \<Rightarrow> nat \<Rightarrow> uchar list \<Rightarrow> 'a kfs_scheme \<Rightarrow> (bool \<times> 'a kfs_scheme) result" where
  "filewrite_loop dv f src s =
     (if src = [] then Ret (True, s)
      else let n1 = min (length src) filewrite_max; ip = fip (ftable s ! f)
        in rbind (begin_op s) (\<lambda>s.
           rbind (ilock (Some ip) s) (\<lambda>s.
           rbind (writei dv ip (take n1 src) (foff (ftable s ! f)) s) (\<lambda>(r, s).
           let s = (if r > 0 then upd_file f (\<lambda>x. x\<lparr>foff := foff x + of_int r\<rparr>) s else s)
           in rbind (iunlock (Some ip) s) (\<lambda>s.
              rbind (end_op s) (\<lambda>s.
              if r < 0 then Ret (False, s)
              else if r \<noteq> int n1 then Panic ''short filewrite''
              else filewrite_loop dv f (drop n1 src) s))))))"
  by pat_completeness auto
termination
  by (relation "measure (\<lambda>(dv, f, src, s). length src)") (auto simp: filewrite_max_def const_simps)

declare filewrite_loop.simps [simp del]

definition filewrite :: "'a kfs_scheme devsw list \<Rightarrow> nat \<Rightarrow> uchar list \<Rightarrow> 'a kfs_scheme \<Rightarrow> (int \<times> 'a kfs_scheme) result" where
  "filewrite dv f src s =
     (if \<not> writable (ftable s ! f) then Ret (- 1, s)
      else case ftype (ftable s ! f) of
        FD_PIPE \<Rightarrow> pipewrite (fpipe (ftable s ! f)) src s
      | FD_INODE \<Rightarrow> rbind (filewrite_loop dv f src s) (\<lambda>(ok, s). Ret (if ok then int (length src) else - 1, s))
      | FD_NONE \<Rightarrow> Panic ''filewrite'')"

text \<open>
  \<^verbatim>\<open>pipealloc\<close>: the two files, or \<open>None\<close> for the return of -1.  At the label \<^verbatim>\<open>bad\<close> the page is always null,
  so its \<^verbatim>\<open>kfree\<close> there is never reached.
\<close>

definition pipealloc :: "'a kfs_scheme \<Rightarrow> ((nat \<times> nat) option \<times> 'a kfs_scheme) result" where
  "pipealloc s =
     rbind (filealloc s) (\<lambda>(f0, s).
     case f0 of None \<Rightarrow> Ret (None, s)
     | Some f0 \<Rightarrow>
       rbind (filealloc s) (\<lambda>(f1, s).
       case f1 of None \<Rightarrow> rbind (fileclose f0 s) (\<lambda>s. Ret (None, s))
       | Some f1 \<Rightarrow>
         rbind (kalloc s) (\<lambda>(p, s).
         if p = 0 then rbind (fileclose f0 s) (\<lambda>s. rbind (fileclose f1 s) (\<lambda>s. Ret (None, s)))
         else Ret (Some (f0, f1), pipe_setup (unat p) f0 f1 s))))"

end
