(* ===== verification/Proc.thy ===== *)
theory Proc
  imports Vm File
begin

text \<open>
  The life of processes (\<^verbatim>\<open>proc.c\<close>): creation, growth, exit and reaping, and the scheduler's switches.
  The trap frame and the saved context of a process, which lie at the top of its kernel stack, are
  fields of the process here; the rest of the stack page is in memory.  A new trap frame is left
  as it was until \<^verbatim>\<open>userinit\<close> or \<^verbatim>\<open>fork\<close> fills it.  A function that gives up the CPU for good, as
  \<^verbatim>\<open>exit\<close> does, returns the state at the switch to the scheduler.
\<close>

abbreviation upd_proc :: "nat \<Rightarrow> (proc \<Rightarrow> proc) \<Rightarrow> 'a kproc_scheme \<Rightarrow> 'a kproc_scheme" where
  "upd_proc i f s \<equiv> s\<lparr>ptable := (ptable s)[i := f (ptable s ! i)]\<rparr>"

text \<open>\<^verbatim>\<open>myproc()\<close> where the result is dereferenced.\<close>

definition curproc :: "'a kproc_scheme \<Rightarrow> (nat \<times> 'a kproc_scheme) result" where
  "curproc s = rbind (myproc s) (\<lambda>(p, s). case p of None \<Rightarrow> Fault | Some p \<Rightarrow> Ret (p, s))"

definition pinit :: "'a kproc_scheme \<Rightarrow> 'a kproc_scheme" where
  "pinit s = initlock PtableLock ''ptable'' s"

definition cpuid :: "'a kproc_scheme \<Rightarrow> int result" where
  "cpuid s = rbind (mycpu s) (\<lambda>c. Ret (int c))"

text \<open>The size of \<^verbatim>\<open>struct trapframe\<close>.\<close>

definition TFSIZE :: nat where "TFSIZE = 76"

definition context0 :: kcontext where
  "context0 = \<lparr>ctx_edi = 0, ctx_esi = 0, ctx_ebx = 0, ctx_ebp = 0, ctx_eip = 0\<rparr>"

definition allocproc :: "'a kvm_scheme \<Rightarrow> (nat option \<times> 'a kvm_scheme) result" where
  "allocproc s =
     rbind (acquire PtableLock s) (\<lambda>s.
     case find_idx (\<lambda>p. pstate p = UNUSED) (ptable s) of
       None \<Rightarrow> rbind (release PtableLock s) (\<lambda>s. Ret (None, s))
     | Some i \<Rightarrow>
         let s = (upd_proc i (\<lambda>p. p\<lparr>pstate := EMBRYO, pid := nextpid s\<rparr>) s)\<lparr>nextpid := nextpid s + 1\<rparr>
         in rbind (release PtableLock s) (\<lambda>s.
            rbind (kalloc s) (\<lambda>(stk, s).
            let s = upd_proc i (\<lambda>p. p\<lparr>kstack := stk\<rparr>) s
            in if stk = 0 then Ret (None, upd_proc i (\<lambda>p. p\<lparr>pstate := UNUSED\<rparr>) s)
               else let sp = stk + of_nat KSTACKSIZE - of_nat TFSIZE - 4;
                        s = s\<lparr>mem := store32 (mem s) sp (k_trapret s)\<rparr>
                 in Ret (Some i, upd_proc i (\<lambda>p. p\<lparr>pcontext := context0\<lparr>ctx_eip := k_forkret s\<rparr>\<rparr>) s))))"

text \<open>
  \<^verbatim>\<open>safestrcpy\<close> into the name of a process: at most 15 bytes and a NUL; a shorter name is followed
  by two NUL bytes.
\<close>

definition copy_name :: "uchar list \<Rightarrow> uchar list \<Rightarrow> uchar list" where
  "copy_name old src =
     (let c = take 15 (takeWhile (\<lambda>x. x \<noteq> 0) src)
      in if length c < 15 then c @ [0, 0] @ drop (length c + 2) old else c @ [0])"

definition FL_IF :: uint where "FL_IF = 0x200"

definition initcode_name :: "uchar list" where
  "initcode_name = [0x69, 0x6E, 0x69, 0x74, 0x63, 0x6F, 0x64, 0x65]"

definition userinit :: "'a kvm_scheme devsw list \<Rightarrow> 'a kvm_scheme \<Rightarrow> 'a kvm_scheme result" where
  "userinit dv s =
     rbind (allocproc s) (\<lambda>(np, s).
     let s = s\<lparr>initproc := np\<rparr>
     in case np of None \<Rightarrow> Fault
     | Some p \<Rightarrow>
       rbind (setupkvm (k_data s) s) (\<lambda>(pd, s).
       let s = upd_proc p (\<lambda>q. q\<lparr>pgdir := pd\<rparr>) s
       in if pd = 0 then Panic ''userinit: out of memory?''
          else rbind (inituvm pd (k_initcode s) (k_initcode_size s) s) (\<lambda>s.
            let ds = push_bit 3 (of_nat SEG_UDATA) OR ucast DPL_USER;
                s = upd_proc p (\<lambda>q. q\<lparr>sz := PGSIZE, tf := tf0\<lparr>tf_cs := push_bit 3 (of_nat SEG_UCODE) OR ucast DPL_USER,
                      tf_ds := ds, tf_es := ds, tf_ss := ds, tf_eflags := FL_IF, tf_esp := PGSIZE, tf_eip := 0\<rparr>,
                      pname := copy_name (pname q) initcode_name\<rparr>) s
            in rbind (namei dv [slash] s) (\<lambda>(ip, s).
               let s = upd_proc p (\<lambda>q. q\<lparr>cwd := ip\<rparr>) s
               in rbind (acquire PtableLock s) (\<lambda>s.
                  release PtableLock (upd_proc p (\<lambda>q. q\<lparr>pstate := RUNNABLE\<rparr>) s))))))"

definition growproc :: "int \<Rightarrow> 'a kvm_scheme \<Rightarrow> (int \<times> 'a kvm_scheme) result" where
  "growproc n s =
     rbind (curproc s) (\<lambda>(p, s).
     let pd = pgdir (ptable s ! p); size = sz (ptable s ! p)
     in rbind (if n > 0 then allocuvm pd size (size + of_int n) s
               else if n < 0 then deallocuvm pd size (size + of_int n) s
               else Ret (size, s)) (\<lambda>(size, s).
        if n \<noteq> 0 \<and> size = 0 then Ret (- 1, s)
        else let s = upd_proc p (\<lambda>q. q\<lparr>sz := size\<rparr>) s
          in rbind (switchuvm (Some p) s) (\<lambda>s. Ret (0, s))))"

fun dup_files :: "nat \<Rightarrow> nat \<Rightarrow> nat \<Rightarrow> nat \<Rightarrow> 'a kvm_scheme \<Rightarrow> 'a kvm_scheme result" where
  "dup_files me np i 0 s = Ret s"
| "dup_files me np i (Suc n) s =
     rbind (case ofile (ptable s ! me) ! i of
              None \<Rightarrow> Ret s
            | Some f \<Rightarrow> rbind (filedup f s) (\<lambda>(f, s). Ret (upd_proc np (\<lambda>q. q\<lparr>ofile := (ofile q)[i := Some f]\<rparr>) s)))
       (\<lambda>s. dup_files me np (Suc i) n s)"

definition fork :: "'a kvm_scheme \<Rightarrow> (int \<times> 'a kvm_scheme) result" where
  "fork s =
     rbind (curproc s) (\<lambda>(me, s).
     rbind (allocproc s) (\<lambda>(np, s).
     case np of None \<Rightarrow> Ret (- 1, s)
     | Some np \<Rightarrow>
       rbind (copyuvm (k_data s) (pgdir (ptable s ! me)) (sz (ptable s ! me)) s) (\<lambda>(pd, s).
       let s = upd_proc np (\<lambda>q. q\<lparr>pgdir := pd\<rparr>) s
       in if pd = 0
          then rbind (kfree (kstack (ptable s ! np)) s) (\<lambda>s.
               Ret (- 1, upd_proc np (\<lambda>q. q\<lparr>kstack := 0, pstate := UNUSED\<rparr>) s))
          else let c = ptable s ! me;
                   s = upd_proc np (\<lambda>q. q\<lparr>sz := sz c, parent := Some me, tf := (tf c)\<lparr>tf_eax := 0\<rparr>\<rparr>) s
            in rbind (dup_files me np 0 NOFILE s) (\<lambda>s.
               case cwd (ptable s ! me) of None \<Rightarrow> Fault
               | Some ip \<Rightarrow> rbind (idup ip s) (\<lambda>(ip, s).
                   let s = upd_proc np (\<lambda>q. q\<lparr>cwd := Some ip, pname := copy_name (pname q) (pname (ptable s ! me))\<rparr>) s;
                       n = pid (ptable s ! np)
                   in rbind (acquire PtableLock s) (\<lambda>s.
                      rbind (release PtableLock (upd_proc np (\<lambda>q. q\<lparr>pstate := RUNNABLE\<rparr>) s)) (\<lambda>s.
                      Ret (sint n, s))))))))"

fun close_files :: "nat \<Rightarrow> nat \<Rightarrow> nat \<Rightarrow> 'a kvm_scheme \<Rightarrow> 'a kvm_scheme result" where
  "close_files me fd 0 s = Ret s"
| "close_files me fd (Suc n) s =
     rbind (case ofile (ptable s ! me) ! fd of
              None \<Rightarrow> Ret s
            | Some f \<Rightarrow> rbind (fileclose f s) (\<lambda>s. Ret (upd_proc me (\<lambda>q. q\<lparr>ofile := (ofile q)[fd := None]\<rparr>) s)))
       (\<lambda>s. close_files me (Suc fd) n s)"

text \<open>\<^verbatim>\<open>wakeup1\<close> of a process pointer; nobody sleeps on the null pointer.\<close>

definition wake_proc :: "nat option \<Rightarrow> 'a kproc_scheme \<Rightarrow> 'a kproc_scheme" where
  "wake_proc p s = (case p of None \<Rightarrow> s | Some p \<Rightarrow> wakeup1 (ChProc p) s)"

fun reparent :: "nat \<Rightarrow> nat \<Rightarrow> nat \<Rightarrow> 'a kproc_scheme \<Rightarrow> 'a kproc_scheme" where
  "reparent me i 0 s = s"
| "reparent me i (Suc n) s =
     reparent me (Suc i) n
       (if parent (ptable s ! i) = Some me
        then let s = upd_proc i (\<lambda>q. q\<lparr>parent := initproc s\<rparr>) s
          in if pstate (ptable s ! i) = ZOMBIE then wake_proc (initproc s) s else s
        else s)"

definition exit :: "'a kvm_scheme \<Rightarrow> 'a kvm_scheme result" where
  "exit s =
     rbind (myproc s) (\<lambda>(me, s).
     if me = initproc s then Panic ''init exiting''
     else case me of None \<Rightarrow> Fault
     | Some me \<Rightarrow>
       rbind (close_files me 0 NOFILE s) (\<lambda>s.
       rbind (begin_op s) (\<lambda>s.
       case cwd (ptable s ! me) of None \<Rightarrow> Fault
       | Some ip \<Rightarrow>
         rbind (iput ip s) (\<lambda>s.
         rbind (end_op s) (\<lambda>s.
         rbind (acquire PtableLock (upd_proc me (\<lambda>q. q\<lparr>cwd := None\<rparr>) s)) (\<lambda>s.
         let s = wake_proc (parent (ptable s ! me)) s;
             s = reparent me 0 NPROC s
         in sched (upd_proc me (\<lambda>q. q\<lparr>pstate := ZOMBIE\<rparr>) s)))))))"

definition reap :: "nat \<Rightarrow> 'a kvm_scheme \<Rightarrow> (int \<times> 'a kvm_scheme) result" where
  "reap i s =
     (let n = pid (ptable s ! i)
      in rbind (kfree (kstack (ptable s ! i)) s) (\<lambda>s.
         let s = upd_proc i (\<lambda>q. q\<lparr>kstack := 0\<rparr>) s
         in rbind (freevm (pgdir (ptable s ! i)) s) (\<lambda>s.
            let s = upd_proc i (\<lambda>q. q\<lparr>pid := 0, parent := None, pname := (pname q)[0 := 0], killed := False, pstate := UNUSED\<rparr>) s
            in rbind (release PtableLock s) (\<lambda>s. Ret (sint n, s)))))"

text \<open>\<^verbatim>\<open>wait\<close>: one scan of the table, after which it returns or sleeps until a child exits.\<close>

definition wait_child :: "'a kvm_scheme \<Rightarrow> (int \<times> 'a kvm_scheme) result" where
  "wait_child s =
     rbind (curproc s) (\<lambda>(me, s).
     rbind (acquire PtableLock s) (\<lambda>s.
     case find_idx (\<lambda>p. parent p = Some me \<and> pstate p = ZOMBIE) (ptable s) of
       Some i \<Rightarrow> reap i s
     | None \<Rightarrow>
         let havekids = (find_idx (\<lambda>p. parent p = Some me) (ptable s) \<noteq> None)
         in if \<not> havekids \<or> killed (ptable s ! me)
            then rbind (release PtableLock s) (\<lambda>s. Ret (- 1, s))
            else Wait (Sleeps (ChProc me))))"

text \<open>
  One turn of \<^verbatim>\<open>scheduler\<close>'s inner loop with \<^verbatim>\<open>ptable.lock\<close> held: the first runnable process from
  table index \<open>from\<close> on gets the CPU, up to the \<^verbatim>\<open>swtch\<close>; and what it does when it is resumed.
\<close>

definition scheduler_enter :: "nat \<Rightarrow> nat \<Rightarrow> 'a kvm_scheme \<Rightarrow> (nat option \<times> 'a kvm_scheme) result" where
  "scheduler_enter c from s =
     (case find_idx (\<lambda>p. pstate p = RUNNABLE) (drop from (ptable s)) of
        None \<Rightarrow> Ret (None, s)
      | Some k \<Rightarrow>
          let p = from + k; s = s\<lparr>cpus := (cpus s)[c := (cpus s ! c)\<lparr>cpu_proc := Some p\<rparr>]\<rparr>
          in rbind (switchuvm (Some p) s) (\<lambda>s. Ret (Some p, upd_proc p (\<lambda>q. q\<lparr>pstate := RUNNING\<rparr>) s)))"

definition scheduler_back :: "nat \<Rightarrow> 'a kvm_scheme \<Rightarrow> 'a kvm_scheme" where
  "scheduler_back c s = switch_out c (switchkvm s)"

definition forkret :: "'a kvm_scheme \<Rightarrow> 'a kvm_scheme result" where
  "forkret s =
     rbind (release PtableLock s) (\<lambda>s.
     if fork_first s
     then rbind (iinit ROOTDEV (s\<lparr>fork_first := False\<rparr>)) (\<lambda>s. initlog ROOTDEV s)
     else Ret s)"

end
