(* ===== verification/Syscall.thy ===== *)
theory Syscall
  imports Proc
begin

text \<open>
  System calls: fetching arguments from user memory (\<^verbatim>\<open>syscall.c\<close>), the calls on processes
  (\<^verbatim>\<open>sysproc.c\<close>), on files (\<^verbatim>\<open>sysfile.c\<close>), and \<^verbatim>\<open>exec.c\<close>.  User memory is reached through the page table
  in use; an address that is not mapped is the outcome \<open>Fault\<close>.  A string argument is the list of
  its bytes before the NUL.  A call returns \<open>Some\<close> result, or \<open>None\<close> when the process does not
  come back, as from \<^verbatim>\<open>exit\<close>.
\<close>

record ksys = kvm +
  ticks :: uint

subsection \<open>User memory\<close>

definition uload :: "uint \<Rightarrow> 'a kvm_scheme \<Rightarrow> uchar result" where
  "uload va s = (case translate (mem s) (P2V (cr3 s)) va of None \<Rightarrow> Fault | Some (a, _) \<Rightarrow> Ret (mem s a))"

definition uload32 :: "uint \<Rightarrow> 'a kvm_scheme \<Rightarrow> uint result" where
  "uload32 va s =
     rbind (uload va s) (\<lambda>a. rbind (uload (va + 1) s) (\<lambda>b. rbind (uload (va + 2) s) (\<lambda>c.
     rbind (uload (va + 3) s) (\<lambda>d. Ret (un32 a b c d)))))"

text \<open>The kernel runs with \<^verbatim>\<open>CR0_WP\<close>: it, too, may write only to writable pages.\<close>

fun ustore :: "uint \<Rightarrow> uchar list \<Rightarrow> 'a kvm_scheme \<Rightarrow> 'a kvm_scheme result" where
  "ustore va [] s = Ret s"
| "ustore va (x # xs) s =
     (case translate (mem s) (P2V (cr3 s)) va of
        None \<Rightarrow> Fault
      | Some (a, fl) \<Rightarrow> if fl AND PTE_W = 0 then Fault else ustore (va + 1) xs (s\<lparr>mem := (mem s)(a := x)\<rparr>))"

fun uload_bytes :: "uint \<Rightarrow> nat \<Rightarrow> 'a kvm_scheme \<Rightarrow> uchar list result" where
  "uload_bytes va 0 s = Ret []"
| "uload_bytes va (Suc n) s = rbind (uload va s) (\<lambda>x. rbind (uload_bytes (va + 1) n s) (\<lambda>xs. Ret (x # xs)))"

subsection \<open>Arguments\<close>

definition fetchint :: "uint \<Rightarrow> 'a kvm_scheme \<Rightarrow> (uint option \<times> 'a kvm_scheme) result" where
  "fetchint addr s =
     rbind (curproc s) (\<lambda>(p, s).
     if addr \<ge> sz (ptable s ! p) \<or> addr + 4 > sz (ptable s ! p) then Ret (None, s)
     else rbind (uload32 addr s) (\<lambda>v. Ret (Some v, s)))"

fun fetchstr_loop :: "nat \<Rightarrow> uint \<Rightarrow> 'a kvm_scheme \<Rightarrow> uchar list option result" where
  "fetchstr_loop 0 a s = Ret None"
| "fetchstr_loop (Suc n) a s =
     rbind (uload a s) (\<lambda>c. if c = 0 then Ret (Some []) else rbind (fetchstr_loop n (a + 1) s) (\<lambda>r. Ret (map_option ((#) c) r)))"

definition fetchstr :: "uint \<Rightarrow> 'a kvm_scheme \<Rightarrow> (uchar list option \<times> 'a kvm_scheme) result" where
  "fetchstr addr s =
     rbind (curproc s) (\<lambda>(p, s).
     let ep = sz (ptable s ! p)
     in if addr \<ge> ep then Ret (None, s)
        else rbind (fetchstr_loop (unat ep - unat addr) addr s) (\<lambda>r. Ret (r, s)))"

definition argint :: "nat \<Rightarrow> 'a kvm_scheme \<Rightarrow> (uint option \<times> 'a kvm_scheme) result" where
  "argint n s = rbind (curproc s) (\<lambda>(p, s). fetchint (tf_esp (tf (ptable s ! p)) + 4 + 4 * of_nat n) s)"

definition argptr :: "nat \<Rightarrow> int \<Rightarrow> 'a kvm_scheme \<Rightarrow> (uint option \<times> 'a kvm_scheme) result" where
  "argptr n len s =
     rbind (curproc s) (\<lambda>(p, s).
     rbind (argint n s) (\<lambda>(i, s).
     case i of None \<Rightarrow> Ret (None, s)
     | Some i \<Rightarrow>
       if len < 0 \<or> i \<ge> sz (ptable s ! p) \<or> i + of_int len > sz (ptable s ! p) then Ret (None, s)
       else Ret (Some i, s)))"

definition argstr :: "nat \<Rightarrow> 'a kvm_scheme \<Rightarrow> (uchar list option \<times> 'a kvm_scheme) result" where
  "argstr n s =
     rbind (argint n s) (\<lambda>(addr, s). case addr of None \<Rightarrow> Ret (None, s) | Some addr \<Rightarrow> fetchstr addr s)"

subsection \<open>Processes\<close>

definition sys_fork :: "'a kvm_scheme \<Rightarrow> (int option \<times> 'a kvm_scheme) result" where
  "sys_fork s = rbind (fork s) (\<lambda>(r, s). Ret (Some r, s))"

definition sys_exit :: "'a kvm_scheme \<Rightarrow> (int option \<times> 'a kvm_scheme) result" where
  "sys_exit s = rbind (exit s) (\<lambda>s. Ret (None, s))"

definition sys_wait :: "'a kvm_scheme \<Rightarrow> (int option \<times> 'a kvm_scheme) result" where
  "sys_wait s = rbind (wait_child s) (\<lambda>(r, s). Ret (Some r, s))"

definition sys_kill :: "'a kvm_scheme \<Rightarrow> (int option \<times> 'a kvm_scheme) result" where
  "sys_kill s =
     rbind (argint 0 s) (\<lambda>(n, s).
     case n of None \<Rightarrow> Ret (Some (- 1), s) | Some n \<Rightarrow> rbind (kill n s) (\<lambda>(r, s). Ret (Some r, s)))"

definition sys_getpid :: "'a kvm_scheme \<Rightarrow> (int option \<times> 'a kvm_scheme) result" where
  "sys_getpid s = rbind (curproc s) (\<lambda>(p, s). Ret (Some (sint (pid (ptable s ! p))), s))"

definition sys_sbrk :: "'a kvm_scheme \<Rightarrow> (int option \<times> 'a kvm_scheme) result" where
  "sys_sbrk s =
     rbind (argint 0 s) (\<lambda>(n, s).
     case n of None \<Rightarrow> Ret (Some (- 1), s)
     | Some n \<Rightarrow>
       rbind (curproc s) (\<lambda>(p, s).
       let addr = sz (ptable s ! p)
       in rbind (growproc (sint n) s) (\<lambda>(r, s).
          if r < 0 then Ret (Some (- 1), s) else Ret (Some (sint addr), s))))"

text \<open>
  The loop of \<^verbatim>\<open>sys_sleep\<close>, with \<^verbatim>\<open>tickslock\<close> held; a process that sleeps comes back to it with the
  same \<open>ticks0\<close>.
\<close>

definition sys_sleep_loop :: "uint \<Rightarrow> uint \<Rightarrow> 'a ksys_scheme \<Rightarrow> (int option \<times> 'a ksys_scheme) result" where
  "sys_sleep_loop ticks0 n s =
     (if ticks s - ticks0 < n
      then rbind (myproc_killed s) (\<lambda>(k, s).
           if k then rbind (release TicksLock s) (\<lambda>s. Ret (Some (- 1), s))
           else Wait (Sleeps ChTicks))
      else rbind (release TicksLock s) (\<lambda>s. Ret (Some 0, s)))"

definition sys_sleep :: "'a ksys_scheme \<Rightarrow> (int option \<times> 'a ksys_scheme) result" where
  "sys_sleep s =
     rbind (argint 0 s) (\<lambda>(n, s).
     case n of None \<Rightarrow> Ret (Some (- 1), s)
     | Some n \<Rightarrow> rbind (acquire TicksLock s) (\<lambda>s. sys_sleep_loop (ticks s) n s))"

definition sys_uptime :: "'a ksys_scheme \<Rightarrow> (int option \<times> 'a ksys_scheme) result" where
  "sys_uptime s =
     rbind (acquire TicksLock s) (\<lambda>s.
     let xticks = ticks s in rbind (release TicksLock s) (\<lambda>s. Ret (Some (sint xticks), s)))"

subsection \<open>File descriptors\<close>

definition argfd :: "nat \<Rightarrow> 'a kvm_scheme \<Rightarrow> ((nat \<times> nat) option \<times> 'a kvm_scheme) result" where
  "argfd n s =
     rbind (argint n s) (\<lambda>(fd, s).
     case fd of None \<Rightarrow> Ret (None, s)
     | Some fd \<Rightarrow>
       if sint fd < 0 \<or> sint fd \<ge> int NOFILE then Ret (None, s)
       else rbind (curproc s) (\<lambda>(p, s).
         case ofile (ptable s ! p) ! unat fd of None \<Rightarrow> Ret (None, s) | Some f \<Rightarrow> Ret (Some (unat fd, f), s)))"

definition fdalloc :: "nat \<Rightarrow> 'a kvm_scheme \<Rightarrow> (nat option \<times> 'a kvm_scheme) result" where
  "fdalloc f s =
     rbind (curproc s) (\<lambda>(p, s).
     case find_idx (\<lambda>x. x = None) (take NOFILE (ofile (ptable s ! p))) of
       None \<Rightarrow> Ret (None, s)
     | Some fd \<Rightarrow> Ret (Some fd, upd_proc p (\<lambda>q. q\<lparr>ofile := (ofile q)[fd := Some f]\<rparr>) s))"

definition sys_dup :: "'a kvm_scheme \<Rightarrow> (int option \<times> 'a kvm_scheme) result" where
  "sys_dup s =
     rbind (argfd 0 s) (\<lambda>(r, s).
     case r of None \<Rightarrow> Ret (Some (- 1), s)
     | Some (_, f) \<Rightarrow>
       rbind (fdalloc f s) (\<lambda>(fd, s).
       case fd of None \<Rightarrow> Ret (Some (- 1), s)
       | Some fd \<Rightarrow> rbind (filedup f s) (\<lambda>(_, s). Ret (Some (int fd), s))))"

text \<open>\<^verbatim>\<open>argfd(0, 0, &f) < 0 || argint(2, &n) < 0 || argptr(1, &p, n) < 0\<close>.\<close>

definition rw_args :: "'a kvm_scheme \<Rightarrow> ((nat \<times> int \<times> uint) option \<times> 'a kvm_scheme) result" where
  "rw_args s =
     rbind (argfd 0 s) (\<lambda>(r, s).
     case r of None \<Rightarrow> Ret (None, s)
     | Some (_, f) \<Rightarrow>
       rbind (argint 2 s) (\<lambda>(n, s).
       case n of None \<Rightarrow> Ret (None, s)
       | Some n \<Rightarrow> rbind (argptr 1 (sint n) s) (\<lambda>(p, s). Ret (map_option (\<lambda>p. (f, sint n, p)) p, s))))"

definition sys_read :: "'a kvm_scheme devsw list \<Rightarrow> 'a kvm_scheme \<Rightarrow> (int option \<times> 'a kvm_scheme) result" where
  "sys_read dv s =
     rbind (rw_args s) (\<lambda>(r, s).
     case r of None \<Rightarrow> Ret (Some (- 1), s)
     | Some (f, n, p) \<Rightarrow>
       rbind (fileread dv f n s) (\<lambda>(r, xs, s). rbind (ustore p xs s) (\<lambda>s. Ret (Some r, s))))"

definition sys_write :: "'a kvm_scheme devsw list \<Rightarrow> 'a kvm_scheme \<Rightarrow> (int option \<times> 'a kvm_scheme) result" where
  "sys_write dv s =
     rbind (rw_args s) (\<lambda>(r, s).
     case r of None \<Rightarrow> Ret (Some (- 1), s)
     | Some (f, n, p) \<Rightarrow>
       rbind (uload_bytes p (nat n) s) (\<lambda>xs. rbind (filewrite dv f xs s) (\<lambda>(r, s). Ret (Some r, s))))"

definition sys_close :: "'a kvm_scheme \<Rightarrow> (int option \<times> 'a kvm_scheme) result" where
  "sys_close s =
     rbind (argfd 0 s) (\<lambda>(r, s).
     case r of None \<Rightarrow> Ret (Some (- 1), s)
     | Some (fd, f) \<Rightarrow>
       rbind (curproc s) (\<lambda>(p, s).
       rbind (fileclose f (upd_proc p (\<lambda>q. q\<lparr>ofile := (ofile q)[fd := None]\<rparr>) s)) (\<lambda>s. Ret (Some 0, s))))"

text \<open>Storing the fields of \<^verbatim>\<open>struct stat\<close>, whose size is 20.\<close>

definition store_stat :: "uint \<Rightarrow> stat \<Rightarrow> 'a kvm_scheme \<Rightarrow> 'a kvm_scheme result" where
  "store_stat p st s =
     rbind (ustore p (le16 (st_type st)) s) (\<lambda>s.
     rbind (ustore (p + 4) (le32 (st_dev st)) s) (\<lambda>s.
     rbind (ustore (p + 8) (le32 (st_ino st)) s) (\<lambda>s.
     rbind (ustore (p + 12) (le16 (st_nlink st)) s) (\<lambda>s.
     ustore (p + 16) (le32 (st_size st)) s))))"

definition sys_fstat :: "'a kvm_scheme \<Rightarrow> (int option \<times> 'a kvm_scheme) result" where
  "sys_fstat s =
     rbind (argfd 0 s) (\<lambda>(r, s).
     case r of None \<Rightarrow> Ret (Some (- 1), s)
     | Some (_, f) \<Rightarrow>
       rbind (argptr 1 20 s) (\<lambda>(p, s).
       case p of None \<Rightarrow> Ret (Some (- 1), s)
       | Some p \<Rightarrow>
         rbind (filestat f s) (\<lambda>(st, s).
         case st of None \<Rightarrow> Ret (Some (- 1), s)
         | Some st \<Rightarrow> rbind (store_stat p st s) (\<lambda>s. Ret (Some 0, s)))))"

end
