(* ===== verification/Sysfile.thy ===== *)
theory Sysfile
  imports Syscall
begin

text \<open>
  The system calls that change the tree of files (\<^verbatim>\<open>sysfile.c\<close>), \<^verbatim>\<open>exec.c\<close> with the file format of \<^verbatim>\<open>elf.h\<close>, and
  the dispatch of \<^verbatim>\<open>syscall.c\<close>.
\<close>

abbreviation fails :: "'s \<Rightarrow> (int option \<times> 's) result" where
  "fails s \<equiv> Ret (Some (- 1), s)"

text \<open>\<^verbatim>\<open>end_op(); return -1;\<close>\<close>

definition end_fail :: "'a kvm_scheme \<Rightarrow> (int option \<times> 'a kvm_scheme) result" where
  "end_fail s = rbind (end_op s) (\<lambda>s. fails s)"

definition dot :: "uchar list" where "dot = [0x2E]"
definition dotdot :: "uchar list" where "dotdot = [0x2E, 0x2E]"

subsection \<open>Links\<close>

text \<open>The label \<^verbatim>\<open>bad\<close> of \<^verbatim>\<open>sys_link\<close>.\<close>

definition link_bad :: "nat \<Rightarrow> 'a kvm_scheme \<Rightarrow> (int option \<times> 'a kvm_scheme) result" where
  "link_bad ip s =
     rbind (ilock (Some ip) s) (\<lambda>s.
     rbind (iupdate ip (upd_inode ip (\<lambda>x. x\<lparr>i_nlink := i_nlink x - 1\<rparr>) s)) (\<lambda>s.
     rbind (iunlockput ip s) (\<lambda>s. end_fail s)))"

definition sys_link :: "'a kvm_scheme devsw list \<Rightarrow> 'a kvm_scheme \<Rightarrow> (int option \<times> 'a kvm_scheme) result" where
  "sys_link dv s =
     rbind (argstr 0 s) (\<lambda>(old, s).
     case old of None \<Rightarrow> fails s
     | Some old \<Rightarrow>
     rbind (argstr 1 s) (\<lambda>(new, s).
     case new of None \<Rightarrow> fails s
     | Some new \<Rightarrow>
     rbind (begin_op s) (\<lambda>s.
     rbind (namei dv old s) (\<lambda>(ip, s).
     case ip of None \<Rightarrow> end_fail s
     | Some ip \<Rightarrow>
     rbind (ilock (Some ip) s) (\<lambda>s.
     if i_type (icache s ! ip) = T_DIR then rbind (iunlockput ip s) (\<lambda>s. end_fail s)
     else
     rbind (iupdate ip (upd_inode ip (\<lambda>x. x\<lparr>i_nlink := i_nlink x + 1\<rparr>) s)) (\<lambda>s.
     rbind (iunlock (Some ip) s) (\<lambda>s.
     rbind (nameiparent dv new s) (\<lambda>(dp, name, s).
     case dp of None \<Rightarrow> link_bad ip s
     | Some dp \<Rightarrow>
     rbind (ilock (Some dp) s) (\<lambda>s.
     rbind (if i_dev (icache s ! dp) \<noteq> i_dev (icache s ! ip) then Ret (- 1, s)
            else dirlink dv dp name (i_inum (icache s ! ip)) s) (\<lambda>(r, s).
     rbind (iunlockput dp s) (\<lambda>s.
     if r < 0 then link_bad ip s
     else rbind (iput ip s) (\<lambda>s. rbind (end_op s) (\<lambda>s. Ret (Some 0, s))))))))))))))"

function isdirempty_loop :: "'a kfs_scheme devsw list \<Rightarrow> nat \<Rightarrow> nat \<Rightarrow> nat \<Rightarrow> 'a kfs_scheme \<Rightarrow> (bool \<times> 'a kfs_scheme) result" where
  "isdirempty_loop dv dp fsz off s =
     (if off < fsz
      then rbind (readi dv dp (of_nat off) 16 s) (\<lambda>(r, de, s).
           if r \<noteq> 16 then Panic ''isdirempty: readi''
           else if d_inum (dirent_decode de) \<noteq> 0 then Ret (False, s)
           else isdirempty_loop dv dp fsz (off + 16) s)
      else Ret (True, s))"
  by pat_completeness auto
termination by (relation "measure (\<lambda>(dv, dp, fsz, off, s). fsz - off)") auto

declare isdirempty_loop.simps [simp del]

definition isdirempty :: "'a kfs_scheme devsw list \<Rightarrow> nat \<Rightarrow> 'a kfs_scheme \<Rightarrow> (bool \<times> 'a kfs_scheme) result" where
  "isdirempty dv dp s = isdirempty_loop dv dp (unat (i_size (icache s ! dp))) (2 * 16) s"

text \<open>The label \<^verbatim>\<open>bad\<close> of \<^verbatim>\<open>sys_unlink\<close>.\<close>

definition unlink_bad :: "nat \<Rightarrow> 'a kvm_scheme \<Rightarrow> (int option \<times> 'a kvm_scheme) result" where
  "unlink_bad dp s = rbind (iunlockput dp s) (\<lambda>s. end_fail s)"

definition sys_unlink :: "'a kvm_scheme devsw list \<Rightarrow> 'a kvm_scheme \<Rightarrow> (int option \<times> 'a kvm_scheme) result" where
  "sys_unlink dv s =
     rbind (argstr 0 s) (\<lambda>(path, s).
     case path of None \<Rightarrow> fails s
     | Some path \<Rightarrow>
     rbind (begin_op s) (\<lambda>s.
     rbind (nameiparent dv path s) (\<lambda>(dp, name, s).
     case dp of None \<Rightarrow> end_fail s
     | Some dp \<Rightarrow>
     rbind (ilock (Some dp) s) (\<lambda>s.
     if namecmp name dot = 0 \<or> namecmp name dotdot = 0 then unlink_bad dp s
     else
     rbind (dirlookup dv dp name s) (\<lambda>(r, s).
     case r of None \<Rightarrow> unlink_bad dp s
     | Some (ip, off) \<Rightarrow>
     rbind (ilock (Some ip) s) (\<lambda>s.
     if sint (i_nlink (icache s ! ip)) < 1 then Panic ''unlink: nlink < 1''
     else
     rbind (if i_type (icache s ! ip) = T_DIR then isdirempty dv ip s else Ret (True, s)) (\<lambda>(empty, s).
     if \<not> empty then rbind (iunlockput ip s) (\<lambda>s. unlink_bad dp s)
     else
     rbind (writei dv dp (replicate 16 0) (of_nat off) s) (\<lambda>(r, s).
     if r \<noteq> 16 then Panic ''unlink: writei''
     else
     rbind (if i_type (icache s ! ip) = T_DIR
            then iupdate dp (upd_inode dp (\<lambda>x. x\<lparr>i_nlink := i_nlink x - 1\<rparr>) s) else Ret s) (\<lambda>s.
     rbind (iunlockput dp s) (\<lambda>s.
     rbind (iupdate ip (upd_inode ip (\<lambda>x. x\<lparr>i_nlink := i_nlink x - 1\<rparr>) s)) (\<lambda>s.
     rbind (iunlockput ip s) (\<lambda>s.
     rbind (end_op s) (\<lambda>s. Ret (Some 0, s))))))))))))))"

subsection \<open>Creating and opening\<close>

definition create :: "'a kfs_scheme devsw list \<Rightarrow> uchar list \<Rightarrow> ushort \<Rightarrow> ushort \<Rightarrow> ushort \<Rightarrow> 'a kfs_scheme \<Rightarrow>
    (nat option \<times> 'a kfs_scheme) result" where
  "create dv path ty major minor s =
     rbind (nameiparent dv path s) (\<lambda>(dp, name, s).
     case dp of None \<Rightarrow> Ret (None, s)
     | Some dp \<Rightarrow>
     rbind (ilock (Some dp) s) (\<lambda>s.
     rbind (dirlookup dv dp name s) (\<lambda>(r, s).
     case r of
       Some (ip, _) \<Rightarrow>
         rbind (iunlockput dp s) (\<lambda>s.
         rbind (ilock (Some ip) s) (\<lambda>s.
         if ty = T_FILE \<and> i_type (icache s ! ip) = T_FILE then Ret (Some ip, s)
         else rbind (iunlockput ip s) (\<lambda>s. Ret (None, s))))
     | None \<Rightarrow>
         rbind (ialloc (i_dev (icache s ! dp)) ty s) (\<lambda>(ip, s).
         rbind (ilock (Some ip) s) (\<lambda>s.
         rbind (iupdate ip (upd_inode ip (\<lambda>x. x\<lparr>i_major := major, i_minor := minor, i_nlink := 1\<rparr>) s)) (\<lambda>s.
         rbind (if ty = T_DIR
                then rbind (iupdate dp (upd_inode dp (\<lambda>x. x\<lparr>i_nlink := i_nlink x + 1\<rparr>) s)) (\<lambda>s.
                     rbind (dirlink dv ip dot (i_inum (icache s ! ip)) s) (\<lambda>(r, s).
                     if r < 0 then Panic ''create dots''
                     else rbind (dirlink dv ip dotdot (i_inum (icache s ! dp)) s) (\<lambda>(r, s).
                       if r < 0 then Panic ''create dots'' else Ret s)))
                else Ret s) (\<lambda>s.
         rbind (dirlink dv dp name (i_inum (icache s ! ip)) s) (\<lambda>(r, s).
         if r < 0 then Panic ''create: dirlink''
         else rbind (iunlockput dp s) (\<lambda>s. Ret (Some ip, s))))))))))"

definition O_RDONLY :: uint where "O_RDONLY = 0"
definition O_WRONLY :: uint where "O_WRONLY = 1"
definition O_RDWR :: uint where "O_RDWR = 2"
definition O_CREATE :: uint where "O_CREATE = 0x200"

text \<open>The first half of \<^verbatim>\<open>sys_open\<close>: the locked inode, or nothing after the transaction has ended.\<close>

definition open_inode :: "'a kvm_scheme devsw list \<Rightarrow> uchar list \<Rightarrow> uint \<Rightarrow> 'a kvm_scheme \<Rightarrow> (nat option \<times> 'a kvm_scheme) result" where
  "open_inode dv path omode s =
     (if omode AND O_CREATE \<noteq> 0
      then rbind (create dv path T_FILE 0 0 s) (\<lambda>(ip, s).
           case ip of None \<Rightarrow> rbind (end_op s) (\<lambda>s. Ret (None, s)) | Some ip \<Rightarrow> Ret (Some ip, s))
      else rbind (namei dv path s) (\<lambda>(ip, s).
           case ip of None \<Rightarrow> rbind (end_op s) (\<lambda>s. Ret (None, s))
           | Some ip \<Rightarrow>
             rbind (ilock (Some ip) s) (\<lambda>s.
             if i_type (icache s ! ip) = T_DIR \<and> omode \<noteq> O_RDONLY
             then rbind (iunlockput ip s) (\<lambda>s. rbind (end_op s) (\<lambda>s. Ret (None, s)))
             else Ret (Some ip, s))))"

definition sys_open :: "'a kvm_scheme devsw list \<Rightarrow> 'a kvm_scheme \<Rightarrow> (int option \<times> 'a kvm_scheme) result" where
  "sys_open dv s =
     rbind (argstr 0 s) (\<lambda>(path, s).
     case path of None \<Rightarrow> fails s
     | Some path \<Rightarrow>
     rbind (argint 1 s) (\<lambda>(omode, s).
     case omode of None \<Rightarrow> fails s
     | Some omode \<Rightarrow>
     rbind (begin_op s) (\<lambda>s.
     rbind (open_inode dv path omode s) (\<lambda>(ip, s).
     case ip of None \<Rightarrow> fails s
     | Some ip \<Rightarrow>
     rbind (filealloc s) (\<lambda>(f, s).
     case f of None \<Rightarrow> rbind (iunlockput ip s) (\<lambda>s. end_fail s)
     | Some f \<Rightarrow>
     rbind (fdalloc f s) (\<lambda>(fd, s).
     case fd of None \<Rightarrow> rbind (fileclose f s) (\<lambda>s. rbind (iunlockput ip s) (\<lambda>s. end_fail s))
     | Some fd \<Rightarrow>
     rbind (iunlock (Some ip) s) (\<lambda>s.
     rbind (end_op s) (\<lambda>s.
     Ret (Some (int fd), upd_file f (\<lambda>x. x\<lparr>ftype := FD_INODE, fip := ip, foff := 0,
       readable := (omode AND O_WRONLY = 0),
       writable := (omode AND O_WRONLY \<noteq> 0 \<or> omode AND O_RDWR \<noteq> 0)\<rparr>) s)))))))))"

text \<open>\<^verbatim>\<open>iunlockput(ip); end_op(); return 0;\<close> after a successful \<^verbatim>\<open>create\<close>, else \<^verbatim>\<open>end_op(); return -1;\<close>.\<close>

definition made :: "(nat option \<times> 'a kvm_scheme) result \<Rightarrow> (int option \<times> 'a kvm_scheme) result" where
  "made r =
     rbind r (\<lambda>(ip, s).
     case ip of None \<Rightarrow> end_fail s
     | Some ip \<Rightarrow> rbind (iunlockput ip s) (\<lambda>s. rbind (end_op s) (\<lambda>s. Ret (Some 0, s))))"

definition sys_mkdir :: "'a kvm_scheme devsw list \<Rightarrow> 'a kvm_scheme \<Rightarrow> (int option \<times> 'a kvm_scheme) result" where
  "sys_mkdir dv s =
     rbind (begin_op s) (\<lambda>s.
     rbind (argstr 0 s) (\<lambda>(path, s).
     case path of None \<Rightarrow> end_fail s | Some path \<Rightarrow> made (create dv path T_DIR 0 0 s)))"

definition sys_mknod :: "'a kvm_scheme devsw list \<Rightarrow> 'a kvm_scheme \<Rightarrow> (int option \<times> 'a kvm_scheme) result" where
  "sys_mknod dv s =
     rbind (begin_op s) (\<lambda>s.
     rbind (argstr 0 s) (\<lambda>(path, s).
     case path of None \<Rightarrow> end_fail s
     | Some path \<Rightarrow>
     rbind (argint 1 s) (\<lambda>(major, s).
     case major of None \<Rightarrow> end_fail s
     | Some major \<Rightarrow>
     rbind (argint 2 s) (\<lambda>(minor, s).
     case minor of None \<Rightarrow> end_fail s
     | Some minor \<Rightarrow> made (create dv path T_DEV (ucast major) (ucast minor) s)))))"

definition sys_chdir :: "'a kvm_scheme devsw list \<Rightarrow> 'a kvm_scheme \<Rightarrow> (int option \<times> 'a kvm_scheme) result" where
  "sys_chdir dv s =
     rbind (curproc s) (\<lambda>(p, s).
     rbind (begin_op s) (\<lambda>s.
     rbind (argstr 0 s) (\<lambda>(path, s).
     case path of None \<Rightarrow> end_fail s
     | Some path \<Rightarrow>
     rbind (namei dv path s) (\<lambda>(ip, s).
     case ip of None \<Rightarrow> end_fail s
     | Some ip \<Rightarrow>
     rbind (ilock (Some ip) s) (\<lambda>s.
     if i_type (icache s ! ip) \<noteq> T_DIR then rbind (iunlockput ip s) (\<lambda>s. end_fail s)
     else
     rbind (iunlock (Some ip) s) (\<lambda>s.
     case cwd (ptable s ! p) of None \<Rightarrow> Fault
     | Some old \<Rightarrow>
     rbind (iput old s) (\<lambda>s.
     rbind (end_op s) (\<lambda>s.
     Ret (Some 0, upd_proc p (\<lambda>q. q\<lparr>cwd := Some ip\<rparr>) s)))))))))"

definition sys_pipe :: "'a kvm_scheme \<Rightarrow> (int option \<times> 'a kvm_scheme) result" where
  "sys_pipe s =
     rbind (argptr 0 (2 * 4) s) (\<lambda>(fd, s).
     case fd of None \<Rightarrow> fails s
     | Some fd \<Rightarrow>
     rbind (pipealloc s) (\<lambda>(r, s).
     case r of None \<Rightarrow> fails s
     | Some (f0, f1) \<Rightarrow>
     rbind (fdalloc f0 s) (\<lambda>(fd0, s).
     case fd0 of None \<Rightarrow> rbind (fileclose f0 s) (\<lambda>s. rbind (fileclose f1 s) (\<lambda>s. fails s))
     | Some fd0 \<Rightarrow>
     rbind (fdalloc f1 s) (\<lambda>(fd1, s).
     case fd1 of
       None \<Rightarrow>
         rbind (curproc s) (\<lambda>(p, s).
         rbind (fileclose f0 (upd_proc p (\<lambda>q. q\<lparr>ofile := (ofile q)[fd0 := None]\<rparr>) s)) (\<lambda>s.
         rbind (fileclose f1 s) (\<lambda>s. fails s)))
     | Some fd1 \<Rightarrow>
         rbind (ustore fd (le32 (of_nat fd0)) s) (\<lambda>s.
         rbind (ustore (fd + 4) (le32 (of_nat fd1)) s) (\<lambda>s. Ret (Some 0, s)))))))"

subsection \<open>Executing a program\<close>

definition ELF_MAGIC :: uint where "ELF_MAGIC = 0x464C457F"
definition ELF_PROG_LOAD :: uint where "ELF_PROG_LOAD = 1"

record elfhdr =
  e_magic :: uint
  e_elf :: "uchar list"
  e_type :: ushort
  e_machine :: ushort
  e_version :: uint
  e_entry :: uint
  e_phoff :: uint
  e_shoff :: uint
  e_flags :: uint
  e_ehsize :: ushort
  e_phentsize :: ushort
  e_phnum :: ushort
  e_shentsize :: ushort
  e_shnum :: ushort
  e_shstrndx :: ushort

record proghdr =
  p_type :: uint
  p_off :: uint
  p_vaddr :: uint
  p_paddr :: uint
  p_filesz :: uint
  p_memsz :: uint
  p_flags :: uint
  p_align :: uint

definition elf_decode :: "uchar list \<Rightarrow> elfhdr" where
  "elf_decode d = \<lparr>e_magic = get32 d 0, e_elf = take 12 (drop 4 d), e_type = get16 d 16, e_machine = get16 d 18,
     e_version = get32 d 20, e_entry = get32 d 24, e_phoff = get32 d 28, e_shoff = get32 d 32, e_flags = get32 d 36,
     e_ehsize = get16 d 40, e_phentsize = get16 d 42, e_phnum = get16 d 44, e_shentsize = get16 d 46,
     e_shnum = get16 d 48, e_shstrndx = get16 d 50\<rparr>"

definition ph_decode :: "uchar list \<Rightarrow> proghdr" where
  "ph_decode d = \<lparr>p_type = get32 d 0, p_off = get32 d 4, p_vaddr = get32 d 8, p_paddr = get32 d 12,
     p_filesz = get32 d 16, p_memsz = get32 d 20, p_flags = get32 d 24, p_align = get32 d 28\<rparr>"

text \<open>The label \<^verbatim>\<open>bad\<close> of \<^verbatim>\<open>exec\<close>; \<open>ip\<close> is null once the file has been read.\<close>

definition exec_bad :: "uint \<Rightarrow> nat option \<Rightarrow> 'a kvm_scheme \<Rightarrow> (int \<times> 'a kvm_scheme) result" where
  "exec_bad pd ip s =
     rbind (if pd \<noteq> 0 then freevm pd s else Ret s) (\<lambda>s.
     rbind (case ip of None \<Rightarrow> Ret s | Some ip \<Rightarrow> rbind (iunlockput ip s) (\<lambda>s. end_op s)) (\<lambda>s.
     Ret (- 1, s)))"

text \<open>The loop over the program headers: the new size, or \<open>None\<close> for \<^verbatim>\<open>goto bad\<close>.\<close>

fun exec_load :: "'a kvm_scheme devsw list \<Rightarrow> uint \<Rightarrow> nat \<Rightarrow> nat \<Rightarrow> uint \<Rightarrow> uint \<Rightarrow> 'a kvm_scheme \<Rightarrow>
    (uint option \<times> 'a kvm_scheme) result" where
  "exec_load dv pd ip 0 off n s = Ret (Some n, s)"
| "exec_load dv pd ip (Suc k) off n s =
     rbind (readi dv ip off 32 s) (\<lambda>(r, xs, s).
     if r \<noteq> 32 then Ret (None, s)
     else let ph = ph_decode xs
       in if p_type ph \<noteq> ELF_PROG_LOAD then exec_load dv pd ip k (off + 32) n s
          else if p_memsz ph < p_filesz ph then Ret (None, s)
          else if p_vaddr ph + p_memsz ph < p_vaddr ph then Ret (None, s)
          else rbind (allocuvm pd n (p_vaddr ph + p_memsz ph) s) (\<lambda>(n, s).
            if n = 0 then Ret (None, s)
            else if unat (p_vaddr ph) mod unat PGSIZE \<noteq> 0 then Ret (None, s)
            else rbind (loaduvm dv pd (p_vaddr ph) ip (p_off ph) (p_filesz ph) s) (\<lambda>(r, s).
              if r < 0 then Ret (None, s) else exec_load dv pd ip k (off + 32) n s)))"

text \<open>
  Pushing the argument strings: the stack pointer and the addresses of the strings, or \<open>None\<close> for
  \<^verbatim>\<open>goto bad\<close>.
\<close>

fun push_args :: "uint \<Rightarrow> nat \<Rightarrow> uchar list list \<Rightarrow> uint \<Rightarrow> 'a kmem_scheme \<Rightarrow> ((uint \<times> uint list) option \<times> 'a kmem_scheme) result" where
  "push_args pd argc [] sp s = Ret (Some (sp, []), s)"
| "push_args pd argc (x # xs) sp s =
     (if argc \<ge> MAXARG then Ret (None, s)
      else let sp = (sp - (of_nat (length x) + 1)) AND NOT 3
        in rbind (copyout pd sp (x @ [0]) s) (\<lambda>(r, s).
           if r < 0 then Ret (None, s)
           else rbind (push_args pd (Suc argc) xs sp s) (\<lambda>(q, s). Ret (map_option (\<lambda>(e, ps). (e, sp # ps)) q, s))))"

definition base_name :: "uchar list \<Rightarrow> uchar list" where
  "base_name path = rev (takeWhile (\<lambda>c. c \<noteq> slash) (rev path))"

text \<open>The second half of \<^verbatim>\<open>exec\<close>: the stack, the arguments, and the commit to the new image.\<close>

definition exec_stack :: "nat \<Rightarrow> uint \<Rightarrow> elfhdr \<Rightarrow> uchar list \<Rightarrow> uchar list list \<Rightarrow> uint \<Rightarrow> 'a kvm_scheme \<Rightarrow>
    (int \<times> 'a kvm_scheme) result" where
  "exec_stack me pd elf path argv n s =
     (let n = PGROUNDUP n
      in rbind (allocuvm pd n (n + 2 * PGSIZE) s) (\<lambda>(n, s).
         if n = 0 then exec_bad pd None s
         else rbind (clearpteu pd (n - 2 * PGSIZE) s) (\<lambda>s.
           rbind (push_args pd 0 argv n s) (\<lambda>(r, s).
           case r of None \<Rightarrow> exec_bad pd None s
           | Some (sp, ps) \<Rightarrow>
             let argc = length argv;
                 ustack = [0xFFFFFFFF, of_nat argc, sp - (of_nat argc + 1) * 4] @ ps @ [0];
                 sp = sp - (3 + of_nat argc + 1) * 4
             in rbind (copyout pd sp (concat (map le32 ustack)) s) (\<lambda>(r, s).
                if r < 0 then exec_bad pd None s
                else let oldpgdir = pgdir (ptable s ! me);
                         s = upd_proc me (\<lambda>q. q\<lparr>pname := copy_name (pname q) (base_name path), pgdir := pd, sz := n,
                               tf := (tf q)\<lparr>tf_eip := e_entry elf, tf_esp := sp\<rparr>\<rparr>) s
                  in rbind (switchuvm (Some me) s) (\<lambda>s.
                     rbind (freevm oldpgdir s) (\<lambda>s. Ret (0, s))))))))"

definition exec :: "'a kvm_scheme devsw list \<Rightarrow> uchar list \<Rightarrow> uchar list list \<Rightarrow> 'a kvm_scheme \<Rightarrow> (int \<times> 'a kvm_scheme) result" where
  "exec dv path argv s =
     rbind (curproc s) (\<lambda>(me, s).
     rbind (begin_op s) (\<lambda>s.
     rbind (namei dv path s) (\<lambda>(ip, s).
     case ip of None \<Rightarrow> rbind (end_op s) (\<lambda>s. Ret (- 1, s))
     | Some ip \<Rightarrow>
     rbind (ilock (Some ip) s) (\<lambda>s.
     rbind (readi dv ip 0 52 s) (\<lambda>(r, xs, s).
     let elf = elf_decode xs
     in if r \<noteq> 52 then exec_bad 0 (Some ip) s
        else if e_magic elf \<noteq> ELF_MAGIC then exec_bad 0 (Some ip) s
        else rbind (setupkvm (k_data s) s) (\<lambda>(pd, s).
          if pd = 0 then exec_bad 0 (Some ip) s
          else rbind (exec_load dv pd ip (unat (e_phnum elf)) (e_phoff elf) 0 s) (\<lambda>(n, s).
            case n of None \<Rightarrow> exec_bad pd (Some ip) s
            | Some n \<Rightarrow>
              rbind (iunlockput ip s) (\<lambda>s.
              rbind (end_op s) (\<lambda>s. exec_stack me pd elf path argv n s)))))))))"

text \<open>The loop of \<^verbatim>\<open>sys_exec\<close> that fetches the argument strings; \<open>k\<close> places of \<^verbatim>\<open>argv\<close> are left.\<close>

fun fetch_args :: "nat \<Rightarrow> uint \<Rightarrow> 'a kvm_scheme \<Rightarrow> (uchar list list option \<times> 'a kvm_scheme) result" where
  "fetch_args 0 a s = Ret (None, s)"
| "fetch_args (Suc k) a s =
     rbind (fetchint a s) (\<lambda>(u, s).
     case u of None \<Rightarrow> Ret (None, s)
     | Some u \<Rightarrow>
       if u = 0 then Ret (Some [], s)
       else rbind (fetchstr u s) (\<lambda>(x, s).
         case x of None \<Rightarrow> Ret (None, s)
         | Some x \<Rightarrow> rbind (fetch_args k (a + 4) s) (\<lambda>(r, s). Ret (map_option ((#) x) r, s))))"

definition sys_exec :: "'a kvm_scheme devsw list \<Rightarrow> 'a kvm_scheme \<Rightarrow> (int option \<times> 'a kvm_scheme) result" where
  "sys_exec dv s =
     rbind (argstr 0 s) (\<lambda>(path, s).
     case path of None \<Rightarrow> fails s
     | Some path \<Rightarrow>
     rbind (argint 1 s) (\<lambda>(uargv, s).
     case uargv of None \<Rightarrow> fails s
     | Some uargv \<Rightarrow>
     rbind (fetch_args MAXARG uargv s) (\<lambda>(argv, s).
     case argv of None \<Rightarrow> fails s
     | Some argv \<Rightarrow> rbind (exec dv path argv s) (\<lambda>(r, s). Ret (Some r, s)))))"

subsection \<open>Dispatch\<close>

text \<open>The table \<^verbatim>\<open>syscalls\<close> by the numbers of \<^verbatim>\<open>syscall.h\<close>.\<close>

definition syscalls :: "'a ksys_scheme devsw list \<Rightarrow> ('a ksys_scheme \<Rightarrow> (int option \<times> 'a ksys_scheme) result) option list" where
  "syscalls dv =
     [None,
      Some sys_fork, Some sys_exit, Some sys_wait, Some sys_pipe, Some (sys_read dv), Some sys_kill,
      Some (sys_exec dv), Some sys_fstat, Some (sys_chdir dv), Some sys_dup, Some sys_getpid,
      Some sys_sbrk, Some sys_sleep, Some sys_uptime, Some (sys_open dv), Some (sys_write dv),
      Some (sys_mknod dv), Some (sys_unlink dv), Some (sys_link dv), Some (sys_mkdir dv), Some sys_close]"

text \<open>The result tells whether the process comes back from the call.\<close>

definition syscall :: "'a ksys_scheme devsw list \<Rightarrow> 'a ksys_scheme \<Rightarrow> (bool \<times> 'a ksys_scheme) result" where
  "syscall dv s =
     rbind (curproc s) (\<lambda>(p, s).
     let num = sint (tf_eax (tf (ptable s ! p)));
         set_eax = (\<lambda>v s. upd_proc p (\<lambda>q. q\<lparr>tf := (tf q)\<lparr>tf_eax := v\<rparr>\<rparr>) s)
     in case (if num > 0 \<and> num < int (length (syscalls dv)) then syscalls dv ! nat num else None) of
          Some f \<Rightarrow> rbind (f s) (\<lambda>(r, s). case r of None \<Rightarrow> Ret (False, s) | Some r \<Rightarrow> Ret (True, set_eax (of_int r) s))
        | None \<Rightarrow> Ret (True, set_eax (- 1) s))"

end
