(* ===== verification/Grep.thy ===== *)
theory Grep
  imports Prelude
begin

text \<open>
  The pattern matcher and the line filter of \<^verbatim>\<open>grep.c\<close>.  A C string is the list of its
  characters before the NUL.  The matcher is compared with a reference meaning of patterns: a
  pattern is a sequence of items, and a text matches if some part of it is accepted by them.
\<close>

subsection \<open>The matcher\<close>

function (sequential) matchhere :: "string \<Rightarrow> string \<Rightarrow> bool"
  and matchstar :: "char \<Rightarrow> string \<Rightarrow> string \<Rightarrow> bool" where
  "matchhere [] text = True"
| "matchhere (c # re) text =
     (if re \<noteq> [] \<and> hd re = CHR ''*'' then matchstar c (tl re) text
      else if c = CHR ''$'' \<and> re = [] then text = []
      else if text \<noteq> [] \<and> (c = CHR ''.'' \<or> c = hd text) then matchhere re (tl text)
      else False)"
| "matchstar c re text =
     (if matchhere re text then True
      else if text \<noteq> [] \<and> (hd text = c \<or> c = CHR ''.'') then matchstar c re (tl text)
      else False)"
  by pat_completeness auto
termination
  by (relation "measures [\<lambda>x. case x of Inl (re, text) \<Rightarrow> length re | Inr (c, re, text) \<Rightarrow> Suc (length re),
        \<lambda>x. case x of Inl (re, text) \<Rightarrow> 0 | Inr (c, re, text) \<Rightarrow> length text]") auto

declare matchhere.simps [simp del] matchstar.simps [simp del]

fun match_from :: "string \<Rightarrow> string \<Rightarrow> bool" where
  "match_from re text =
     (if matchhere re text then True else case text of [] \<Rightarrow> False | t # text \<Rightarrow> match_from re text)"

declare match_from.simps [simp del]

definition match :: "string \<Rightarrow> string \<Rightarrow> bool" where
  "match re text =
     (if re \<noteq> [] \<and> hd re = CHR ''^'' then matchhere (tl re) text else match_from re text)"

subsection \<open>The meaning of patterns\<close>

datatype atom = Dot | Chr char
datatype item = One atom | Many atom | EndText

definition atom_of :: "char \<Rightarrow> atom" where
  "atom_of c = (if c = CHR ''.'' then Dot else Chr c)"

fun atom_ok :: "atom \<Rightarrow> char \<Rightarrow> bool" where
  "atom_ok Dot t \<longleftrightarrow> True"
| "atom_ok (Chr c) t \<longleftrightarrow> c = t"

fun items :: "string \<Rightarrow> item list" where
  "items [] = []"
| "items [c] = (if c = CHR ''$'' then [EndText] else [One (atom_of c)])"
| "items (c # d # re) = (if d = CHR ''*'' then Many (atom_of c) # items re else One (atom_of c) # items (d # re))"

text \<open>\<open>accepts is mid post\<close>: the items accept \<open>mid\<close> where \<open>post\<close> is the text that follows it.\<close>

inductive accepts :: "item list \<Rightarrow> string \<Rightarrow> string \<Rightarrow> bool" where
  acc_nil: "accepts [] [] post"
| acc_one: "atom_ok a t \<Longrightarrow> accepts is mid post \<Longrightarrow> accepts (One a # is) (t # mid) post"
| acc_many: "(\<forall>x \<in> set xs. atom_ok a x) \<Longrightarrow> accepts is mid post \<Longrightarrow> accepts (Many a # is) (xs @ mid) post"
| acc_end: "accepts [EndText] [] []"

inductive_simps accepts_nil_iff: "accepts [] mid post"
inductive_simps accepts_one_iff: "accepts (One a # is) mid post"
inductive_simps accepts_many_iff: "accepts (Many a # is) mid post"
inductive_simps accepts_end_iff: "accepts (EndText # is) mid post"

definition finds :: "item list \<Rightarrow> string \<Rightarrow> bool" where
  "finds is text \<longleftrightarrow> (\<exists>mid post. text = mid @ post \<and> accepts is mid post)"

lemma finds_nil [simp]: "finds [] text"
  by (auto simp: finds_def accepts_nil_iff)

lemma finds_one: "finds (One a # is) text \<longleftrightarrow> text \<noteq> [] \<and> atom_ok a (hd text) \<and> finds is (tl text)"
proof
  assume "finds (One a # is) text"
  then show "text \<noteq> [] \<and> atom_ok a (hd text) \<and> finds is (tl text)"
    unfolding finds_def accepts_one_iff by (elim exE conjE) (simp, blast)
next
  assume *: "text \<noteq> [] \<and> atom_ok a (hd text) \<and> finds is (tl text)"
  then obtain mid post where t: "tl text = mid @ post" "accepts is mid post" by (auto simp: finds_def)
  then have "text = (hd text # mid) @ post" using * by (cases "text") auto
  moreover have "accepts (One a # is) (hd text # mid) post" using * t(2) by (intro acc_one) auto
  ultimately show "finds (One a # is) text" unfolding finds_def by blast
qed

lemma finds_end: "finds [EndText] text \<longleftrightarrow> text = []"
  by (auto simp: finds_def accepts_end_iff)

lemma finds_many: "finds (Many a # is) text \<longleftrightarrow>
    finds is text \<or> text \<noteq> [] \<and> atom_ok a (hd text) \<and> finds (Many a # is) (tl text)"
proof
  assume "finds (Many a # is) text"
  then obtain xs mid post where t: "text = xs @ mid @ post" "\<forall>x \<in> set xs. atom_ok a x" "accepts is mid post"
    by (auto simp: finds_def accepts_many_iff)
  show "finds is text \<or> text \<noteq> [] \<and> atom_ok a (hd text) \<and> finds (Many a # is) (tl text)"
  proof (cases xs)
    case Nil
    then show ?thesis using t by (auto simp: finds_def)
  next
    case (Cons y ys)
    moreover have "finds (Many a # is) (ys @ mid @ post)"
      unfolding finds_def using t(2,3) Cons
      by (intro exI [of _ "ys @ mid"] exI [of _ post]) (auto intro: acc_many)
    ultimately show ?thesis using t by simp
  qed
next
  assume "finds is text \<or> text \<noteq> [] \<and> atom_ok a (hd text) \<and> finds (Many a # is) (tl text)"
  then show "finds (Many a # is) text"
  proof (elim disjE conjE)
    assume "finds is text"
    then show ?thesis using acc_many [of "[]" a] by (fastforce simp: finds_def)
  next
    assume ne: "text \<noteq> []" "atom_ok a (hd text)" and "finds (Many a # is) (tl text)"
    then obtain xs mid post where t: "tl text = xs @ mid @ post" "\<forall>x \<in> set xs. atom_ok a x" "accepts is mid post"
      by (auto simp: finds_def accepts_many_iff)
    then have "text = (hd text # xs) @ mid @ post" using ne by (cases "text") auto
    moreover have "accepts (Many a # is) ((hd text # xs) @ mid) post"
      using t ne by (intro acc_many) auto
    ultimately show ?thesis unfolding finds_def by (metis append.assoc)
  qed
qed

lemma atom_of_ok: "atom_ok (atom_of c) t \<longleftrightarrow> c = CHR ''.'' \<or> c = t"
  by (simp add: atom_of_def)

lemma matchhere_finds: "matchhere re text \<longleftrightarrow> finds (items re) text"
  and matchstar_finds: "matchstar c re text \<longleftrightarrow> finds (Many (atom_of c) # items re) text"
proof (induction re "text" and c re "text" rule: matchhere_matchstar.induct)
  case (1 t)
  then show ?case by (simp add: matchhere.simps)
next
  case (2 c re t)
  then show ?case
    by (cases re) (auto simp: matchhere.simps finds_one finds_end atom_of_ok)
next
  case (3 c re t)
  show ?case
    using 3 finds_many [of "atom_of c" "items re" t] by (subst matchstar.simps) (auto simp: atom_of_ok)
qed

lemma match_from_iff: "match_from re text \<longleftrightarrow> (\<exists>pre rest. text = pre @ rest \<and> matchhere re rest)"
proof (induction "text")
  case Nil
  then show ?case by (simp add: match_from.simps)
next
  case (Cons t ts)
  have "(\<exists>pre rest. t # ts = pre @ rest \<and> matchhere re rest) \<longleftrightarrow>
      matchhere re (t # ts) \<or> (\<exists>pre rest. ts = pre @ rest \<and> matchhere re rest)"
    by (auto simp: Cons_eq_append_conv)
  then show ?case using Cons by (simp add: match_from.simps [of re "t # ts"])
qed

lemma match_iff:
  "match re text \<longleftrightarrow>
     (if re \<noteq> [] \<and> hd re = CHR ''^'' then finds (items (tl re)) text
      else \<exists>pre rest. text = pre @ rest \<and> finds (items re) rest)"
  by (simp add: match_def match_from_iff matchhere_finds)

subsection \<open>The line filter\<close>

text \<open>
  \<^verbatim>\<open>strchr(p, '\n')\<close> on the bytes of the buffer from \<^verbatim>\<open>p\<close>, which the code has terminated by a NUL.
\<close>

definition newline :: char where "newline = CHR 0x0A"

definition strchr_nl :: "string \<Rightarrow> nat option" where
  "strchr_nl p = find_idx (\<lambda>c. c = newline) (takeWhile (\<lambda>c. c \<noteq> CHR 0x00) p)"

lemma strchr_nl_less: "strchr_nl p = Some i \<Longrightarrow> i < length p"
  using length_takeWhile_le [of "\<lambda>c. c \<noteq> CHR 0x00" p] by (auto simp: strchr_nl_def find_idx_Some)

text \<open>The inner loop: what it writes, and the bytes from \<^verbatim>\<open>p\<close> on when it ends.\<close>

function grep_lines :: "string \<Rightarrow> string \<Rightarrow> string \<times> string" where
  "grep_lines pattern p =
     (case strchr_nl p of
        None \<Rightarrow> ([], p)
      | Some q \<Rightarrow>
          (case grep_lines pattern (drop (Suc q) p) of (out, r) \<Rightarrow>
             ((if match pattern (take q p) then take (Suc q) p else []) @ out, r)))"
  by pat_completeness auto
termination
  by (relation "measure (\<lambda>(pattern, p). length p)") (auto dest: strchr_nl_less)

declare grep_lines.simps [simp del]

definition BUFSZ :: nat where "BUFSZ = 1024"

text \<open>
  The outer loop.  The input is the sequence of pieces in which it becomes available; \<^verbatim>\<open>read\<close>
  returns as much of the next piece as there is room for, and 0 at the end.  \<open>buf\<close> holds the
  first \<^verbatim>\<open>m\<close> bytes of the buffer.
\<close>

function grep :: "string \<Rightarrow> string \<Rightarrow> string list \<Rightarrow> string" where
  "grep pattern buf [] = []"
| "grep pattern buf (piece # input) =
     (let n = min (length piece) (BUFSZ - length buf - 1)
      in if n = 0 then []
         else let buf = buf @ take n piece;
                  input = (if n < length piece then drop n piece # input else input)
              in case grep_lines pattern buf of (out, p) \<Rightarrow>
                   out @ grep pattern (if p = buf then [] else p) input)"
  by pat_completeness auto
termination
  by (relation "measure (\<lambda>(pattern, buf, input). length (concat input) + length input)") auto

subsection \<open>Its meaning\<close>

function lines :: "string \<Rightarrow> string list" where
  "lines s = (case find_idx (\<lambda>c. c = newline) s of None \<Rightarrow> [] | Some q \<Rightarrow> take q s # lines (drop (Suc q) s))"

  by pat_completeness auto
termination
  by (relation "measure length") (auto simp: find_idx_Some)

declare lines.simps [simp del]

definition grep_spec :: "string \<Rightarrow> string \<Rightarrow> string" where
  "grep_spec pattern s = concat (map (\<lambda>l. l @ [newline]) (filter (match pattern) (lines s)))"

text \<open>The part of a text after its last newline.\<close>

definition last_part :: "string \<Rightarrow> string" where
  "last_part s = rev (takeWhile (\<lambda>c. c \<noteq> newline) (rev s))"

lemma find_idx_append: "find_idx P (xs @ ys) =
    (case find_idx P xs of Some i \<Rightarrow> Some i | None \<Rightarrow> map_option ((+) (length xs)) (find_idx P ys))"
  by (induction xs; cases "find_idx P ys") (auto split: option.split)

lemma lines_None: "newline \<notin> set s \<Longrightarrow> lines s = []"
proof -
  assume "newline \<notin> set s"
  then have "find_idx (\<lambda>c. c = newline) s = None" by (auto simp: find_idx_None)
  then show ?thesis by (subst lines.simps) simp
qed

lemma takeWhile_all: "(\<And>x. x \<in> set xs \<Longrightarrow> P x) \<Longrightarrow> takeWhile P xs = xs"
  by (simp add: takeWhile_eq_all_conv)

lemma last_part_None: "newline \<notin> set s \<Longrightarrow> last_part s = s"
  unfolding last_part_def by (subst takeWhile_all) auto

lemma last_part_drop:
  assumes "q < length s" "s ! q = newline"
  shows "last_part (drop (Suc q) s) = last_part s"
proof -
  have s: "s = take q s @ newline # drop (Suc q) s" using assms id_take_nth_drop [of q s] by simp
  have "rev s = rev (drop (Suc q) s) @ newline # rev (take q s)"
    by (subst s) simp
  then have "takeWhile (\<lambda>c. c \<noteq> newline) (rev s) = takeWhile (\<lambda>c. c \<noteq> newline) (rev (drop (Suc q) s))"
    by (simp only: takeWhile_tail) (metis (mono_tags, lifting) takeWhile_tail)
  then show ?thesis by (simp add: last_part_def)
qed

lemma lines_append: "lines (a @ b) = lines a @ lines (last_part a @ b)"
proof (induction a rule: lines.induct)
  case (1 a)
  show ?case
  proof (cases "find_idx (\<lambda>c. c = newline) a")
    case None
    then have "newline \<notin> set a" by (auto simp: find_idx_None)
    then show ?thesis by (simp add: lines_None last_part_None)
  next
    case (Some q)
    then have q: "q < length a" "a ! q = newline" by (auto simp: find_idx_Some)
    have "lines (a @ b) = take q a # lines (drop (Suc q) a @ b)"
      using Some q by (subst lines.simps) (simp add: find_idx_append)
    also have "\<dots> = (take q a # lines (drop (Suc q) a)) @ lines (last_part a @ b)"
      using 1 [OF Some] last_part_drop [OF q] by simp
    also have "take q a # lines (drop (Suc q) a) = lines a" using Some by (subst lines.simps [of a]) simp
    finally show ?thesis .
  qed
qed

lemma grep_spec_append: "grep_spec pattern (a @ b) = grep_spec pattern a @ grep_spec pattern (last_part a @ b)"
  by (simp add: grep_spec_def lines_append [of a b])

lemma strchr_nl_plain: "CHR 0x00 \<notin> set p \<Longrightarrow> strchr_nl p = find_idx (\<lambda>c. c = newline) p"
  unfolding strchr_nl_def by (subst takeWhile_all) auto

lemma grep_lines_ok: "CHR 0x00 \<notin> set p \<Longrightarrow> grep_lines pattern p = (grep_spec pattern p, last_part p)"
proof (induction pattern p rule: grep_lines.induct)
  case (1 pattern p)
  show ?case
  proof (cases "find_idx (\<lambda>c. c = newline) p")
    case None
    then have "newline \<notin> set p" by (auto simp: find_idx_None)
    then show ?thesis using None 1(2)
      by (subst grep_lines.simps) (simp add: strchr_nl_plain grep_spec_def lines_None last_part_None)
  next
    case (Some q)
    then have q: "q < length p" "p ! q = newline" by (auto simp: find_idx_Some)
    have "CHR 0x00 \<notin> set (drop (Suc q) p)" using 1(2) by (meson in_set_dropD)
    then have IH: "grep_lines pattern (drop (Suc q) p) = (grep_spec pattern (drop (Suc q) p), last_part p)"
      using 1(1) [of q] Some 1(2) last_part_drop [OF q] by (simp add: strchr_nl_plain)
    have "lines p = take q p # lines (drop (Suc q) p)" using Some by (subst lines.simps) simp
    moreover have "take (Suc q) p = take q p @ [newline]" using q by (simp add: take_Suc_conv_app_nth)
    ultimately show ?thesis using Some 1(2)
      by (subst grep_lines.simps) (simp add: strchr_nl_plain IH grep_spec_def)
  qed
qed

text \<open>
  Input that arrives in pieces each of which ends at least one line, with what is left of the
  line before it, and fits into the buffer.
\<close>

fun fits :: "string \<Rightarrow> string list \<Rightarrow> bool" where
  "fits buf [] \<longleftrightarrow> True"
| "fits buf (piece # input) \<longleftrightarrow> newline \<in> set piece \<and> CHR 0x00 \<notin> set piece \<and>
     length buf + length piece < BUFSZ \<and> fits (last_part (buf @ piece)) input"

lemma last_part_set: "set (last_part s) \<subseteq> set s"
  by (auto simp: last_part_def dest: set_takeWhileD)

lemma last_part_shorter: "newline \<in> set s \<Longrightarrow> last_part s \<noteq> s"
  by (auto simp: last_part_def dest: set_takeWhileD) (metis rev_swap set_rev set_takeWhileD)

lemma grep_ok:
  "fits buf input \<Longrightarrow> CHR 0x00 \<notin> set buf \<Longrightarrow> grep pattern buf input = grep_spec pattern (buf @ concat input) \<or> input = []"
proof (induction input arbitrary: buf)
  case (Cons piece input)
  let ?b = "buf @ piece"
  have b: "CHR 0x00 \<notin> set ?b" "newline \<in> set piece" "length buf + length piece < BUFSZ" "fits (last_part ?b) input"
    using Cons.prems by auto
  then have "0 < length piece" by (cases piece) auto
  then have "grep pattern buf (piece # input) = grep_spec pattern ?b @ grep pattern (last_part ?b) input"
  proof -
    have "min (length piece) (BUFSZ - length buf - 1) = length piece" using b(3) by simp
    then show ?thesis using b \<open>0 < length piece\<close> last_part_shorter [of ?b] by (simp add: Let_def grep_lines_ok)
  qed
  also have "grep pattern (last_part ?b) input = grep_spec pattern (last_part ?b @ concat input)"
  proof (cases "input = []")
    case True
    have "newline \<notin> set (last_part ?b)" by (auto simp: last_part_def dest: set_takeWhileD)
    then show ?thesis using True by (simp add: grep_spec_def lines_None)
  next
    case False
    have "CHR 0x00 \<notin> set (last_part ?b)" using b(1) last_part_set by blast
    then show ?thesis using Cons.IH [OF b(4)] False by blast
  qed
  also have "grep_spec pattern ?b @ grep_spec pattern (last_part ?b @ concat input) = grep_spec pattern (?b @ concat input)"
    by (rule grep_spec_append [symmetric])
  finally show ?case by simp
qed simp

subsection \<open>Properties\<close>

text \<open>
  C23.  The matcher decides the meaning of patterns: \<^verbatim>\<open>match\<close> returns true exactly if the text has a
  part that the pattern's items accept one after the other, where a part is any substring, or a
  prefix if the pattern starts with \<^verbatim>\<open>^\<close>, a starred character stands for any number of copies
  and a final \<^verbatim>\<open>$\<close> for the end of the text.  It terminates on every pattern and text.
\<close>

theorem match_correct:
  "match re text \<longleftrightarrow> (\<exists>pre mid post. text = pre @ mid @ post \<and>
     (if re \<noteq> [] \<and> hd re = CHR ''^'' then pre = [] \<and> accepts (items (tl re)) mid post
      else accepts (items re) mid post))"
  by (auto simp: match_iff finds_def)



text \<open>
  Without that condition input is lost: a piece that finishes no line is dropped, so a line
  that matches is not printed if it arrives in two pieces.
\<close>

theorem grep_drops_unfinished_line:
  "grep ''ab'' [] [''abc'' @ [newline]] = ''abc'' @ [newline] \<and> grep ''ab'' [] [''ab'', ''c'' @ [newline]] = []"
  by (simp add: newline_def BUFSZ_def grep_lines.simps strchr_nl_def match_def match_from.simps matchhere.simps)

end
