(* ===== verification/Ulib.thy ===== *)
theory Ulib
  imports Kstring
begin

text \<open>
  The user library: formatted output (\<^verbatim>\<open>printf.c\<close>) and the C library functions of \<^verbatim>\<open>ulib.c\<close>
  that do not call the kernel, or only \<^verbatim>\<open>read\<close>.  Output is the string of characters that
  \<^verbatim>\<open>putc\<close> writes, in order.
\<close>

subsection \<open>Numbers\<close>

definition digits :: string where "digits = ''0123456789ABCDEF''"

text \<open>
  The digit loop of \<^verbatim>\<open>printint\<close>: the characters in the order they are stored in \<^verbatim>\<open>buf\<close>.  There is no
  result for a base below two, with which the C loop divides by zero or does not end; the
  callers pass 10 and 16.
\<close>

function pi_loop :: "nat \<Rightarrow> nat \<Rightarrow> string option" where
  "pi_loop bse x =
     (if bse < 2 then None
      else if x div bse = 0 then Some [digits ! (x mod bse)]
      else map_option ((#) (digits ! (x mod bse))) (pi_loop bse (x div bse)))"
  by pat_completeness auto
termination
proof (relation "measure snd", goal_cases)
  case (2 bse x)
  have "x \<noteq> 0" using 2 by (cases x) auto
  moreover have "1 < bse" using 2 by simp
  ultimately show ?case by simp
qed simp

declare pi_loop.simps [simp del]

definition printint :: "uint \<Rightarrow> nat \<Rightarrow> bool \<Rightarrow> string option" where
  "printint xx bse sg =
     (let neg = sg \<and> sint xx < 0; x = (if neg then - xx else xx)
      in map_option (\<lambda>buf. rev (buf @ (if neg then ''-'' else []))) (pi_loop bse (unat x)))"

subsection \<open>Formats\<close>

text \<open>
  \<^verbatim>\<open>printf\<close> on a format, the words of its arguments and the strings that pointers point to; \<open>None\<close> if
  the format asks for more arguments than there are.
\<close>

fun printf_loop :: "(uint \<Rightarrow> string) \<Rightarrow> bool \<Rightarrow> string \<Rightarrow> uint list \<Rightarrow> string option" where
  "printf_loop str st [] ap = Some []"
| "printf_loop str False (c # fmt) ap =
     (if c = CHR ''%'' then printf_loop str True fmt ap
      else map_option ((#) c) (printf_loop str False fmt ap))"
| "printf_loop str True (c # fmt) ap =
     (if c = CHR ''d'' then
        (case ap of [] \<Rightarrow> None
         | a # ap \<Rightarrow> Option.bind (printint a 10 True) (\<lambda>s. map_option ((@) s) (printf_loop str False fmt ap)))
      else if c = CHR ''x'' \<or> c = CHR ''p'' then
        (case ap of [] \<Rightarrow> None
         | a # ap \<Rightarrow> Option.bind (printint a 16 False) (\<lambda>s. map_option ((@) s) (printf_loop str False fmt ap)))
      else if c = CHR ''s'' then
        (case ap of [] \<Rightarrow> None
         | a # ap \<Rightarrow> map_option ((@) (if a = 0 then ''(null)'' else str a)) (printf_loop str False fmt ap))
      else if c = CHR ''c'' then
        (case ap of [] \<Rightarrow> None
         | a # ap \<Rightarrow> map_option ((#) (char_of (unat a mod 256))) (printf_loop str False fmt ap))
      else if c = CHR ''%'' then map_option ((#) c) (printf_loop str False fmt ap)
      else map_option (\<lambda>s. CHR ''%'' # c # s) (printf_loop str False fmt ap))"

definition printf :: "(uint \<Rightarrow> string) \<Rightarrow> string \<Rightarrow> uint list \<Rightarrow> string option" where
  "printf str fmt args = printf_loop str False fmt args"

subsection \<open>Strings\<close>

partial_function (option) strcpy_loop :: "memory \<Rightarrow> uint \<Rightarrow> uint \<Rightarrow> memory option" where
  "strcpy_loop m s t =
     (let m' = m(s := m t) in if m t \<noteq> 0 then strcpy_loop m' (s + 1) (t + 1) else Some m')"

definition strcpy :: "memory \<Rightarrow> uint \<Rightarrow> uint \<Rightarrow> memory option" where
  "strcpy m s t = strcpy_loop m s t"

partial_function (option) strcmp_from :: "cptr \<Rightarrow> cptr \<Rightarrow> nat \<Rightarrow> int option" where
  "strcmp_from p q i =
     (if p i \<noteq> 0 \<and> p i = q i then strcmp_from p q (Suc i) else Some (uint (p i) - uint (q i)))"

definition strcmp :: "cptr \<Rightarrow> cptr \<Rightarrow> int option" where
  "strcmp p q = strcmp_from p q 0"

fun strchr :: "string \<Rightarrow> char \<Rightarrow> nat option" where
  "strchr [] c = None"
| "strchr (x # s) c = (if x = c then Some 0 else map_option Suc (strchr s c))"

definition ulib_memset :: "memory \<Rightarrow> uint \<Rightarrow> uint \<Rightarrow> uint \<Rightarrow> memory" where
  "ulib_memset m dst c n = stosb m dst (ucast c) (unat n)"

fun atoi_loop :: "int \<Rightarrow> string \<Rightarrow> int" where
  "atoi_loop n [] = n"
| "atoi_loop n (c # s) =
     (if 48 \<le> (of_char c :: int) \<and> (of_char c :: int) \<le> 57 then atoi_loop (n * 10 + of_char c - 48) s else n)"

definition atoi :: "string \<Rightarrow> int" where
  "atoi s = atoi_loop 0 s"

definition ulib_memmove :: "memory \<Rightarrow> uint \<Rightarrow> uint \<Rightarrow> int \<Rightarrow> memory" where
  "ulib_memmove m vdst vsrc n = copy_up m vdst vsrc (nat n)"

text \<open>
  \<^verbatim>\<open>gets\<close> with the bytes that \<^verbatim>\<open>read(0, &c, 1)\<close> will return, and what is left of them.
\<close>

fun gets_loop :: "nat \<Rightarrow> string \<Rightarrow> string \<times> string" where
  "gets_loop 0 inp = ([], inp)"
| "gets_loop (Suc k) [] = ([], [])"
| "gets_loop (Suc k) (c # inp) =
     (if c = CHR 0x0A \<or> c = CHR 0x0D then ([c], inp)
      else case gets_loop k inp of (buf, r) \<Rightarrow> (c # buf, r))"

definition gets :: "int \<Rightarrow> string \<Rightarrow> string \<times> string" where
  "gets mx inp = gets_loop (nat (mx - 1)) inp"

subsection \<open>Numbers and their digits\<close>

definition digit_val :: "char \<Rightarrow> nat" where
  "digit_val c = (if c \<in> set ''0123456789'' then of_char c - 48 else of_char c - 55)"

definition num_val :: "nat \<Rightarrow> string \<Rightarrow> nat" where
  "num_val bse s = foldl (\<lambda>n c. n * bse + digit_val c) 0 s"

lemma digit_val_digits: "d < 16 \<Longrightarrow> digit_val (digits ! d) = d"
proof -
  have "\<forall>d < 16. digit_val (digits ! d) = d" by code_simp
  then show "d < 16 \<Longrightarrow> ?thesis" by simp
qed

lemma num_val_snoc: "num_val bse (s @ [c]) = num_val bse s * bse + digit_val c"
  by (simp add: num_val_def)

lemma pi_loop_ok:
  assumes "2 \<le> bse" "bse \<le> 16"
  obtains s where "pi_loop bse x = Some s" "num_val bse (rev s) = x" "s \<noteq> []"
    "set s \<subseteq> {digits ! d | d. d < bse}" "length s = 1 \<or> bse ^ (length s - 1) \<le> x"
proof -
  have "\<exists>s. pi_loop bse x = Some s \<and> num_val bse (rev s) = x \<and> s \<noteq> [] \<and> set s \<subseteq> {digits ! d | d. d < bse} \<and>
      (length s = 1 \<or> bse ^ (length s - 1) \<le> x)"
  proof (induction x rule: less_induct)
    case (less x)
    have d: "x mod bse < bse" using assms by simp
    have dv: "digit_val (digits ! (x mod bse)) = x mod bse" using d assms by (intro digit_val_digits) linarith
    show ?case
    proof (cases "x div bse = 0")
      case True
      then have "x mod bse = x" using assms by (simp add: div_eq_0_iff)
      moreover have "pi_loop bse x = Some [digits ! (x mod bse)]" using True assms by (subst pi_loop.simps) simp
      ultimately show ?thesis using dv d by (auto simp: num_val_def)
    next
      case False
      then have "x div bse < x" using assms by (cases x) auto
      then obtain s where s: "pi_loop bse (x div bse) = Some s" "num_val bse (rev s) = x div bse" "s \<noteq> []"
        "set s \<subseteq> {digits ! d | d. d < bse}" "length s = 1 \<or> bse ^ (length s - 1) \<le> x div bse"
        using less.IH by blast
      have "pi_loop bse x = Some (digits ! (x mod bse) # s)" using False assms s(1) by (subst pi_loop.simps) simp
      moreover have "num_val bse (rev (digits ! (x mod bse) # s)) = x"
        using s(2) dv by (simp add: num_val_snoc)
      moreover have "bse ^ length s \<le> x"
      proof -
        have "bse ^ (length s - 1) \<le> x div bse" using s(5) False by (auto simp: Suc_le_eq)
        then have "bse ^ (length s - 1) * bse \<le> x div bse * bse" by simp
        also have "\<dots> \<le> x" by simp
        finally show ?thesis using s(3) by (cases s) (simp_all add: mult.commute)
      qed
      ultimately show ?thesis using s d by auto
    qed
  qed
  with that show thesis by blast
qed

lemma set_digits_10: "{digits ! d | d. d < 10} = set ''0123456789''"
proof -
  have "{digits ! d | d. d < 10} = (!) digits ` set [0..<10]" by auto
  also have "\<dots> = set ''0123456789''" by code_simp
  finally show ?thesis .
qed

lemma minus_not_digit: "d < 16 \<Longrightarrow> digits ! d \<noteq> CHR ''-''"
proof -
  have "\<forall>d < 16. digits ! d \<noteq> CHR ''-''" by code_simp
  then show "d < 16 \<Longrightarrow> ?thesis" by simp
qed

lemma atoi_digits:
  "set s \<subseteq> set ''0123456789'' \<Longrightarrow> atoi_loop n s = n * 10 ^ length s + int (num_val 10 s)"
proof (induction s arbitrary: n rule: rev_induct)
  case (snoc c s)
  have "atoi_loop n (s @ [c]) = atoi_loop (atoi_loop n s) [c]" if "set s \<subseteq> set ''0123456789''" for n s
    using that
  proof (induction s arbitrary: n)
    case (Cons x s)
    have "48 \<le> (of_char x :: int) \<and> (of_char x :: int) \<le> 57" using Cons.prems by auto
    with Cons show ?case by simp
  qed simp
  moreover have "atoi_loop m [c] = m * 10 + int (digit_val c)" for m
    using snoc.prems by (auto simp: digit_val_def)
  ultimately show ?case using snoc by (simp add: num_val_snoc algebra_simps)
qed (simp add: num_val_def)

lemma printint_cases:
  assumes "2 \<le> bse" "bse \<le> 16"
  obtains s where "printint xx bse sg = Some (if sg \<and> sint xx < 0 then CHR ''-'' # s else s)"
    "num_val bse s = (if sg \<and> sint xx < 0 then unat (- xx) else unat xx)"
    "set s \<subseteq> {digits ! d | d. d < bse}" "s \<noteq> []" "length s = 1 \<or> bse ^ (length s - 1) < 2 ^ 32"
proof -
  let ?x = "if sg \<and> sint xx < 0 then - xx else xx"
  obtain s where s: "pi_loop bse (unat ?x) = Some s" "num_val bse (rev s) = unat ?x" "s \<noteq> []"
    "set s \<subseteq> {digits ! d | d. d < bse}" "length s = 1 \<or> bse ^ (length s - 1) \<le> unat ?x"
    by (rule pi_loop_ok [OF assms])
  have "printint xx bse sg = Some (if sg \<and> sint xx < 0 then CHR ''-'' # rev s else rev s)"
    using s(1) by (simp add: printint_def Let_def split: if_splits)
  moreover have "length s = 1 \<or> bse ^ (length s - 1) < 2 ^ 32"
    using s(5) unat_less_32 [of ?x] by (metis le_less_trans)
  ultimately show thesis using that [of "rev s"] s(2-4) by (simp split: if_splits)
qed

lemma sint_neg_unat: "sint (xx :: uint) < 0 \<Longrightarrow> int (unat (- xx)) = - sint xx"
proof -
  assume n: "sint xx < 0"
  have b: "0 \<le> uint xx" "uint xx < 2 ^ 32" using uint_lt2p [of xx] by simp_all
  have u: "sint xx = uint xx - 2 ^ 32" "0 < uint xx" using n b by (auto simp: sint_uint_32 split: if_splits)
  have "uint (- xx) = (- uint xx) mod 2 ^ 32" by (simp add: uint_word_ariths)
  also have "\<dots> = 2 ^ 32 - uint xx" using b u(2) by (simp add: zmod_zminus1_eq_if mod_pos_pos_trivial)
  finally show ?thesis using u(1) by simp
qed

lemma gets_loop_ok:
  "gets_loop k inp = (buf, r) \<Longrightarrow> buf @ r = inp \<and> length buf \<le> k \<and>
     (\<forall>c \<in> set (butlast buf). c \<noteq> CHR 0x0A \<and> c \<noteq> CHR 0x0D) \<and>
     (length buf < k \<longrightarrow> r = [] \<or> buf \<noteq> [] \<and> last buf \<in> {CHR 0x0A, CHR 0x0D})"
proof (induction k inp arbitrary: buf r rule: gets_loop.induct)
  case (3 k c inp)
  show ?case
  proof (cases "c = CHR 0x0A \<or> c = CHR 0x0D")
    case True
    then show ?thesis using 3(2) by auto
  next
    case False
    then obtain b where b: "gets_loop k inp = (b, r)" "buf = c # b" using 3(2) by (auto split: prod.splits)
    note IH = 3(1) [OF False b(1)]
    have "\<forall>x \<in> set (butlast buf). x \<noteq> CHR 0x0A \<and> x \<noteq> CHR 0x0D"
      unfolding b(2) using IH False by (simp only: butlast.simps) (simp split: if_split)
    moreover have "length buf < Suc k \<longrightarrow> r = [] \<or> buf \<noteq> [] \<and> last buf \<in> {CHR 0x0A, CHR 0x0D}"
      unfolding b(2) using conjunct2 [OF conjunct2 [OF conjunct2 [OF IH]]] by (cases "b = []") simp_all
    ultimately show ?thesis using IH b(2) by simp
  qed
qed simp_all

lemma ptr_here: "ptr (us @ ys) (length us) = (if ys = [] then 0 else hd ys)"
  by (cases ys) (simp_all add: ptr_def)

lemma strcmp_from_ptr: "0 \<notin> set xs \<Longrightarrow> 0 \<notin> set ys \<Longrightarrow>
    \<exists>r. strcmp_from (ptr (us @ xs)) (ptr (us @ ys)) (length us) = Some r \<and> (r = 0 \<longleftrightarrow> xs = ys)"
proof (induction xs arbitrary: ys us)
  case Nil
  have "strcmp_from (ptr (us @ [])) (ptr (us @ ys)) (length us) = Some (- uint (if ys = [] then 0 else hd ys))"
    using ptr_here [of us "[]"] ptr_here [of us ys] by (subst strcmp_from.simps) simp
  moreover have "ys \<noteq> [] \<Longrightarrow> hd ys \<noteq> 0" using Nil.prems(2) by (cases ys) auto
  ultimately show ?case by (auto simp: uint_0_iff)
next
  case (Cons x xs)
  show ?case
  proof (cases "ys \<noteq> [] \<and> hd ys = x")
    case True
    then obtain zs where ys: "ys = x # zs" by (cases ys) auto
    have "strcmp_from (ptr (us @ x # xs)) (ptr (us @ x # zs)) (length us) =
        strcmp_from (ptr ((us @ [x]) @ xs)) (ptr ((us @ [x]) @ zs)) (length (us @ [x]))"
      using Cons.prems ptr_here [of us "x # xs"] ptr_here [of us "x # zs"] by (subst strcmp_from.simps) auto
    then show ?thesis using Cons.IH [of zs "us @ [x]"] Cons.prems ys by auto
  next
    case False
    have "ptr (us @ x # xs) (length us) = x" "ptr (us @ ys) (length us) = (if ys = [] then 0 else hd ys)"
      by (simp_all add: ptr_here)
    moreover have x: "x \<noteq> 0" using Cons.prems by auto
    moreover have ne: "x \<noteq> (if ys = [] then 0 else hd ys)" using False x by (cases ys) simp_all
    ultimately have "strcmp_from (ptr (us @ x # xs)) (ptr (us @ ys)) (length us) =
        Some (uint x - uint (if ys = [] then 0 else hd ys))"
      by (subst strcmp_from.simps) (simp only: if_False simp_thms)
    moreover have "uint x \<noteq> uint (if ys = [] then 0 else hd ys)"
      using ne by (simp only: word_uint_eq_iff simp_thms)
    ultimately show ?thesis using False by (cases ys) simp_all
  qed
qed

subsection \<open>Properties\<close>

text \<open>
  C25.  \<^verbatim>\<open>printint\<close> prints the number: in decimal with sign it prints a minus exactly for negative
  numbers, followed by the digits of the absolute value (also for the smallest number, whose
  absolute value is not an \<^verbatim>\<open>int\<close>), and in hexadecimal the digits of the word; the 16 bytes of its
  buffer are always enough.
\<close>

theorem printint_correct:
  "(\<exists>s. printint xx 10 True = Some ((if sint xx < 0 then ''-'' else []) @ s) \<and> s \<noteq> [] \<and>
      set s \<subseteq> set ''0123456789'' \<and> int (num_val 10 s) = \<bar>sint xx\<bar> \<and> length s + 1 \<le> 16) \<and>
   (\<exists>s. printint xx 16 False = Some s \<and> num_val 16 s = unat xx \<and> length s \<le> 16)"
proof
  obtain s where s: "printint xx 10 True = Some (if sint xx < 0 then CHR ''-'' # s else s)"
    "num_val 10 s = (if sint xx < 0 then unat (- xx) else unat xx)"
    "set s \<subseteq> {digits ! d | d. d < 10}" "s \<noteq> []" "length s = 1 \<or> 10 ^ (length s - 1) < (2 ^ 32 :: nat)"
    using printint_cases [of 10 xx True] by auto
  have "length s - 1 < 10"
  proof (rule ccontr)
    assume "\<not> length s - 1 < 10"
    then have "(10 ^ 10 :: nat) \<le> 10 ^ (length s - 1)" by (intro power_increasing) auto
    with s(5) \<open>\<not> length s - 1 < 10\<close> show False by auto
  qed
  moreover have "int (num_val 10 s) = \<bar>sint xx\<bar>"
    using s(2) sint_neg_unat [of xx] sint_uint_32 [of xx] uint_lt2p [of xx] by (auto split: if_splits)
  ultimately show "\<exists>s. printint xx 10 True = Some ((if sint xx < 0 then ''-'' else []) @ s) \<and> s \<noteq> [] \<and>
      set s \<subseteq> set ''0123456789'' \<and> int (num_val 10 s) = \<bar>sint xx\<bar> \<and> length s + 1 \<le> 16"
    using s(1,4) s(3) [unfolded set_digits_10] by (intro exI [of _ s]) auto
next
  obtain s where s: "printint xx 16 False = Some s" "num_val 16 s = unat xx"
    "length s = 1 \<or> 16 ^ (length s - 1) < (2 ^ 32 :: nat)"
    using printint_cases [of 16 xx False] by auto
  have "length s - 1 < 8"
  proof (rule ccontr)
    assume "\<not> length s - 1 < 8"
    then have "(16 ^ 8 :: nat) \<le> 16 ^ (length s - 1)" by (intro power_increasing) auto
    with s(3) \<open>\<not> length s - 1 < 8\<close> show False by auto
  qed
  then show "\<exists>s. printint xx 16 False = Some s \<and> num_val 16 s = unat xx \<and> length s \<le> 16"
    using s(1,2) by (intro exI [of _ s]) auto
qed


text \<open>
  \<^verbatim>\<open>gets\<close> stays within its buffer: it stores at most \<open>max - 1\<close> characters (the NUL comes after them),
  which are the next ones of the input; it stops after the first newline or carriage return, at
  the end of the input, or when the buffer is full.
\<close>

lemma gets_bounded:
  assumes "1 \<le> mx"
  shows "case gets mx inp of (buf, r) \<Rightarrow> buf @ r = inp \<and> int (length buf) + 1 \<le> mx \<and>
    (\<forall>c \<in> set (butlast buf). c \<noteq> CHR 0x0A \<and> c \<noteq> CHR 0x0D) \<and>
    (int (length buf) + 1 < mx \<longrightarrow> r = [] \<or> buf \<noteq> [] \<and> last buf \<in> {CHR 0x0A, CHR 0x0D})"
proof -
  obtain buf r where g: "gets mx inp = (buf, r)" by (cases "gets mx inp")
  have "length buf \<le> nat (mx - 1) \<longleftrightarrow> int (length buf) + 1 \<le> mx"
    "length buf < nat (mx - 1) \<longleftrightarrow> int (length buf) + 1 < mx" using assms by linarith+
  then show ?thesis
    using gets_loop_ok [OF g [unfolded gets_def]] unfolding g prod.case by blast
qed

lemma gets_bounded_witness: "gets 4 ''abcdef'' = (''abc'', ''def'') \<and> length (fst (gets 4 ''abcdef'')) + 1 \<le> 4"
  using gets_bounded [of 4 "''abcdef''"] by (simp add: gets_def numeral_3_eq_3)

text \<open>
  The user library's \<^verbatim>\<open>memmove\<close> copies upwards only: unlike the kernel's, it does not preserve the
  source when the destination overlaps it from above.
\<close>

theorem ulib_memmove_overlap:
  "ulib_memmove (\<lambda>a. ucast a) 101 100 3 103 = 100 \<and> memmove (\<lambda>a. ucast a) 101 100 3 103 = 102"
  by code_simp

text \<open>
  \<^verbatim>\<open>strcmp\<close> terminates on terminated strings and returns zero exactly for equal ones.
\<close>

lemma strcmp_equal:
  assumes "0 \<notin> set xs" "0 \<notin> set ys"
  shows "\<exists>r. strcmp (ptr xs) (ptr ys) = Some r \<and> (r = 0 \<longleftrightarrow> xs = ys)"
  using strcmp_from_ptr [OF assms, of "[]"] by (simp add: strcmp_def)

lemma strcmp_equal_witness: "\<exists>r. strcmp (ptr [97, 98]) (ptr [97]) = Some r \<and> r \<noteq> 0"
  using strcmp_equal [of "[97, 98]" "[97]"] by simp

end
