(* ===== verification/Pagetable.thy ===== *)
theory Pagetable
  imports Vm
begin

text \<open>
  Page tables as maps from virtual addresses: what \<^verbatim>\<open>walkpgdir\<close> and \<^verbatim>\<open>mappages\<close> do to the
  translation that the hardware makes of a page directory.  The tables lie in pages of the allocator, none of
  them free and no two the same.
\<close>

subsection \<open>Addresses\<close>

abbreviation aligned :: "uint \<Rightarrow> bool" where
  "aligned a \<equiv> unat a mod 4096 = 0"

lemma unat_mask: "unat (x AND 0x3FF :: uint) = unat x mod 1024" "unat (x AND 0xFFF :: uint) = unat x mod 4096"
proof -
  have "x AND mask 10 = take_bit 10 x" "x AND mask 12 = take_bit 12 x" by (simp_all add: take_bit_eq_mask)
  then have "x AND 0x3FF = take_bit 10 x" "x AND 0xFFF = take_bit 12 x" by (simp_all add: mask_eq_exp_minus_1)
  then show "unat (x AND 0x3FF) = unat x mod 1024" "unat (x AND 0xFFF) = unat x mod 4096"
    by (simp_all add: take_bit_eq_mod unat_mod)
qed

lemma unat_PDX: "unat (PDX va) = unat va div 4194304"
proof -
  have "unat va < 4294967296" using unat_less_32 [of va] by simp
  then have "unat va div 4194304 < 1024" by (simp add: less_mult_imp_div_less)
  then show ?thesis by (simp add: PDX_def unat_mask drop_bit_eq_div unat_div)
qed

lemma unat_PTX: "unat (PTX va) = unat va div 4096 mod 1024"
  by (simp add: PTX_def unat_mask drop_bit_eq_div unat_div)

lemma PDX_less [simp]: "PDX va < 1024" and PTX_less [simp]: "PTX va < 1024"
  by (simp_all add: PDX_def PTX_def word_less_nat_alt unat_mask)

lemma same_page: "PDX va = PDX vb \<and> PTX va = PTX vb \<longleftrightarrow> unat va div 4096 = unat vb div 4096"
proof -
  have "unat v div 4194304 = unat v div 4096 div 1024" for v :: uint by (simp add: div_mult2_eq [symmetric])
  moreover have "a = b \<longleftrightarrow> a div 1024 = b div 1024 \<and> a mod 1024 = b mod 1024" for a b :: nat
    using div_mult_mod_eq [of a 1024] div_mult_mod_eq [of b 1024] by metis
  ultimately show ?thesis by (metis unat_PDX unat_PTX word_unat_eq_iff)
qed

lemma PTE_ADDR_aligned [simp]: "aligned (PTE_ADDR e)"
proof -
  have "PTE_ADDR e = PGROUNDDOWN e" by (simp add: PTE_ADDR_def PGROUNDDOWN_def PGSIZE_def)
  then show ?thesis by (simp add: unat_PGROUNDDOWN)
qed

lemma aligned_P2V [simp]: "aligned (P2V a) = aligned a" "aligned (V2P a) = aligned a"
proof -
  have "unat (x + 0x80000000 :: uint) mod 4096 = unat x mod 4096" for x
    by (simp add: unat_word_ariths mod_mod_cancel mod_add_eq) (simp flip: mod_add_right_eq)
  from this [of a] this [of "a - 0x80000000"] show "aligned (P2V a) = aligned a" "aligned (V2P a) = aligned a"
    by (simp_all add: P2V_def V2P_def KERNBASE_def)
qed

lemma pte_fields:
  assumes "aligned pa" "unat f < 4096"
  shows "PTE_ADDR (pa OR f) = pa" "PTE_FLAGS (pa OR f) = f"
proof -
  have "PGROUNDDOWN pa = pa" using assms(1) by (simp add: word_unat_eq_iff unat_PGROUNDDOWN) (simp add: page_base [symmetric])
  then have pa: "pa AND NOT 0xFFF = pa" by (simp add: PGROUNDDOWN_def PGSIZE_def)
  have f: "f AND 0xFFF = f" using assms(2) by (simp add: word_unat_eq_iff unat_mask)
  then have "f AND NOT 0xFFF = 0" by (metis and.left_commute and.assoc bit.conj_cancel_right and_zero_eq)
  then show "PTE_ADDR (pa OR f) = pa" using pa by (simp add: PTE_ADDR_def bit.conj_disj_distrib2)
  have "pa AND 0xFFF = 0" by (metis pa and.assoc bit.conj_cancel_left and_zero_eq)
  then show "PTE_FLAGS (pa OR f) = f" using f by (simp add: PTE_FLAGS_def bit.conj_disj_distrib2)
qed

subsection \<open>Entries of a table\<close>

lemma unat_entry:
  assumes "aligned p" "i < 1024"
  shows "unat (p + 4 * i) = unat p + 4 * unat i"
proof -
  have "4 * unat i < 4096" using assms(2) by (simp add: word_less_nat_alt)
  moreover have "p + 4 * i = p + of_nat (4 * unat i)" by simp
  ultimately show ?thesis using page_in_word [OF assms(1)] by metis
qed

lemma entry_bytes:
  assumes "aligned p" "i < 1024" "a \<in> {p + 4 * i, p + 4 * i + 1, p + 4 * i + 2, p + 4 * i + 3}"
  shows "unat a div 4 = unat p div 4 + unat i" "inside p 4096 a"
proof -
  have lt: "4 * unat i + 3 < 4096" using assms(2) by (simp add: word_less_nat_alt)
  obtain k where k: "k < 4" "a = p + of_nat (4 * unat i + k)"
    using assms(3) that [of 0] that [of 1] that [of 2] that [of 3] by (auto simp: add.assoc)
  have u: "unat a = unat p + (4 * unat i + k)"
    unfolding k(2) by (rule page_in_word [OF assms(1)]) (use lt k(1) in simp)
  obtain q where q: "unat p = 4096 * q" using page_base [OF assms(1)] by blast
  show "unat a div 4 = unat p div 4 + unat i" using u q k(1) by simp
  have "unat a div 4096 = unat p div 4096" using u q k(1) lt by simp
  then show "inside p 4096 a" by (simp add: inside_page [OF assms(1)])
qed

lemma load_store_entry:
  assumes "aligned p" "i < 1024" "j < 1024"
  shows "load32 (store32 m (p + 4 * i) w) (p + 4 * j) = (if i = j then w else load32 m (p + 4 * j))"
proof (cases "i = j")
  case False
  have "load32 (store32 m (p + 4 * i) w) (p + 4 * j) = load32 m (p + 4 * j)"
  proof (rule load32_cong)
    fix x assume x: "x \<in> {p + 4 * j, p + 4 * j + 1, p + 4 * j + 2, p + 4 * j + 3}"
    have "x \<notin> {p + 4 * i, p + 4 * i + 1, p + 4 * i + 2, p + 4 * i + 3}"
      using entry_bytes(1) [OF assms(1,2), of x] entry_bytes(1) [OF assms(1,3) x] False by (auto simp: word_unat_eq_iff)
    then show "store32 m (p + 4 * i) w x = m x" by (rule store32_other)
  qed
  with False show ?thesis by simp
qed simp

lemma page_frame_entry:
  assumes "aligned p" "i < 1024"
  shows "page_frame p m (store32 m (p + 4 * i) w)"
  unfolding page_frame_def
proof (intro allI impI)
  fix a assume "\<not> inside p 4096 a"
  then have "a \<notin> {p + 4 * i, p + 4 * i + 1, p + 4 * i + 2, p + 4 * i + 3}" using entry_bytes(2) [OF assms] by blast
  then show "store32 m (p + 4 * i) w a = m a" by (rule store32_other)
qed

lemma load_other_page:
  assumes "page_frame v m m'" "aligned v" "aligned p" "v \<noteq> p" "i < 1024"
  shows "load32 m' (p + 4 * i) = load32 m (p + 4 * i)"
proof (rule load32_cong)
  fix x assume "x \<in> {p + 4 * i, p + 4 * i + 1, p + 4 * i + 2, p + 4 * i + 3}"
  then have "inside p 4096 x" by (rule entry_bytes(2) [OF assms(3,5)])
  then have "\<not> inside v 4096 x" using pages_disjoint [OF assms(3,2)] assms(4) by blast
  with assms(1) show "m' x = m x" by (simp add: page_frame_def)
qed

lemma load_zeroed:
  assumes "aligned p" "i < 1024"
  shows "load32 (memset m p 0 PGSIZE) (p + 4 * i) = 0"
proof -
  have "memset m p 0 PGSIZE x = 0" if "x \<in> {p + 4 * i, p + 4 * i + 1, p + 4 * i + 2, p + 4 * i + 3}" for x
    using entry_bytes(2) [OF assms that] by (simp add: memset_eq PGSIZE_def)
  then have "load32 (memset m p 0 PGSIZE) (p + 4 * i) = load32 (\<lambda>_. 0) (p + 4 * i)" by (intro load32_cong) simp
  then show ?thesis by (simp add: load32_def un32_def)
qed

lemma page_frame_memset: "page_frame p m (memset m p c PGSIZE)"
  by (simp add: page_frame_def memset_eq PGSIZE_def)

subsection \<open>Page directories\<close>

definition present :: "memory \<Rightarrow> uint \<Rightarrow> uint \<Rightarrow> bool" where
  "present m pd i \<longleftrightarrow> load32 m (pd + 4 * i) AND PTE_P \<noteq> 0"

definition table :: "memory \<Rightarrow> uint \<Rightarrow> uint \<Rightarrow> uint" where
  "table m pd i = P2V (PTE_ADDR (load32 m (pd + 4 * i)))"

definition pgdir_ok :: "'a kmem_scheme \<Rightarrow> uint list \<Rightarrow> uint \<Rightarrow> bool" where
  "pgdir_ok s xs pd \<longleftrightarrow> page_ok (kend s) pd \<and> pd \<notin> set xs \<and>
     (\<forall>i < 1024. present (mem s) pd i \<longrightarrow>
        page_ok (kend s) (table (mem s) pd i) \<and> table (mem s) pd i \<notin> set xs \<and> table (mem s) pd i \<noteq> pd) \<and>
     (\<forall>i < 1024. \<forall>j < 1024. present (mem s) pd i \<longrightarrow> present (mem s) pd j \<longrightarrow>
        table (mem s) pd i = table (mem s) pd j \<longrightarrow> i = j)"

lemma pgdir_okD:
  assumes "pgdir_ok s xs pd"
  shows "aligned pd" "pd \<notin> set xs" "page_ok (kend s) pd"
    "i < 1024 \<Longrightarrow> present (mem s) pd i \<Longrightarrow> page_ok (kend s) (table (mem s) pd i)"
    "i < 1024 \<Longrightarrow> present (mem s) pd i \<Longrightarrow> table (mem s) pd i \<notin> set xs"
    "i < 1024 \<Longrightarrow> present (mem s) pd i \<Longrightarrow> table (mem s) pd i \<noteq> pd"
    "i < 1024 \<Longrightarrow> j < 1024 \<Longrightarrow> present (mem s) pd i \<Longrightarrow> present (mem s) pd j \<Longrightarrow>
       table (mem s) pd i = table (mem s) pd j \<Longrightarrow> i = j"
  using assms unfolding pgdir_ok_def page_ok_def by blast+

lemma table_aligned [simp]: "aligned (table m pd i)"
  by (simp add: table_def)

text \<open>The flags and the page of an entry: the translation, one step at a time.\<close>

definition pte_at :: "memory \<Rightarrow> uint \<Rightarrow> uint \<Rightarrow> uint" where
  "pte_at m pd va = load32 m (table m pd (PDX va) + 4 * PTX va)"

definition entry_map :: "uint \<Rightarrow> uint \<Rightarrow> (uint \<times> uint) option" where
  "entry_map e va = (if e AND PTE_P = 0 then None else Some (P2V (PTE_ADDR e) + (va AND 0xFFF), PTE_FLAGS e))"

lemma translate_eq:
  "translate m pd va = (if present m pd (PDX va) then entry_map (pte_at m pd va) va else None)"
  by (simp add: translate_def present_def pte_at_def table_def entry_map_def Let_def)

lemma same_pdes:
  assumes "\<And>i. i < 1024 \<Longrightarrow> load32 m' (pd + 4 * i) = load32 m (pd + 4 * i)" "i < 1024"
  shows "present m' pd i = present m pd i" "table m' pd i = table m pd i"
  using assms by (simp_all add: present_def table_def)

text \<open>A page that is neither free nor part of the directory may be written without effect on it.\<close>

lemma kmem_inv_mem:
  assumes "kmem_inv s xs" "page_frame v (mem s) m" "aligned v" "v \<notin> set xs"
  shows "kmem_inv (s\<lparr>mem := m\<rparr>) xs"
  using assms run_list_frame [OF assms(2-4)] by (simp add: kmem_inv_def page_ok_def)

lemma pgdir_ok_cong:
  assumes "pgdir_ok s xs pd" "kend t = kend s" "\<And>i. i < 1024 \<Longrightarrow> load32 (mem t) (pd + 4 * i) = load32 (mem s) (pd + 4 * i)"
    "set ys \<subseteq> set xs"
  shows "pgdir_ok t ys pd"
  using assms(1,2,4) unfolding pgdir_ok_def by (auto simp: same_pdes [of "mem t" pd "mem s", OF assms(3)])

lemma store_pte:
  assumes k: "kmem_inv s xs" and p: "pgdir_ok s xs pd" and pr: "present (mem s) pd (PDX va)"
    and t: "t = s\<lparr>mem := store32 (mem s) (table (mem s) pd (PDX va) + 4 * PTX va) e\<rparr>"
  shows "kmem_inv t xs" "pgdir_ok t xs pd"
    "translate (mem t) pd vb = (if unat vb div 4096 = unat va div 4096 then entry_map e vb else translate (mem s) pd vb)"
proof -
  note P = pgdir_okD [OF p]
  let ?T = "table (mem s) pd (PDX va)"
  have fr: "page_frame ?T (mem s) (mem t)" unfolding t by (simp add: page_frame_entry)
  have pde: "load32 (mem t) (pd + 4 * i) = load32 (mem s) (pd + 4 * i)" if "i < 1024" for i
    by (rule load_other_page [OF fr]) (use P(1,6) pr that in \<open>simp_all\<close>)
  show "kmem_inv t xs" using kmem_inv_mem [OF k fr] P(5) pr t by simp
  show "pgdir_ok t xs pd" by (rule pgdir_ok_cong [OF p]) (use pde t in simp_all)
  note S = same_pdes [OF pde]
  have e: "pte_at (mem t) pd vb = (if PDX vb = PDX va \<and> PTX vb = PTX va then e else pte_at (mem s) pd vb)"
    if v: "present (mem s) pd (PDX vb)"
  proof (cases "PDX vb = PDX va")
    case True
    then show ?thesis using S by (simp add: pte_at_def t load_store_entry eq_commute [of "PTX va"])
  next
    case False
    then have "?T \<noteq> table (mem s) pd (PDX vb)" using P(7) [of "PDX va" "PDX vb"] pr v by auto
    then show ?thesis using False S load_other_page [OF fr, of "table (mem s) pd (PDX vb)"] by (simp add: pte_at_def)
  qed
  show "translate (mem t) pd vb = (if unat vb div 4096 = unat va div 4096 then entry_map e vb else translate (mem s) pd vb)"
    using e S same_page [of vb va] pr by (auto simp: translate_eq)
qed

subsection \<open>Walking\<close>

lemma walkpgdir_found:
  assumes "present (mem s) pd (PDX va)"
  shows "walkpgdir pd va a s = Ret (table (mem s) pd (PDX va) + 4 * PTX va, s)"
  using assms by (simp add: walkpgdir_def present_def table_def)

lemma new_pde:
  assumes "aligned x"
  shows "PTE_ADDR (V2P x OR PTE_P OR PTE_W OR PTE_U) = V2P x" "(V2P x OR PTE_P OR PTE_W OR PTE_U) AND PTE_P \<noteq> 0"
proof -
  have f: "PTE_P OR PTE_W OR PTE_U = 7" by (simp add: PTE_P_def PTE_W_def PTE_U_def)
  have e: "V2P x OR PTE_P OR PTE_W OR PTE_U = V2P x OR 7" using f by (simp add: or.assoc)
  show "PTE_ADDR (V2P x OR PTE_P OR PTE_W OR PTE_U) = V2P x"
    unfolding e by (rule pte_fields) (use assms in simp_all)
  have "(V2P x OR 7) AND 1 \<noteq> 0" by (simp add: bit.conj_disj_distrib2 or_eq_0_iff)
  then show "(V2P x OR PTE_P OR PTE_W OR PTE_U) AND PTE_P \<noteq> 0" unfolding e by (simp add: PTE_P_def)
qed

lemma walkpgdir_new:
  assumes k: "kmem_inv s (x # xs)" and p: "pgdir_ok s (x # xs) pd" and np: "\<not> present (mem s) pd (PDX va)"
  obtains t where "walkpgdir pd va True s = Ret (x + 4 * PTX va, t)" "kmem_inv t xs" "pgdir_ok t xs pd"
    "present (mem t) pd (PDX va)" "table (mem t) pd (PDX va) = x" "translate (mem t) pd = translate (mem s) pd" "kend t = kend s"
proof -
  note P = pgdir_okD [OF p]
  let ?u = "kalloc_state s"
  have u: "kalloc s = Ret (x, ?u)" "kmem_inv ?u xs" "mem ?u = mem s" "kend ?u = kend s"
    using kalloc_Ret [of s] kmem_inv_kalloc [OF k] k by (simp_all add: kmem_inv_def kalloc_state_def)
  have x: "aligned x" "x \<noteq> 0" "x \<notin> set xs" "page_ok (kend s) x" "x \<noteq> pd"
    using k P(2) by (auto simp: kmem_inv_def page_ok_def)
  let ?e = "V2P x OR PTE_P OR PTE_W OR PTE_U" and ?m = "memset (mem s) x 0 PGSIZE"
  define t where "t = ?u\<lparr>mem := store32 ?m (pd + 4 * PDX va) ?e\<rparr>"
  have f1: "page_frame x (mem s) ?m" by (rule page_frame_memset)
  have f2: "page_frame pd ?m (mem t)" unfolding t_def by (simp add: page_frame_entry P(1))
  have pde: "load32 (mem t) (pd + 4 * i) = (if i = PDX va then ?e else load32 (mem s) (pd + 4 * i))" if "i < 1024" for i
    using load_other_page [OF f1 x(1) P(1) x(5) that] that by (auto simp: t_def load_store_entry P(1))
  have n: "present (mem t) pd i \<longleftrightarrow> i = PDX va \<or> present (mem s) pd i"
    "table (mem t) pd i = (if i = PDX va then x else table (mem s) pd i)" if "i < 1024" for i
    using pde [OF that] new_pde [OF x(1)] by (simp_all add: present_def table_def)
  have tl: "load32 (mem t) (q + 4 * i) = load32 ?m (q + 4 * i)" if "aligned q" "q \<noteq> pd" "i < 1024" for q i
    by (rule load_other_page [OF f2 P(1)]) (use that in auto)
  have "translate (mem t) pd vb = translate (mem s) pd vb" for vb
  proof (cases "PDX vb = PDX va")
    case True
    then have "pte_at (mem t) pd vb = 0" using n [of "PDX va"] tl [OF x(1,5)] load_zeroed [OF x(1)] by (simp add: pte_at_def)
    then show ?thesis using True np by (simp add: translate_eq entry_map_def)
  next
    case False
    have "pte_at (mem t) pd vb = pte_at (mem s) pd vb" if "present (mem s) pd (PDX vb)"
    proof -
      let ?q = "table (mem s) pd (PDX vb)"
      have "?q \<noteq> pd" "x \<noteq> ?q" using P(5,6) [of "PDX vb"] that by auto
      then show ?thesis using n [of "PDX vb"] False tl [of ?q] load_other_page [OF f1 x(1), of ?q] by (simp add: pte_at_def)
    qed
    then show ?thesis using n [of "PDX vb"] False by (simp add: translate_eq)
  qed
  moreover have "kmem_inv t xs"
  proof -
    have "kmem_inv (?u\<lparr>mem := ?m\<rparr>) xs" by (rule kmem_inv_mem [OF u(2), of x]) (use x f1 u in simp_all)
    from kmem_inv_mem [OF this, of pd "mem t"] f2 P(1,2) show ?thesis by (simp add: t_def)
  qed
  moreover have "pgdir_ok t xs pd"
    using p x n u(4) unfolding pgdir_ok_def t_def [symmetric]
    by (auto simp: t_def)
  moreover have "walkpgdir pd va True s = Ret (x + 4 * PTX va, t)"
    using np u x(2) by (simp add: walkpgdir_def present_def t_def Let_def)
  moreover have "kend t = kend s" by (simp add: t_def u(4))
  ultimately show thesis using that [of t] n [of "PDX va"] by (simp add: fun_eq_iff)
qed

lemma walkpgdir_alloc:
  assumes k: "kmem_inv s xs" and p: "pgdir_ok s xs pd" and room: "present (mem s) pd (PDX va) \<or> xs \<noteq> []"
  obtains t ys where "walkpgdir pd va True s = Ret (table (mem t) pd (PDX va) + 4 * PTX va, t)" "kmem_inv t ys" "pgdir_ok t ys pd"
    "present (mem t) pd (PDX va)" "translate (mem t) pd = translate (mem s) pd" "length xs \<le> Suc (length ys)"
proof (cases "present (mem s) pd (PDX va)")
  case True
  then show thesis using that [of s xs] walkpgdir_found [OF True] k p by simp
next
  case False
  with room obtain x ys where xs: "xs = x # ys" by (cases xs) auto
  obtain t where t: "walkpgdir pd va True s = Ret (x + 4 * PTX va, t)" "kmem_inv t ys" "pgdir_ok t ys pd"
    "present (mem t) pd (PDX va)" "table (mem t) pd (PDX va) = x" "translate (mem t) pd = translate (mem s) pd"
    by (rule walkpgdir_new [OF k [unfolded xs] p [unfolded xs] False])
  show thesis by (rule that [of t ys]) (use t xs in simp_all)
qed

lemma pte_nonzero:
  assumes "kmem_inv s xs" "pgdir_ok s xs pd" "present (mem s) pd (PDX va)"
  shows "table (mem s) pd (PDX va) + 4 * PTX va \<noteq> 0"
proof -
  have "kend s \<le> table (mem s) pd (PDX va)" "0 < kend s"
    using pgdir_okD(4) [OF assms(2), of "PDX va"] assms(1,3) by (simp_all add: page_ok_def kmem_inv_def)
  then have "0 < unat (table (mem s) pd (PDX va))" by (simp add: word_less_nat_alt word_le_nat_alt)
  then show ?thesis using unat_entry [of "table (mem s) pd (PDX va)" "PTX va"] by (auto simp: word_unat_eq_iff)
qed

subsection \<open>Mapping\<close>

text \<open>The address map with the pages from \<open>a\<close> on, \<open>n\<close> of them, sent to the physical pages from \<open>pa\<close> on.\<close>

definition map_range :: "uint \<Rightarrow> nat \<Rightarrow> uint \<Rightarrow> uint \<Rightarrow> (uint \<Rightarrow> (uint \<times> uint) option) \<Rightarrow> uint \<Rightarrow> (uint \<times> uint) option" where
  "map_range a n pa fl f va =
     (if unat a \<le> unat va \<and> unat va < unat a + 4096 * n then Some (P2V pa + (va - a), fl) else f va)"

lemma page_div:
  assumes "aligned a"
  shows "unat v div 4096 = unat a div 4096 \<longleftrightarrow> unat a \<le> unat v \<and> unat v < unat a + 4096"
proof -
  obtain q where q: "unat a = 4096 * q" using page_base [OF assms] by blast
  have "unat v div 4096 = q \<longleftrightarrow> 4096 * q \<le> unat v \<and> unat v < 4096 * q + 4096"
    using div_nat_eqI [of 4096 q "unat v"] times_div_less_eq_dividend [of 4096 "unat v"] dividend_less_times_div [of 4096 "unat v"]
    by auto
  then show ?thesis using q by simp
qed

lemma page_offset:
  assumes "aligned a" "unat v div 4096 = unat a div 4096"
  shows "v AND 0xFFF = v - a"
proof -
  have "unat a \<le> unat v" using page_div [OF assms(1), of v] assms(2) by simp
  then have "unat (v - a) = unat v - unat a" by (simp add: unat_sub word_le_nat_alt)
  also have "\<dots> = unat v mod 4096"
    using page_base [OF assms(1)] assms(2) div_mult_mod_eq [of "unat v" 4096] by simp
  finally show ?thesis by (simp add: word_unat_eq_iff unat_mask)
qed

lemma map_one:
  assumes "aligned a" "aligned pa" "unat fl < 4096"
  shows "(\<lambda>vb. if unat vb div 4096 = unat a div 4096 then entry_map (pa OR fl OR PTE_P) vb else f vb) =
    map_range a 1 pa (fl OR PTE_P) f"
proof (rule ext)
  fix vb
  have "fl = take_bit 12 fl" using assms(3) by (simp add: word_unat_eq_iff take_bit_eq_mod unat_mod)
  then have "fl OR PTE_P = take_bit 12 (fl OR PTE_P)" by (simp add: PTE_P_def take_bit_or)
  then have "unat (fl OR PTE_P) = unat (take_bit 12 (fl OR PTE_P))" by (rule arg_cong)
  also have "\<dots> < 4096" by (simp add: take_bit_eq_mod unat_mod)
  finally have fl12: "unat (fl OR PTE_P) < 4096" .
  have p: "(pa OR fl OR PTE_P) AND PTE_P \<noteq> 0"
  proof
    assume z: "(pa OR fl OR PTE_P) AND PTE_P = 0"
    have "bit ((pa OR fl OR PTE_P) AND PTE_P) 0" by (simp only: bit_and_iff bit_or_iff) (simp add: PTE_P_def)
    then show False unfolding z by simp
  qed
  show "(if unat vb div 4096 = unat a div 4096 then entry_map (pa OR fl OR PTE_P) vb else f vb) =
      map_range a 1 pa (fl OR PTE_P) f vb"
  proof (cases "unat vb div 4096 = unat a div 4096")
    case True
    then show ?thesis
      using pte_fields [OF assms(2) fl12] page_div [OF assms(1), of vb] page_offset [OF assms(1) True] p
      by (simp add: map_range_def entry_map_def)
  next
    case False
    then have "\<not> (unat a \<le> unat vb \<and> unat vb < unat a + 4096 * 1)" using page_div [OF assms(1), of vb] by simp
    then show ?thesis using False by (simp only: map_range_def if_False)
  qed
qed

lemma map_range_Suc:
  assumes "unat a + 4096 * Suc n \<le> 2 ^ 32"
  shows "map_range (a + 4096) n (pa + 4096) fl (map_range a 1 pa fl f) = map_range a (Suc n) pa fl f"
proof (cases "n = 0")
  case True
  then show ?thesis by (auto simp: map_range_def fun_eq_iff)
next
  case False
  then have "unat (a + 4096) = unat a + 4096" using assms by (simp add: unat_word_ariths)
  then show ?thesis by (auto simp: map_range_def fun_eq_iff P2V_def algebra_simps)
qed

lemma map_round:
  assumes s: "kmem_inv s xs" "pgdir_ok s xs pd" "xs \<noteq> []" and a: "aligned a" "aligned pa" "unat fl < 4096"
    and free: "translate (mem s) pd a = None"
  obtains pte u t ys where "walkpgdir pd a True s = Ret (pte, u)" "pte \<noteq> 0" "load32 (mem u) pte AND PTE_P = 0"
    "t = u\<lparr>mem := store32 (mem u) pte (pa OR fl OR PTE_P)\<rparr>" "kmem_inv t ys" "pgdir_ok t ys pd" "length xs \<le> Suc (length ys)"
    "translate (mem t) pd = map_range a 1 pa (fl OR PTE_P) (translate (mem s) pd)"
proof -
  obtain u ys where u: "walkpgdir pd a True s = Ret (table (mem u) pd (PDX a) + 4 * PTX a, u)" "kmem_inv u ys" "pgdir_ok u ys pd"
    "present (mem u) pd (PDX a)" "translate (mem u) pd = translate (mem s) pd" "length xs \<le> Suc (length ys)"
    using walkpgdir_alloc [OF s(1,2), of a] s(3) by metis
  let ?p = "table (mem u) pd (PDX a) + 4 * PTX a"
  have "load32 (mem u) ?p AND PTE_P = 0"
    using free u(4) unfolding u(5) [symmetric] by (simp add: translate_eq entry_map_def pte_at_def split: if_splits)
  moreover note S = store_pte [OF u(2-4) refl, of "pa OR fl OR PTE_P"]
  moreover have "translate (mem (u\<lparr>mem := store32 (mem u) ?p (pa OR fl OR PTE_P)\<rparr>)) pd = map_range a 1 pa (fl OR PTE_P) (translate (mem s) pd)"
    unfolding map_one [OF a, symmetric] u(5) [symmetric] by (rule ext) (rule S(3))
  ultimately show thesis using that [OF u(1) pte_nonzero [OF u(2-4)] _ refl] u(6) by blast
qed

lemma mappages_loop_ok:
  assumes "kmem_inv s xs" "pgdir_ok s xs pd" "n < length xs" "aligned a" "aligned pa" "unat fl < 4096"
    "unat a + 4096 * Suc n \<le> 2 ^ 32" "\<And>k. k \<le> n \<Longrightarrow> translate (mem s) pd (a + of_nat (4096 * k)) = None"
  shows "\<exists>t ys. mappages_loop n pd a pa fl s = Ret (0, t) \<and> kmem_inv t ys \<and> pgdir_ok t ys pd \<and>
    translate (mem t) pd = map_range a (Suc n) pa (fl OR PTE_P) (translate (mem s) pd)"
  using assms
proof (induction n arbitrary: a pa s xs)
  case (0 a pa s xs)
  then have "xs \<noteq> []" "translate (mem s) pd a = None" using "0.prems"(8) [of 0] by auto
  from map_round [OF 0(1,2) this(1) 0(4-6) this(2)] obtain pte u t ys where
    u: "walkpgdir pd a True s = Ret (pte, u)" "pte \<noteq> 0" "load32 (mem u) pte AND PTE_P = 0"
    "t = u\<lparr>mem := store32 (mem u) pte (pa OR fl OR PTE_P)\<rparr>" "kmem_inv t ys" "pgdir_ok t ys pd"
    "translate (mem t) pd = map_range a 1 pa (fl OR PTE_P) (translate (mem s) pd)" by metis
  then show ?case by (intro exI [of _ t] exI [of _ ys]) (simp add: mappages_loop.simps [of 0])
next
  case (Suc n a pa s xs)
  have "xs \<noteq> []" "translate (mem s) pd a = None" using Suc.prems(3) Suc.prems(8) [of 0] by auto
  from map_round [OF Suc.prems(1,2) this(1) Suc.prems(4-6) this(2)] obtain pte u t ys where
    u: "walkpgdir pd a True s = Ret (pte, u)" "pte \<noteq> 0" "load32 (mem u) pte AND PTE_P = 0"
    "t = u\<lparr>mem := store32 (mem u) pte (pa OR fl OR PTE_P)\<rparr>" "kmem_inv t ys" "pgdir_ok t ys pd" "length xs \<le> Suc (length ys)"
    "translate (mem t) pd = map_range a 1 pa (fl OR PTE_P) (translate (mem s) pd)" by metis
  have ua: "unat (a + 4096) = unat a + 4096" using Suc.prems(7) by (simp add: unat_word_ariths)
  have "unat (pa + 4096) mod 4096 = unat pa mod 4096" by (simp add: unat_word_ariths mod_mod_cancel)
  then have al: "aligned (a + 4096)" "aligned (pa + 4096)" using ua Suc.prems(4,5) by simp_all
  have free: "translate (mem t) pd (a + 4096 + of_nat (4096 * k)) = None" if "k \<le> n" for k
  proof -
    have "unat (a + 4096 + of_nat (4096 * k)) = unat a + 4096 + 4096 * k"
      using Suc.prems(7) that by (simp add: unat_word_ariths ua unat_of_nat)
    moreover have "translate (mem s) pd (a + of_nat (4096 * Suc k)) = None" using Suc.prems(8) [of "Suc k"] that by simp
    ultimately show ?thesis unfolding u(8) by (simp add: map_range_def algebra_simps)
  qed
  have "\<exists>v zs. mappages_loop n pd (a + 4096) (pa + 4096) fl t = Ret (0, v) \<and> kmem_inv v zs \<and> pgdir_ok v zs pd \<and>
      translate (mem v) pd = map_range (a + 4096) (Suc n) (pa + 4096) (fl OR PTE_P) (translate (mem t) pd)"
    by (rule Suc.IH [OF u(5,6) _ al Suc.prems(6) _ free]) (use Suc.prems(3,7) u(7) ua in simp_all)
  then obtain v zs where v: "mappages_loop n pd (a + 4096) (pa + 4096) fl t = Ret (0, v)" "kmem_inv v zs" "pgdir_ok v zs pd"
    "translate (mem v) pd = map_range (a + 4096) (Suc n) (pa + 4096) (fl OR PTE_P) (translate (mem t) pd)" by blast
  have "mappages_loop (Suc n) pd a pa fl s = Ret (0, v)"
    using u(1-4) v(1) by (subst mappages_loop.simps) (simp add: PGSIZE_def)
  moreover have "translate (mem v) pd = map_range a (Suc (Suc n)) pa (fl OR PTE_P) (translate (mem s) pd)"
    unfolding v(4) u(8) by (rule map_range_Suc [OF Suc.prems(7)])
  ultimately show ?case using v(2,3) by blast
qed

lemma remap_now:
  assumes "kmem_inv s xs" "pgdir_ok s xs pd" "translate (mem s) pd a \<noteq> None"
  shows "mappages_loop n pd a pa fl s = Panic ''remap''"
proof -
  have p: "present (mem s) pd (PDX a)" "pte_at (mem s) pd a AND PTE_P \<noteq> 0"
    using assms(3) by (auto simp: translate_eq entry_map_def split: if_splits)
  then show ?thesis
    using pte_nonzero [OF assms(1,2) p(1)] walkpgdir_found [OF p(1), of True]
    by (subst mappages_loop.simps) (simp add: pte_at_def)
qed

lemma mappages_loop_remap:
  assumes "kmem_inv s xs" "pgdir_ok s xs pd" "n < length xs" "aligned a" "aligned pa" "unat fl < 4096"
    "unat a + 4096 * Suc n \<le> 2 ^ 32" "k \<le> n" "translate (mem s) pd (a + of_nat (4096 * k)) \<noteq> None"
  shows "mappages_loop n pd a pa fl s = Panic ''remap''"
  using assms
proof (induction n arbitrary: a pa s xs k)
  case 0
  then show ?case using remap_now [OF 0(1,2)] by simp
next
  case (Suc n a pa s xs k)
  show ?case
  proof (cases "translate (mem s) pd a = None")
    case False
    then show ?thesis by (rule remap_now [OF Suc.prems(1,2)])
  next
    case True
    then obtain j where k: "k = Suc j" using Suc.prems(9) by (cases k) auto
    have "xs \<noteq> []" using Suc.prems(3) by auto
    from map_round [OF Suc.prems(1,2) this Suc.prems(4-6) True] obtain pte u t ys where
      u: "walkpgdir pd a True s = Ret (pte, u)" "pte \<noteq> 0" "load32 (mem u) pte AND PTE_P = 0"
      "t = u\<lparr>mem := store32 (mem u) pte (pa OR fl OR PTE_P)\<rparr>" "kmem_inv t ys" "pgdir_ok t ys pd" "length xs \<le> Suc (length ys)"
      "translate (mem t) pd = map_range a 1 pa (fl OR PTE_P) (translate (mem s) pd)" by metis
    have ua: "unat (a + 4096) = unat a + 4096" using Suc.prems(7) by (simp add: unat_word_ariths)
    have "unat (pa + 4096) mod 4096 = unat pa mod 4096" by (simp add: unat_word_ariths mod_mod_cancel)
    then have al: "aligned (a + 4096)" "aligned (pa + 4096)" using ua Suc.prems(4,5) by simp_all
    have e: "a + 4096 + of_nat (4096 * j) = a + of_nat (4096 * k)" by (simp add: k)
    have "unat (a + 4096 + of_nat (4096 * j)) = unat a + 4096 + 4096 * j"
      using Suc.prems(7,8) k by (simp add: unat_word_ariths ua unat_of_nat)
    then have "translate (mem t) pd (a + 4096 + of_nat (4096 * j)) \<noteq> None"
      using Suc.prems(9) unfolding u(8) e by (auto simp: map_range_def)
    then have "mappages_loop n pd (a + 4096) (pa + 4096) fl t = Panic ''remap''"
      using Suc.IH [OF u(5,6) _ al Suc.prems(6), of j] Suc.prems(3,7,8) u(7) ua k by simp
    then show ?thesis using u(1-4) by (subst mappages_loop.simps) (simp add: PGSIZE_def)
  qed
qed

lemma mappages_rounds:
  assumes "aligned va" "0 < n" "unat va + 4096 * n \<le> 2 ^ 32"
  shows "mappages pd va (of_nat (4096 * n)) pa fl s = mappages_loop (n - 1) pd va pa fl s"
proof -
  have down: "PGROUNDDOWN va = va" using assms(1) by (simp add: word_unat_eq_iff unat_PGROUNDDOWN page_base [symmetric])
  let ?l = "va + of_nat (4096 * n) - 1"
  have l: "?l = va + of_nat (4096 * n - 1)" using assms(2) by (simp add: of_nat_diff)
  have "unat ?l = unat va + (4096 * n - 1)"
    unfolding l by (rule unat_add_of_nat) (use assms(2,3) in simp)
  moreover obtain q where q: "unat va = 4096 * q" using page_base [OF assms(1)] by blast
  moreover obtain m where m: "n = Suc m" using assms(2) by (cases n) auto
  ultimately have "unat ?l div 4096 = q + m" by simp
  then have "unat (PGROUNDDOWN ?l) = unat va + 4096 * m" using q by (simp add: unat_PGROUNDDOWN)
  then have "unat (PGROUNDDOWN ?l - va) = 4096 * m" by (simp add: unat_sub word_le_nat_alt)
  then show ?thesis by (simp add: mappages_def Let_def down m PGSIZE_def)
qed

text \<open>
  C5.  \<^verbatim>\<open>mappages\<close> refines updating an address map: if none of the pages is mapped and enough memory is
  free for page tables, the hardware then translates the addresses of the range to the physical range with
  the given permissions, and every other address as before; the page directory stays well formed
  and the allocator consistent.  If a page of the range is mapped, it panics.
\<close>

theorem mappages_maps:
  assumes "kmem_inv s xs" "pgdir_ok s xs pd" "aligned va" "aligned pa" "unat fl < 4096" "0 < n" "n \<le> length xs"
    "unat va + 4096 * n \<le> 2 ^ 32"
  shows "if \<forall>k < n. translate (mem s) pd (va + of_nat (4096 * k)) = None
    then \<exists>t ys. mappages pd va (of_nat (4096 * n)) pa fl s = Ret (0, t) \<and> kmem_inv t ys \<and> pgdir_ok t ys pd \<and>
      (\<forall>vb. translate (mem t) pd vb =
        (if unat va \<le> unat vb \<and> unat vb < unat va + 4096 * n then Some (P2V pa + (vb - va), fl OR PTE_P)
         else translate (mem s) pd vb))
    else mappages pd va (of_nat (4096 * n)) pa fl s = Panic ''remap''"
proof (cases "\<forall>k < n. translate (mem s) pd (va + of_nat (4096 * k)) = None")
  case True
  have sn: "Suc (n - 1) = n" using assms(6) by simp
  have "\<exists>t ys. mappages_loop (n - 1) pd va pa fl s = Ret (0, t) \<and> kmem_inv t ys \<and> pgdir_ok t ys pd \<and>
      translate (mem t) pd = map_range va (Suc (n - 1)) pa (fl OR PTE_P) (translate (mem s) pd)"
    by (rule mappages_loop_ok [OF assms(1,2) _ assms(3-5)]) (use assms(6-8) True sn in auto)
  then obtain t ys where t: "mappages pd va (of_nat (4096 * n)) pa fl s = Ret (0, t)" "kmem_inv t ys" "pgdir_ok t ys pd"
    "translate (mem t) pd = map_range va n pa (fl OR PTE_P) (translate (mem s) pd)"
    unfolding sn mappages_rounds [OF assms(3,6,8)] by blast
  show ?thesis
    unfolding if_P [OF True] by (intro exI conjI) (rule t, rule t, rule t, simp add: t(4) map_range_def)
next
  case False
  then obtain k where "k < n" "translate (mem s) pd (va + of_nat (4096 * k)) \<noteq> None" by blast
  then have "mappages_loop (n - 1) pd va pa fl s = Panic ''remap''"
    using mappages_loop_remap [OF assms(1,2) _ assms(3-5), of "n - 1" k] assms(6-8) by simp
  then show ?thesis unfolding if_not_P [OF False] mappages_rounds [OF assms(3,6,8)] .
qed

text \<open>An empty page directory, with two free pages.\<close>

definition vm0 :: kmem where
  "vm0 = kfree_state 0x80110000 (kfree_state 0x80111000 kmem0)"

lemma vm0_props:
  "kmem_inv vm0 [0x80110000, 0x80111000]" "pgdir_ok vm0 [0x80110000, 0x80111000] 0x80112000"
  "translate (mem vm0) 0x80112000 va = None"
proof -
  show "kmem_inv vm0 [0x80110000, 0x80111000]" unfolding vm0_def by (rule kmem_inv_example)
  let ?t = "kfree_state 0x80111000 kmem0"
  have f: "page_frame 0x80111000 (mem kmem0) (mem ?t)" "page_frame 0x80110000 (mem ?t) (mem vm0)"
    unfolding vm0_def kfree_state_def by (simp_all add: page_frame_kfree)
  have z: "load32 (mem vm0) (0x80112000 + 4 * i) = 0" if "i < 1024" for i
  proof -
    have "load32 (mem vm0) (0x80112000 + 4 * i) = load32 (mem ?t) (0x80112000 + 4 * i)"
      by (rule load_other_page [OF f(2)]) (use that in simp_all)
    also have "\<dots> = load32 (mem kmem0) (0x80112000 + 4 * i)" by (rule load_other_page [OF f(1)]) (use that in simp_all)
    finally show ?thesis by (simp add: kmem0_def load32_def un32_def)
  qed
  then have np: "\<not> present (mem vm0) 0x80112000 i" if "i < 1024" for i using that by (simp add: present_def)
  have "kend vm0 = 0x80110000" by (simp add: vm0_def kfree_state_def kmem0_ok)
  then show "pgdir_ok vm0 [0x80110000, 0x80111000] 0x80112000"
    using np by (simp add: pgdir_ok_def page_ok_def V2P_def const_simps)
  show "translate (mem vm0) 0x80112000 va = None" using np by (simp add: translate_eq)
qed

theorem mappages_maps_witness:
  "\<exists>t. mappages 0x80112000 0x5000 0x1000 0x200000 PTE_W vm0 = Ret (0, t) \<and>
     translate (mem t) 0x80112000 0x5123 = Some (0x80200123, PTE_W OR PTE_P) \<and> translate (mem t) 0x80112000 0x6000 = None"
proof -
  have "\<forall>k < 1. translate (mem vm0) 0x80112000 (0x5000 + of_nat (4096 * k)) = None" by (simp add: vm0_props)
  note e = if_P [OF this]
  have "unat PTE_W < 4096" by (simp add: PTE_W_def)
  then obtain t where t: "mappages 0x80112000 0x5000 (of_nat (4096 * 1)) 0x200000 PTE_W vm0 = Ret (0, t)"
    "\<forall>vb. translate (mem t) 0x80112000 vb =
        (if unat (0x5000 :: uint) \<le> unat vb \<and> unat vb < unat (0x5000 :: uint) + 4096 * 1
         then Some (P2V 0x200000 + (vb - 0x5000), PTE_W OR PTE_P) else translate (mem vm0) 0x80112000 vb)"
    using mappages_maps [OF vm0_props(1,2), of "0x5000" "0x200000" PTE_W 1, unfolded e] by auto
  have "translate (mem t) 0x80112000 0x5123 = Some (0x80200123, PTE_W OR PTE_P)" "translate (mem t) 0x80112000 0x6000 = None"
    unfolding t(2) [rule_format] by (simp_all add: vm0_props P2V_def KERNBASE_def)
  then show ?thesis using t(1) by (intro exI [of _ t]) simp
qed

end
