(* ===== verification/Sh.thy ===== *)
theory Sh
  imports Prelude
begin

text \<open>
  The parser of the shell (\<^verbatim>\<open>sh.c\<close>).  A pointer into the line is the list of bytes from it up to the
  terminating NUL, so that \<^verbatim>\<open>es\<close> is the empty list; the bytes between two pointers are the first without its
  last part.  The commands are the C structures; a word is its two pointers.  A call of
  \<^verbatim>\<open>panic\<close> ends the shell and is the outcome \<open>Syntax\<close>.  The parser's functions call each other; they carry
  a count of nested calls, and \<open>Deep\<close> is the outcome when it is used up, which the count
  that \<^verbatim>\<open>parsecmd\<close> starts with excludes.
\<close>

subsection \<open>Commands\<close>

definition MAXARGS :: nat where "MAXARGS = 10"

type_synonym word_ptr = "uchar list \<times> uchar list"

datatype 'w cmd =
    EXEC "'w list"
  | REDIR "'w cmd" 'w uint int
  | PIPE "'w cmd" "'w cmd"
  | LIST "'w cmd" "'w cmd"
  | BACK "'w cmd"

datatype 'a parse = Parsed 'a | Syntax string | Deep

primrec pbind :: "'a parse \<Rightarrow> ('a \<Rightarrow> 'b parse) \<Rightarrow> 'b parse" where
  "pbind (Parsed x) f = f x"
| "pbind (Syntax m) f = Syntax m"
| "pbind Deep f = Deep"

lemma pbind_cong [fundef_cong]:
  "m = m' \<Longrightarrow> (\<And>x. m' = Parsed x \<Longrightarrow> f x = g x) \<Longrightarrow> pbind m f = pbind m' g"
  by (cases m') simp_all

subsection \<open>Tokens\<close>

text \<open>The strings \<^verbatim>\<open>whitespace\<close> and \<^verbatim>\<open>symbols\<close>.\<close>

definition whitespace :: "uchar list" where "whitespace = [0x20, 0x09, 0x0D, 0x0A, 0x0B]"
definition symbols :: "uchar list" where "symbols = [0x3C, 0x7C, 0x3E, 0x26, 0x3B, 0x28, 0x29]"

definition skip_ws :: "uchar list \<Rightarrow> uchar list" where
  "skip_ws s = dropWhile (\<lambda>c. c \<in> set whitespace) s"

definition word_char :: "uchar \<Rightarrow> bool" where
  "word_char c \<longleftrightarrow> c \<notin> set whitespace \<and> c \<notin> set symbols"

text \<open>The token, its first and last pointer, and the rest of the line.\<close>

definition gettoken :: "uchar list \<Rightarrow> uchar \<times> uchar list \<times> uchar list \<times> uchar list" where
  "gettoken s =
     (let q = skip_ws s
      in case q of
           [] \<Rightarrow> (0, q, q, q)
         | c # r \<Rightarrow>
             if c \<in> {0x7C, 0x28, 0x29, 0x3B, 0x26, 0x3C} then (c, q, r, skip_ws r)
             else if c = 0x3E
             then (if r \<noteq> [] \<and> hd r = 0x3E then (0x2B, q, tl r, skip_ws (tl r)) else (c, q, r, skip_ws r))
             else let e = dropWhile word_char q in (0x61, q, e, skip_ws e))"

definition peek :: "uchar list \<Rightarrow> uchar list \<Rightarrow> bool \<times> uchar list" where
  "peek s toks = (let s = skip_ws s in (s \<noteq> [] \<and> hd s \<in> set toks, s))"

abbreviation after_token :: "uchar list \<Rightarrow> uchar list" where
  "after_token s \<equiv> snd (snd (snd (gettoken s)))"

abbreviation tok_of :: "uchar list \<Rightarrow> uchar" where
  "tok_of s \<equiv> fst (gettoken s)"

abbreviation word_of :: "uchar list \<Rightarrow> word_ptr" where
  "word_of s \<equiv> (fst (snd (gettoken s)), fst (snd (snd (gettoken s))))"

lemma skip_ws_length: "length (skip_ws s) \<le> length s"
  by (simp add: skip_ws_def length_dropWhile_le)

lemma skip_ws_hd: "skip_ws s \<noteq> [] \<Longrightarrow> hd (skip_ws s) \<notin> set whitespace"
  unfolding skip_ws_def by (rule hd_dropWhile)

lemma gettoken_length: "skip_ws s \<noteq> [] \<Longrightarrow> length (after_token s) < length (skip_ws s)"
proof -
  assume ne: "skip_ws s \<noteq> []"
  then obtain c r where q: "skip_ws s = c # r" by (cases "skip_ws s") auto
  have c: "c \<notin> set whitespace" using skip_ws_hd [OF ne] q by simp
  have r: "length (skip_ws r) \<le> length r" "length (skip_ws (tl r)) \<le> length r"
    using skip_ws_length [of r] skip_ws_length [of "tl r"] by simp_all
  have w: "word_char c" if "\<not> c \<in> {0x7C, 0x28, 0x29, 0x3B, 0x26, 0x3C}" "c \<noteq> 0x3E"
    using that c by (auto simp: word_char_def symbols_def)
  have d: "length (skip_ws (dropWhile word_char r)) \<le> length r"
    by (rule order.trans [OF skip_ws_length length_dropWhile_le])
  show ?thesis using q r d w by (auto simp: gettoken_def Let_def)
qed

lemma gettoken_le: "length (after_token s) \<le> length s"
proof (cases "skip_ws s = []")
  case True
  then show ?thesis by (simp add: gettoken_def)
next
  case False
  then show ?thesis using gettoken_length [of s] skip_ws_length [of s] by simp
qed

lemma peek_length: "fst (peek s toks) \<Longrightarrow> length (after_token (snd (peek s toks))) < length s"
proof -
  assume "fst (peek s toks)"
  then have ne: "skip_ws s \<noteq> []" by (simp add: peek_def Let_def)
  have "skip_ws (skip_ws s) = skip_ws s" by (simp add: skip_ws_def dropWhile_idem)
  then show ?thesis using gettoken_length [of "skip_ws s"] skip_ws_length [of s] ne by (simp add: peek_def Let_def)
qed

lemma peek_le: "length (snd (peek s toks)) \<le> length s"
  by (simp add: peek_def Let_def skip_ws_length)

subsection \<open>The parser\<close>

definition O_RDONLY_sh :: uint where "O_RDONLY_sh = 0"
definition O_WRONLY_CREATE :: uint where "O_WRONLY_CREATE = 0x001 OR 0x200"

text \<open>A redirection: the file, the mode, and the file descriptor.  \<^verbatim>\<open>>>\<close> opens the file like \<^verbatim>\<open>>\<close>.\<close>

type_synonym 'w redir = "'w \<times> uint \<times> int"

definition redir_of :: "uchar \<Rightarrow> 'w \<Rightarrow> 'w redir" where
  "redir_of tok w = (if tok = 0x3C then (w, O_RDONLY_sh, 0) else (w, O_WRONLY_CREATE, 1))"

definition redircmds :: "'w cmd \<Rightarrow> 'w redir list \<Rightarrow> 'w cmd" where
  "redircmds c rs = foldl (\<lambda>c (w, mode, fd). REDIR c w mode fd) c rs"

function parseredirs :: "uchar list \<Rightarrow> (word_ptr redir list \<times> uchar list) parse" where
  "parseredirs s =
     (let s1 = snd (peek s [0x3C, 0x3E])
      in if fst (peek s [0x3C, 0x3E])
         then let tok = tok_of s1; s2 = after_token s1
           in if tok_of s2 \<noteq> 0x61 then Syntax ''missing file for redirection''
              else pbind (parseredirs (after_token s2)) (\<lambda>(rs, s). Parsed (redir_of tok (word_of s2) # rs, s))
         else Parsed ([], s1))"
  by pat_completeness auto
termination
proof (relation "measure length", goal_cases)
  case (2 s s1 tok s2)
  then show ?case using peek_length [of s "[0x3C, 0x3E]"] gettoken_le [of s2] by simp
qed simp

declare parseredirs.simps [simp del]

lemma pbind_eq_Parsed: "pbind m f = Parsed y \<longleftrightarrow> (\<exists>x. m = Parsed x \<and> f x = Parsed y)"
  by (cases m) simp_all

text \<open>The loop of \<^verbatim>\<open>parseexec\<close>; \<open>argc\<close> words have been found.\<close>

function parseargs :: "nat \<Rightarrow> uchar list \<Rightarrow> (word_ptr list \<times> word_ptr redir list \<times> uchar list) parse" where
  "parseargs argc s =
     (let s1 = snd (peek s [0x7C, 0x29, 0x26, 0x3B])
      in if fst (peek s [0x7C, 0x29, 0x26, 0x3B]) then Parsed ([], [], s1)
         else if tok_of s1 = 0 then Parsed ([], [], after_token s1)
         else if tok_of s1 \<noteq> 0x61 then Syntax ''syntax''
         else if Suc argc \<ge> MAXARGS then Syntax ''too many args''
         else pbind (parseredirs (after_token s1)) (\<lambda>(rs, s).
           pbind (parseargs (Suc argc) s) (\<lambda>(ws, rs', s). Parsed (word_of s1 # ws, rs @ rs', s))))"
  by pat_completeness auto
termination by (relation "measure (\<lambda>(argc, s). MAXARGS - argc)") auto

declare parseargs.simps [simp del]

text \<open>The loop of \<^verbatim>\<open>parseline\<close> over the tokens \<^verbatim>\<open>&\<close>.\<close>

function parsebacks :: "'w cmd \<Rightarrow> uchar list \<Rightarrow> 'w cmd \<times> uchar list" where
  "parsebacks c s =
     (let s1 = snd (peek s [0x26])
      in if fst (peek s [0x26]) then parsebacks (BACK c) (after_token s1) else (c, s1))"
  by pat_completeness auto
termination
proof (relation "measure (\<lambda>(c, s). length s)", goal_cases)
  case (2 c s s1)
  then show ?case using peek_length [of s "[0x26]"] by simp
qed simp

declare parsebacks.simps [simp del]

fun parseline :: "nat \<Rightarrow> uchar list \<Rightarrow> (word_ptr cmd \<times> uchar list) parse"
  and parsepipe :: "nat \<Rightarrow> uchar list \<Rightarrow> (word_ptr cmd \<times> uchar list) parse"
  and parseexec :: "nat \<Rightarrow> uchar list \<Rightarrow> (word_ptr cmd \<times> uchar list) parse"
  and parseblock :: "nat \<Rightarrow> uchar list \<Rightarrow> (word_ptr cmd \<times> uchar list) parse" where
  "parseline 0 s = Deep"
| "parseline (Suc n) s =
     pbind (parsepipe n s) (\<lambda>(c, s).
     case parsebacks c s of (c, s) \<Rightarrow>
       let s1 = snd (peek s [0x3B])
       in if fst (peek s [0x3B])
          then pbind (parseline n (after_token s1)) (\<lambda>(d, s). Parsed (LIST c d, s))
          else Parsed (c, s1))"
| "parsepipe 0 s = Deep"
| "parsepipe (Suc n) s =
     pbind (parseexec n s) (\<lambda>(c, s).
     let s1 = snd (peek s [0x7C])
     in if fst (peek s [0x7C])
        then pbind (parsepipe n (after_token s1)) (\<lambda>(d, s). Parsed (PIPE c d, s))
        else Parsed (c, s1))"
| "parseexec 0 s = Deep"
| "parseexec (Suc n) s =
     (let s1 = snd (peek s [0x28])
      in if fst (peek s [0x28]) then parseblock n s1
         else pbind (parseredirs s1) (\<lambda>(rs, s).
           pbind (parseargs 0 s) (\<lambda>(ws, rs', s). Parsed (redircmds (EXEC ws) (rs @ rs'), s))))"
| "parseblock 0 s = Deep"
| "parseblock (Suc n) s =
     (let s1 = snd (peek s [0x28])
      in if \<not> fst (peek s [0x28]) then Syntax ''parseblock''
         else pbind (parseline n (after_token s1)) (\<lambda>(c, s).
           let s1 = snd (peek s [0x29])
           in if \<not> fst (peek s [0x29]) then Syntax ''syntax - missing )''
              else pbind (parseredirs (after_token s1)) (\<lambda>(rs, s). Parsed (redircmds c rs, s))))"

text \<open>
  \<^verbatim>\<open>nulterminate\<close> stores a NUL at the end of every word, in the buffer that holds the line \<open>b\<close> and its NUL; \<open>b\<close>
  gives the position of a pointer.
\<close>

definition put_nul :: "uchar list \<Rightarrow> uchar list \<Rightarrow> uchar list \<Rightarrow> uchar list" where
  "put_nul b p buf = buf[length b - length p := 0]"

primrec nulterminate :: "uchar list \<Rightarrow> word_ptr cmd \<Rightarrow> uchar list \<Rightarrow> uchar list" where
  "nulterminate b (EXEC ws) buf = fold (\<lambda>(q, eq). put_nul b eq) ws buf"
| "nulterminate b (REDIR c w mode fd) buf = put_nul b (snd w) (nulterminate b c buf)"
| "nulterminate b (PIPE l r) buf = nulterminate b r (nulterminate b l buf)"
| "nulterminate b (LIST l r) buf = nulterminate b r (nulterminate b l buf)"
| "nulterminate b (BACK c) buf = nulterminate b c buf"

text \<open>\<^verbatim>\<open>parsecmd\<close>: the command and the buffer afterwards.\<close>

definition parsecmd :: "uchar list \<Rightarrow> (word_ptr cmd \<times> uchar list) parse" where
  "parsecmd s =
     pbind (parseline (4 * length s + 4) s) (\<lambda>(c, s').
     let s1 = snd (peek s' [])
     in if s1 \<noteq> [] then Syntax ''syntax'' else Parsed (c, nulterminate s c (s @ [0])))"

subsection \<open>The parser ends\<close>

text \<open>\<open>ends k r\<close>: the count was enough, and at most \<open>k\<close> bytes of the line are left.\<close>

definition ends :: "nat \<Rightarrow> ('a \<times> uchar list) parse \<Rightarrow> bool" where
  "ends k r = (case r of Parsed p \<Rightarrow> length (snd p) \<le> k | Syntax _ \<Rightarrow> True | Deep \<Rightarrow> False)"

lemma ends_simps [simp]:
  "ends k (Parsed p) \<longleftrightarrow> length (snd p) \<le> k" "ends k (Syntax m)" "\<not> ends k Deep"
  by (simp_all add: ends_def)

lemma ends_pbind:
  assumes "ends k m" "\<And>x s. m = Parsed (x, s) \<Longrightarrow> length s \<le> k \<Longrightarrow> ends j (f (x, s))"
  shows "ends j (pbind m f)"
  using assms by (cases m) (auto simp: ends_def)

lemma ends_map [simp]: "ends k (pbind m (\<lambda>(x, s). Parsed (g x, s))) \<longleftrightarrow> ends k m"
  by (cases m) (auto simp: ends_def)

lemma ends_mono: "ends k r \<Longrightarrow> k \<le> j \<Longrightarrow> ends j r"
  by (auto simp: ends_def split: parse.splits)

lemma parseredirs_ends: "ends (length s) (parseredirs s)"
proof (induction s rule: parseredirs.induct)
  case (1 s)
  let ?s1 = "snd (peek s [0x3C, 0x3E])"
  let ?s2 = "after_token ?s1"
  show ?case
  proof (cases "fst (peek s [0x3C, 0x3E]) \<and> tok_of ?s2 = 0x61")
    case True
    have "length (after_token ?s2) \<le> length s"
      using True peek_length [of s "[0x3C, 0x3E]"] gettoken_le [of ?s2] by simp
    then have "ends (length s) (parseredirs (after_token ?s2))" using 1 [OF refl _ refl refl] True ends_mono by blast
    then show ?thesis using True by (subst parseredirs.simps) (simp add: Let_def)
  next
    case False
    then show ?thesis using peek_le [of s "[0x3C, 0x3E]"] by (subst parseredirs.simps) (auto simp: Let_def)
  qed
qed

lemma parseargs_ends: "ends (length s) (pbind (parseargs argc s) (\<lambda>(ws, rs, s). Parsed ((ws, rs), s)))"
proof (induction argc s rule: parseargs.induct)
  case (1 argc s)
  let ?t = "[0x7C, 0x29, 0x26, 0x3B]"
  let ?s1 = "snd (peek s ?t)"
  have l: "length ?s1 \<le> length s" "length (after_token ?s1) \<le> length s"
    using peek_le [of s ?t] gettoken_le [of ?s1] by simp_all
  show ?case
  proof (cases "fst (peek s ?t) \<or> tok_of ?s1 = 0 \<or> tok_of ?s1 \<noteq> 0x61 \<or> Suc argc \<ge> MAXARGS")
    case True
    then show ?thesis using l by (subst parseargs.simps) (auto simp: Let_def)
  next
    case False
    show ?thesis
    proof (cases "parseredirs (after_token ?s1)")
      case (Parsed p)
      obtain rs s' where p: "p = (rs, s')" by (cases p)
      have s': "length s' \<le> length s" using parseredirs_ends [of "after_token ?s1"] l Parsed p by simp
      have "ends (length s') (pbind (parseargs (Suc argc) s') (\<lambda>(ws, rs, s). Parsed ((ws, rs), s)))"
        using 1 [OF refl _ _ _ _ Parsed p [symmetric]] False by simp
      then show ?thesis using False Parsed p s'
        by (subst parseargs.simps) (cases "parseargs (Suc argc) s'"; auto simp: Let_def)
    qed (use False parseredirs_ends [of "after_token ?s1"] in \<open>subst parseargs.simps, simp add: Let_def\<close>)+
  qed
qed

lemma parsebacks_length: "length (snd (parsebacks c s)) \<le> length s"
proof (induction c s rule: parsebacks.induct)
  case (1 c s)
  then show ?case
    using peek_length [of s "[0x26]"] peek_le [of s "[0x26]"]
    by (cases "fst (peek s [0x26])") (subst parsebacks.simps, force simp: Let_def)+
qed

lemma parse_ends:
  "4 * length s + 4 \<le> n \<Longrightarrow> ends (length s) (parseline n s)"
  "4 * length s + 3 \<le> n \<Longrightarrow> ends (length s) (parsepipe n s)"
  "4 * length s + 2 \<le> n \<Longrightarrow> ends (length s) (parseexec n s)"
  "4 * length s + 1 \<le> n \<Longrightarrow> ends (length s) (parseblock n s)"
proof (induction n s and n s and n s and n s rule: parseline_parsepipe_parseexec_parseblock.induct)
  case (2 n s)
  show ?case
  proof (simp only: parseline.simps, rule ends_pbind [of "length s"])
    show "ends (length s) (parsepipe n s)" using 2(1,3) by simp
    fix c s' assume c: "parsepipe n s = Parsed (c, s')" "length s' \<le> length s"
    obtain d t where d: "parsebacks c s' = (d, t)" by (cases "parsebacks c s'")
    have t: "length t \<le> length s" using parsebacks_length [of c s'] d c(2) by simp
    have "ends (length s) (parseline n (after_token (snd (peek t [0x3B]))))" if b: "fst (peek t [0x3B])"
      by (rule ends_mono [OF 2(2) [OF c(1) refl d [symmetric] refl b]]) (use 2(3) peek_length [OF b] t in simp_all)
    then show "ends (length s) (case (c, s') of (c, s) \<Rightarrow> case parsebacks c s of (c, s) \<Rightarrow>
       let s1 = snd (peek s [0x3B])
       in if fst (peek s [0x3B])
          then pbind (parseline n (after_token s1)) (\<lambda>(d, s). Parsed (LIST c d, s))
          else Parsed (c, s1))"
      using peek_le [of t "[0x3B]"] t by (simp add: d Let_def)
  qed
next
  case (4 n s)
  show ?case
  proof (simp only: parsepipe.simps, rule ends_pbind [of "length s"])
    show "ends (length s) (parseexec n s)" using 4(1,3) by simp
    fix c s' assume c: "parseexec n s = Parsed (c, s')" "length s' \<le> length s"
    have "ends (length s) (parsepipe n (after_token (snd (peek s' [0x7C]))))" if b: "fst (peek s' [0x7C])"
      by (rule ends_mono [OF 4(2) [OF c(1) refl refl b]]) (use 4(3) peek_length [OF b] c(2) in simp_all)
    then show "ends (length s) (case (c, s') of (c, s) \<Rightarrow> let s1 = snd (peek s [0x7C])
       in if fst (peek s [0x7C]) then pbind (parsepipe n (after_token s1)) (\<lambda>(d, s). Parsed (PIPE c d, s))
          else Parsed (c, s1))"
      using peek_le [of s' "[0x7C]"] c(2) by (simp add: Let_def)
  qed
next
  case (6 n s)
  let ?s1 = "snd (peek s [0x28])"
  have l: "length ?s1 \<le> length s" by (rule peek_le)
  show ?case
  proof (cases "fst (peek s [0x28])")
    case True
    then have "ends (length ?s1) (parseblock n ?s1)" using 6(1) [OF refl True] 6(2) l by simp
    then show ?thesis using True ends_mono [OF _ l] by (simp add: Let_def)
  next
    case False
    have "ends (length s) (pbind (parseredirs ?s1) (\<lambda>(rs, s).
        pbind (parseargs 0 s) (\<lambda>(ws, rs', s). Parsed (redircmds (EXEC ws) (rs @ rs'), s))))"
    proof (rule ends_pbind [OF parseredirs_ends], simp only: prod.case)
      fix rs and t :: "uchar list" assume t: "length t \<le> length ?s1"
      show "ends (length s) (pbind (parseargs 0 t) (\<lambda>(ws, rs', s). Parsed (redircmds (EXEC ws) (rs @ rs'), s)))"
        using parseargs_ends [of t 0] t l by (cases "parseargs 0 t") auto
    qed
    then show ?thesis using False by (simp add: Let_def)
  qed
next
  case (8 n s)
  let ?s1 = "snd (peek s [0x28])"
  show ?case
  proof (cases "fst (peek s [0x28])")
    case True
    have a: "length (after_token ?s1) < length s" by (rule peek_length [OF True])
    have "ends (length s) (parseline n (after_token ?s1))"
      by (rule ends_mono [OF 8(1) [OF refl]]) (use 8(2) True a in simp_all)
    then have "ends (length s) (pbind (parseline n (after_token ?s1)) (\<lambda>(c, s).
           let s1 = snd (peek s [0x29])
           in if \<not> fst (peek s [0x29]) then Syntax ''syntax - missing )''
              else pbind (parseredirs (after_token s1)) (\<lambda>(rs, s). Parsed (redircmds c rs, s))))"
    proof (rule ends_pbind)
      fix c and t :: "uchar list" assume t: "length t \<le> length s"
      have "ends (length s) (parseredirs (after_token (snd (peek t [0x29]))))" if "fst (peek t [0x29])"
        by (rule ends_mono [OF parseredirs_ends]) (use peek_length [OF that] t in simp)
      then show "ends (length s) (case (c, t) of (c, s) \<Rightarrow>
           let s1 = snd (peek s [0x29])
           in if \<not> fst (peek s [0x29]) then Syntax ''syntax - missing )''
              else pbind (parseredirs (after_token s1)) (\<lambda>(rs, s). Parsed (redircmds c rs, s)))"
        by (simp add: Let_def)
    qed
    then show ?thesis using True by (simp add: Let_def)
  next
    case False
    then show ?thesis by (simp add: Let_def)
  qed
qed simp_all

subsection \<open>Printing\<close>

text \<open>
  A printer for commands, with parentheses where the grammar needs them: at level 0 a line, at 1 a
  line without \<^verbatim>\<open>;\<close>, at 2 a pipe, at 3 the operand of a pipe.
\<close>

definition paren :: "bool \<Rightarrow> uchar list \<Rightarrow> uchar list" where
  "paren b t = (if b then 0x28 # t @ [0x29] else t)"

definition print_redir :: "uchar list redir \<Rightarrow> uchar list" where
  "print_redir r = (case r of (w, mode, fd) \<Rightarrow> (if fd = 0 then 0x3C else 0x3E) # w @ [0x20])"

primrec pr :: "uchar list cmd \<Rightarrow> nat \<Rightarrow> uchar list" where
  "pr (EXEC ws) k = concat (map (\<lambda>w. w @ [0x20]) ws)"
| "pr (REDIR c w mode fd) k = pr c 3 @ print_redir (w, mode, fd)"
| "pr (PIPE c d) k = paren (k > 2) (pr c 3 @ 0x7C # pr d 2)"
| "pr (LIST c d) k = paren (k > 0) (pr c 1 @ 0x3B # pr d 0)"
| "pr (BACK c) k = paren (k > 1) (pr c 1 @ [0x26])"

definition word_ok :: "uchar list \<Rightarrow> bool" where
  "word_ok w \<longleftrightarrow> w \<noteq> [] \<and> (\<forall>c \<in> set w. word_char c)"

definition redir_ok :: "uchar list redir \<Rightarrow> bool" where
  "redir_ok r \<longleftrightarrow> word_ok (fst r) \<and> snd r \<in> {(O_RDONLY_sh, 0), (O_WRONLY_CREATE, 1)}"

primrec cmd_ok :: "uchar list cmd \<Rightarrow> bool" where
  "cmd_ok (EXEC ws) \<longleftrightarrow> length ws < MAXARGS \<and> (\<forall>w \<in> set ws. word_ok w)"
| "cmd_ok (REDIR c w mode fd) \<longleftrightarrow> cmd_ok c \<and> redir_ok (w, mode, fd)"
| "cmd_ok (PIPE c d) \<longleftrightarrow> cmd_ok c \<and> cmd_ok d"
| "cmd_ok (LIST c d) \<longleftrightarrow> cmd_ok c \<and> cmd_ok d"
| "cmd_ok (BACK c) \<longleftrightarrow> cmd_ok c"

text \<open>The bytes of a word, between its two pointers.\<close>

definition word_text :: "word_ptr \<Rightarrow> uchar list" where
  "word_text w = take (length (fst w) - length (snd w)) (fst w)"

abbreviation cmd_text :: "word_ptr cmd \<Rightarrow> uchar list cmd" where
  "cmd_text \<equiv> map_cmd word_text"

definition redir_text :: "word_ptr redir \<Rightarrow> uchar list redir" where
  "redir_text r = (word_text (fst r), snd r)"

subsection \<open>Reading what was printed: words and redirections\<close>

lemma peek_eq: "peek s toks = (skip_ws s \<noteq> [] \<and> hd (skip_ws s) \<in> set toks, skip_ws s)"
  by (simp add: peek_def Let_def)

lemma skip_skip [simp]: "skip_ws (skip_ws s) = skip_ws s"
  by (simp add: skip_ws_def dropWhile_idem)

lemma skip_space [simp]: "skip_ws (0x20 # s) = skip_ws s"
  by (simp add: skip_ws_def whitespace_def)

lemma skip_sym [simp]: "c \<in> set symbols \<Longrightarrow> skip_ws (c # s) = c # s"
  by (auto simp: skip_ws_def whitespace_def symbols_def)

lemma skip_word [simp]: "word_ok w \<Longrightarrow> skip_ws (w @ s) = w @ s"
  by (cases w) (auto simp: skip_ws_def word_ok_def word_char_def)

lemma skip_nil [simp]: "skip_ws [] = []"
  by (simp add: skip_ws_def)

lemma gettoken_skip [simp]: "gettoken (skip_ws s) = gettoken s"
  by (simp add: gettoken_def)

lemma gettoken_sym:
  "c \<in> {0x7C, 0x28, 0x29, 0x3B, 0x26, 0x3C} \<Longrightarrow> gettoken (c # s) = (c, c # s, s, skip_ws s)"
  by (auto simp: gettoken_def symbols_def)

lemma gettoken_gt: "s = [] \<or> hd s \<noteq> 0x3E \<Longrightarrow> gettoken (0x3E # s) = (0x3E, 0x3E # s, s, skip_ws s)"
  by (auto simp: gettoken_def symbols_def)

lemma dropWhile_word: "word_ok w \<Longrightarrow> dropWhile word_char (w @ 0x20 # s) = 0x20 # s"
  by (auto simp: word_ok_def word_char_def whitespace_def dropWhile_append)

lemma gettoken_word:
  assumes "word_ok w"
  shows "gettoken (w @ 0x20 # s) = (0x61, w @ 0x20 # s, 0x20 # s, skip_ws s)"
proof -
  obtain c u where w: "w = c # u" "word_char c" using assms by (cases w) (auto simp: word_ok_def)
  then have "c \<notin> {0x7C, 0x28, 0x29, 0x3B, 0x26, 0x3C}" "c \<noteq> 0x3E" by (auto simp: word_char_def symbols_def)
  then show ?thesis
    using skip_word [OF assms, of "0x20 # s"] dropWhile_word [OF assms, of s] w(1) by (simp add: gettoken_def Let_def)
qed

lemma word_text_word [simp]: "word_text (w @ s, s) = w"
  by (simp add: word_text_def)

lemma parseredirs_skip: "parseredirs (skip_ws s) = parseredirs s"
  by (subst (1 2) parseredirs.simps) (simp add: peek_eq)

lemma parseargs_skip: "parseargs k (skip_ws s) = parseargs k s"
  by (subst (1 2) parseargs.simps) (simp add: peek_eq)

text \<open>\<open>stops cs s\<close>: the line ends here, or goes on with one of these symbols.\<close>

definition stops :: "uchar list \<Rightarrow> uchar list \<Rightarrow> bool" where
  "stops cs s \<longleftrightarrow> skip_ws s = [] \<or> hd (skip_ws s) \<in> set cs"

lemma parseredirs_print:
  assumes "\<forall>r \<in> set rs. redir_ok r" "skip_ws s = [] \<or> hd (skip_ws s) \<notin> {0x3C, 0x3E}"
  shows "\<exists>rs'. parseredirs (concat (map print_redir rs) @ s) = Parsed (rs', skip_ws s) \<and> map redir_text rs' = rs"
  using assms(1)
proof (induction rs)
  case Nil
  then show ?case using assms(2) by (subst parseredirs.simps) (auto simp: peek_eq)
next
  case (Cons r rs)
  obtain w mode fd where r: "r = (w, mode, fd)" by (cases r)
  have ok: "word_ok w" "(mode, fd) = (O_RDONLY_sh, 0) \<or> (mode, fd) = (O_WRONLY_CREATE, 1)"
    using Cons.prems r by (auto simp: redir_ok_def)
  obtain rs' where rs': "parseredirs (concat (map print_redir rs) @ s) = Parsed (rs', skip_ws s)" "map redir_text rs' = rs"
    using Cons by auto
  let ?t = "concat (map print_redir rs) @ s" and ?c = "if fd = 0 then 0x3C else 0x3E :: uchar"
  have p: "concat (map print_redir (r # rs)) @ s = ?c # w @ 0x20 # ?t" by (simp add: r print_redir_def)
  have "hd w \<noteq> 0x3E" using ok(1) by (cases w) (auto simp: word_ok_def word_char_def symbols_def)
  then have g: "gettoken (?c # w @ 0x20 # ?t) = (?c, ?c # w @ 0x20 # ?t, w @ 0x20 # ?t, w @ 0x20 # ?t)"
    using gettoken_gt [of "w @ 0x20 # ?t"] gettoken_sym [of "0x3C" "w @ 0x20 # ?t"] ok(1) by (auto simp: word_ok_def)
  have c: "?c \<in> set symbols" "?c \<in> {0x3C, 0x3E}" by (auto simp: symbols_def)
  have "parseredirs (?c # w @ 0x20 # ?t) = Parsed (redir_of ?c (w @ 0x20 # ?t, 0x20 # ?t) # rs', skip_ws s)"
    using g gettoken_word [OF ok(1), of ?t] rs'(1) c parseredirs_skip [of ?t]
    by (subst parseredirs.simps) (simp add: peek_eq)
  moreover have "redir_text (redir_of ?c (w @ 0x20 # ?t, 0x20 # ?t)) = r" using ok(2) r word_text_word [of w "0x20 # ?t"] by (auto simp: redir_of_def redir_text_def simp del: word_text_word)
  ultimately show ?case unfolding p using rs'(2) by auto
qed

lemma stops_cases:
  assumes "stops cs s"
  obtains "skip_ws s = []" | c r where "skip_ws s = c # r" "c \<in> set cs"
  using assms by (cases "skip_ws s") (auto simp: stops_def)

lemma stops_no_redir: "stops [0x7C, 0x29, 0x26, 0x3B] s \<Longrightarrow> skip_ws s = [] \<or> hd (skip_ws s) \<notin> {0x3C, 0x3E}"
  by (auto simp: stops_def)

lemma parseargs_stop:
  assumes "stops [0x7C, 0x29, 0x26, 0x3B] s"
  shows "parseargs k s = Parsed ([], [], skip_ws s)"
  using assms
proof (cases rule: stops_cases)
  case 1
  then show ?thesis by (subst parseargs.simps) (simp add: peek_eq gettoken_def)
next
  case (2 c r)
  then show ?thesis by (subst parseargs.simps) (simp add: peek_eq)
qed

lemma parseargs_print:
  assumes "ws \<noteq> []" "\<forall>w \<in> set ws. word_ok w" "k + length ws < MAXARGS" "\<forall>r \<in> set rs. redir_ok r"
    "stops [0x7C, 0x29, 0x26, 0x3B] s"
  shows "\<exists>ws' rs'. parseargs k (concat (map (\<lambda>w. w @ [0x20]) ws) @ concat (map print_redir rs) @ s) =
    Parsed (ws', rs', skip_ws s) \<and> map word_text ws' = ws \<and> map redir_text rs' = rs"
  using assms(1-3)
proof (induction ws arbitrary: k)
  case (Cons w ws)
  let ?t = "concat (map (\<lambda>w. w @ [0x20]) ws) @ concat (map print_redir rs) @ s"
  have w: "word_ok w" "Suc k < MAXARGS" using Cons.prems by simp_all
  have hd: "hd w \<notin> {0x7C, 0x29, 0x26, 0x3B}" "w \<noteq> []" using w(1) by (cases w; auto simp: word_ok_def word_char_def symbols_def)+
  have step: "parseargs k (w @ 0x20 # ?t) = pbind (parseredirs ?t) (\<lambda>(rs, s).
      pbind (parseargs (Suc k) s) (\<lambda>(ws, rs', s). Parsed ((w @ 0x20 # ?t, 0x20 # ?t) # ws, rs @ rs', s)))"
    using hd w gettoken_word [OF w(1), of ?t] parseredirs_skip [of ?t]
    by (subst parseargs.simps) (simp add: peek_eq)
  have "\<exists>ws' rs' rs'' u. parseredirs ?t = Parsed (rs', u) \<and> parseargs (Suc k) u = Parsed (ws', rs'', skip_ws s) \<and>
      map word_text ws' = ws \<and> map redir_text (rs' @ rs'') = rs"
  proof (cases ws)
    case Nil
    then show ?thesis
      using parseredirs_print [OF assms(4) stops_no_redir [OF assms(5)]] parseargs_stop [OF assms(5), of "Suc k"]
        parseargs_skip [of "Suc k" s] by auto
  next
    case (Cons v vs)
    have v: "word_ok v" using Cons.prems(2) Cons by simp
    then have sk: "skip_ws ?t = ?t" "?t \<noteq> []" "hd ?t \<notin> {0x3C, 0x3E}"
      using skip_word [OF v, of "0x20 # concat (map (\<lambda>w. w @ [0x20]) vs) @ concat (map print_redir rs) @ s"] Cons
      by (cases v; auto simp: word_ok_def word_char_def symbols_def)+
    then have "parseredirs ?t = Parsed ([], ?t)" using parseredirs_print [of "[]" ?t] by auto
    moreover obtain ws' rs' where "parseargs (Suc k) ?t = Parsed (ws', rs', skip_ws s)" "map word_text ws' = ws" "map redir_text rs' = rs"
      using Cons.IH [of "Suc k"] Cons.prems Cons by auto
    ultimately show ?thesis by auto
  qed
  then show ?case using step word_text_word [of w "0x20 # ?t"] by (auto simp del: word_text_word)
qed simp

subsection \<open>Reading what was printed: commands\<close>

lemma cmd_text_redirs: "cmd_text (redircmds c rs) = redircmds (cmd_text c) (map redir_text rs)"
  by (induction rs arbitrary: c) (auto simp: redircmds_def redir_text_def)

text \<open>What each level of the parser does with what was printed at that level.\<close>

definition reads_exec :: "uchar list cmd \<Rightarrow> bool" where
  "reads_exec c \<longleftrightarrow> (\<forall>rs s n. (\<forall>r \<in> set rs. redir_ok r) \<longrightarrow> stops [0x7C, 0x29, 0x26, 0x3B] s \<longrightarrow>
     4 * length (pr c 3 @ concat (map print_redir rs) @ s) + 2 \<le> n \<longrightarrow>
     (\<exists>c'. parseexec n (pr c 3 @ concat (map print_redir rs) @ s) = Parsed (c', skip_ws s) \<and> cmd_text c' = redircmds c rs))"

definition reads_pipe :: "uchar list cmd \<Rightarrow> bool" where
  "reads_pipe c \<longleftrightarrow> (\<forall>s n. stops [0x29, 0x26, 0x3B] s \<longrightarrow> 4 * length (pr c 2 @ s) + 3 \<le> n \<longrightarrow>
     (\<exists>c'. parsepipe n (pr c 2 @ s) = Parsed (c', skip_ws s) \<and> cmd_text c' = c))"

definition reads_backs :: "uchar list cmd \<Rightarrow> bool" where
  "reads_backs c \<longleftrightarrow> (\<forall>s n. stops [0x29, 0x26, 0x3B] s \<longrightarrow> 4 * length (pr c 1 @ s) + 3 \<le> n \<longrightarrow>
     (\<exists>c' d t. parsepipe n (pr c 1 @ s) = Parsed (d, t) \<and> parsebacks d t = parsebacks c' s \<and> cmd_text c' = c))"

definition reads_line :: "uchar list cmd \<Rightarrow> bool" where
  "reads_line c \<longleftrightarrow> (\<forall>s n. stops [0x29] s \<longrightarrow> 4 * length (pr c 0 @ s) + 4 \<le> n \<longrightarrow>
     (\<exists>c'. parseline n (pr c 0 @ s) = Parsed (c', skip_ws s) \<and> cmd_text c' = c))"

lemma parsebacks_skip: "parsebacks c (skip_ws s) = parsebacks c s"
  by (subst (1 2) parsebacks.simps) (simp add: peek_eq)

lemma parsebacks_stop: "stops [0x29, 0x3B] s \<Longrightarrow> parsebacks c s = (c, skip_ws s)"
  by (subst parsebacks.simps) (auto simp: peek_eq stops_def)

lemma parsebacks_amp: "parsebacks c (0x26 # s) = parsebacks (BACK c) s"
proof -
  have "0x26 \<in> set symbols" by (simp add: symbols_def)
  then show ?thesis
    using gettoken_sym [of "0x26" s] parsebacks_skip [of "BACK c" s] by (subst parsebacks.simps) (simp add: peek_eq)
qed

lemma stops_mono: "stops cs s \<Longrightarrow> set cs \<subseteq> set ds \<Longrightarrow> stops ds s"
  by (auto simp: stops_def)

lemma stops_sym: "c \<in> set symbols \<Longrightarrow> c \<in> set cs \<Longrightarrow> stops cs (c # s)"
  by (simp add: stops_def)

lemma redircmds_Nil [simp]: "redircmds c [] = c"
  by (simp add: redircmds_def)

lemma parse_skip: "parseline n (skip_ws s) = parseline n s" "parsepipe n (skip_ws s) = parsepipe n s" "parseexec n (skip_ws s) = parseexec n s"
proof -
  have e: "parseexec n (skip_ws s) = parseexec n s" for n by (cases n) (simp_all add: peek_eq)
  moreover have p: "parsepipe n (skip_ws s) = parsepipe n s" for n by (cases n) (simp_all add: e)
  ultimately show "parseline n (skip_ws s) = parseline n s" "parsepipe n (skip_ws s) = parsepipe n s"
    "parseexec n (skip_ws s) = parseexec n s" by (cases n; simp)+
qed

lemma reads_pipe_exec:
  assumes "reads_exec c" "pr c 2 = pr c 3"
  shows "reads_pipe c"
  unfolding reads_pipe_def
proof (intro allI impI)
  fix s n assume s: "stops [0x29, 0x26, 0x3B] s" and n: "4 * length (pr c 2 @ s) + 3 \<le> n"
  obtain m where m: "n = Suc m" using n by (cases n) auto
  have "stops [0x7C, 0x29, 0x26, 0x3B] s" using s by (rule stops_mono) auto
  then obtain c' where "parseexec m (pr c 3 @ s) = Parsed (c', skip_ws s)" "cmd_text c' = c"
    using assms(1) [unfolded reads_exec_def, rule_format, of "[]" s m] n m assms(2) by auto
  then show "\<exists>c'. parsepipe n (pr c 2 @ s) = Parsed (c', skip_ws s) \<and> cmd_text c' = c"
    using m assms(2) s by (auto simp: peek_eq stops_def)
qed

lemma reads_backs_pipe: "reads_pipe c \<Longrightarrow> pr c 1 = pr c 2 \<Longrightarrow> reads_backs c"
  unfolding reads_pipe_def reads_backs_def by (metis parsebacks_skip)

lemma reads_line_backs:
  assumes "reads_backs c" "pr c 0 = pr c 1"
  shows "reads_line c"
  unfolding reads_line_def
proof (intro allI impI)
  fix s n assume s: "stops [0x29] s" and n: "4 * length (pr c 0 @ s) + 4 \<le> n"
  obtain m where m: "n = Suc m" using n by (cases n) auto
  have st: "stops [0x29, 0x26, 0x3B] s" "stops [0x29, 0x3B] s" using s by (auto intro: stops_mono)
  obtain c' d t where d: "parsepipe m (pr c 1 @ s) = Parsed (d, t)" "parsebacks d t = parsebacks c' s" "cmd_text c' = c"
    using assms(1) [unfolded reads_backs_def, rule_format, OF st(1), of m] n m assms(2) by auto
  then show "\<exists>c'. parseline n (pr c 0 @ s) = Parsed (c', skip_ws s) \<and> cmd_text c' = c"
    using m assms(2) s parsebacks_stop [OF st(2), of c'] by (auto simp: peek_eq stops_def)
qed

lemma reads_exec_line:
  assumes "reads_line c" "pr c 3 = 0x28 # pr c 0 @ [0x29]"
  shows "reads_exec c"
  unfolding reads_exec_def
proof (intro allI impI)
  fix rs s n
  assume rs: "\<forall>r \<in> set rs. redir_ok r" and s: "stops [0x7C, 0x29, 0x26, 0x3B] s"
    and n: "4 * length (pr c 3 @ concat (map print_redir rs) @ s) + 2 \<le> n"
  let ?u = "concat (map print_redir rs) @ s"
  obtain m where m: "n = Suc (Suc m)" using n assms(2) by (cases n; cases "n - 1") auto
  have sy: "0x28 \<in> set symbols" "0x29 \<in> set symbols" by (simp_all add: symbols_def)
  obtain c' where c': "parseline m (pr c 0 @ 0x29 # ?u) = Parsed (c', 0x29 # ?u)" "cmd_text c' = c"
    using assms(1) [unfolded reads_line_def, rule_format, of "0x29 # ?u" m] stops_sym [OF sy(2)] n m assms(2) sy by auto
  obtain rs' where rs': "parseredirs ?u = Parsed (rs', skip_ws s)" "map redir_text rs' = rs"
    using parseredirs_print [OF rs stops_no_redir [OF s]] by blast
  have "parseexec n (pr c 3 @ ?u) = Parsed (redircmds c' rs', skip_ws s)"
    using m assms(2) sy c'(1) rs'(1) parse_skip(1) [of m "pr c 0 @ 0x29 # ?u"]
      gettoken_sym [of "0x28" "pr c 0 @ 0x29 # ?u"] gettoken_sym [of "0x29" ?u] parseredirs_skip [of ?u]
    by (simp add: peek_eq)
  then show "\<exists>c'. parseexec n (pr c 3 @ ?u) = Parsed (c', skip_ws s) \<and> cmd_text c' = redircmds c rs"
    using c'(2) rs'(2) cmd_text_redirs by blast
qed

lemma reads_exec_words:
  assumes "length ws < MAXARGS" "\<forall>w \<in> set ws. word_ok w"
  shows "reads_exec (EXEC ws)"
  unfolding reads_exec_def
proof (intro allI impI)
  fix rs s n
  assume rs: "\<forall>r \<in> set rs. redir_ok r" and s: "stops [0x7C, 0x29, 0x26, 0x3B] s"
    and n: "4 * length (pr (EXEC ws) 3 @ concat (map print_redir rs) @ s) + 2 \<le> n"
  let ?t = "pr (EXEC ws) 3 @ concat (map print_redir rs) @ s"
  obtain m where m: "n = Suc m" using n by (cases n) auto
  have nb: "\<not> fst (peek ?t [0x28])"
  proof (cases ws)
    case Nil
    show ?thesis
    proof (cases rs)
      case rsNil: Nil
      then show ?thesis using Nil s by (auto simp: peek_eq stops_def)
    next
      case (Cons r rs')
      then show ?thesis using Nil by (cases r) (auto simp: peek_eq print_redir_def symbols_def)
    qed
  next
    case (Cons w ws')
    then have "word_ok w" using assms(2) by simp
    then show ?thesis
      using Cons skip_word [OF \<open>word_ok w\<close>] by (cases w) (auto simp: peek_eq word_ok_def word_char_def symbols_def)
  qed
  have "\<exists>r1 u ws' r2. parseredirs ?t = Parsed (r1, u) \<and> parseargs 0 u = Parsed (ws', r2, skip_ws s) \<and>
      map word_text ws' = ws \<and> map redir_text (r1 @ r2) = rs"
  proof (cases ws)
    case Nil
    then show ?thesis
      using parseredirs_print [OF rs stops_no_redir [OF s]] parseargs_stop [OF s, of 0] parseargs_skip [of 0 s] by auto
  next
    case (Cons w ws')
    then have w: "word_ok w" using assms(2) by simp
    then have sk: "skip_ws ?t = ?t" "hd ?t \<notin> {0x3C, 0x3E}"
      using skip_word [OF w] Cons by (cases w; auto simp: word_ok_def word_char_def symbols_def)+
    then have "parseredirs ?t = Parsed ([], ?t)" using parseredirs_print [of "[]" ?t] by auto
    then show ?thesis using parseargs_print [OF _ assms(2) _ rs s, of 0] assms(1) Cons by auto
  qed
  then obtain r1 u ws' r2 where r: "parseredirs ?t = Parsed (r1, u)" "parseargs 0 u = Parsed (ws', r2, skip_ws s)"
    "map word_text ws' = ws" "map redir_text (r1 @ r2) = rs" by blast
  have "parseexec n ?t = Parsed (redircmds (EXEC ws') (r1 @ r2), skip_ws s)"
    using m nb r(1,2) parseredirs_skip [of ?t] by (auto simp: peek_eq Let_def simp del: pr.simps)
  moreover have "cmd_text (redircmds (EXEC ws') (r1 @ r2)) = redircmds (EXEC ws) rs"
    unfolding cmd_text_redirs r(4) using r(3) by simp
  ultimately show "\<exists>c'. parseexec n ?t = Parsed (c', skip_ws s) \<and> cmd_text c' = redircmds (EXEC ws) rs" by blast
qed

lemma reads_exec_redir:
  assumes "reads_exec c" "redir_ok (w, mode, fd)"
  shows "reads_exec (REDIR c w mode fd)"
  unfolding reads_exec_def
proof (intro allI impI)
  fix rs s n
  assume a: "\<forall>r \<in> set rs. redir_ok r" "stops [0x7C, 0x29, 0x26, 0x3B] s"
    "4 * length (pr (REDIR c w mode fd) 3 @ concat (map print_redir rs) @ s) + 2 \<le> n"
  then show "\<exists>c'. parseexec n (pr (REDIR c w mode fd) 3 @ concat (map print_redir rs) @ s) = Parsed (c', skip_ws s) \<and>
      cmd_text c' = redircmds (REDIR c w mode fd) rs"
    using assms(1) [unfolded reads_exec_def, rule_format, of "(w, mode, fd) # rs" s n] assms(2) by (auto simp: redircmds_def)
qed

lemma reads_pipe_pipe:
  assumes "reads_exec c" "reads_pipe d"
  shows "reads_pipe (PIPE c d)"
  unfolding reads_pipe_def
proof (intro allI impI)
  fix s n assume s: "stops [0x29, 0x26, 0x3B] s" and n: "4 * length (pr (PIPE c d) 2 @ s) + 3 \<le> n"
  let ?u = "pr d 2 @ s"
  obtain m where m: "n = Suc m" using n by (cases n) auto
  have sy: "0x7C \<in> set symbols" by (simp add: symbols_def)
  obtain c' where c': "parseexec m (pr c 3 @ 0x7C # ?u) = Parsed (c', 0x7C # ?u)" "cmd_text c' = c"
    using assms(1) [unfolded reads_exec_def, rule_format, of "[]" "0x7C # ?u" m] stops_sym [OF sy] n m sy by (auto simp: paren_def)
  obtain d' where d': "parsepipe m ?u = Parsed (d', skip_ws s)" "cmd_text d' = d"
    using assms(2) [unfolded reads_pipe_def, rule_format, OF s, of m] n m by (auto simp: paren_def)
  have "parsepipe n (pr (PIPE c d) 2 @ s) = Parsed (PIPE c' d', skip_ws s)"
    using m c'(1) d'(1) sy gettoken_sym [of "0x7C" ?u] parse_skip(2) [of m ?u] by (simp add: paren_def peek_eq)
  then show "\<exists>c'. parsepipe n (pr (PIPE c d) 2 @ s) = Parsed (c', skip_ws s) \<and> cmd_text c' = PIPE c d"
    using c'(2) d'(2) by auto
qed

lemma reads_backs_back:
  assumes "reads_backs c"
  shows "reads_backs (BACK c)"
  unfolding reads_backs_def
proof (intro allI impI)
  fix s n assume s: "stops [0x29, 0x26, 0x3B] s" and n: "4 * length (pr (BACK c) 1 @ s) + 3 \<le> n"
  have st: "stops [0x29, 0x26, 0x3B] (0x26 # s)" by (rule stops_sym) (simp_all add: symbols_def)
  obtain c' d t where "parsepipe n (pr c 1 @ 0x26 # s) = Parsed (d, t)" "parsebacks d t = parsebacks c' (0x26 # s)" "cmd_text c' = c"
    using assms [unfolded reads_backs_def, rule_format, OF st, of n] n by (auto simp: paren_def)
  then show "\<exists>c' d t. parsepipe n (pr (BACK c) 1 @ s) = Parsed (d, t) \<and> parsebacks d t = parsebacks c' s \<and> cmd_text c' = BACK c"
    by (intro exI [of _ "BACK c'"] exI [of _ d] exI [of _ t]) (simp add: paren_def parsebacks_amp)
qed

lemma reads_line_list:
  assumes "reads_backs c" "reads_line d"
  shows "reads_line (LIST c d)"
  unfolding reads_line_def
proof (intro allI impI)
  fix s n assume s: "stops [0x29] s" and n: "4 * length (pr (LIST c d) 0 @ s) + 4 \<le> n"
  let ?u = "pr d 0 @ s"
  obtain m where m: "n = Suc m" using n by (cases n) auto
  have sy: "0x3B \<in> set symbols" by (simp add: symbols_def)
  have st: "stops [0x29, 0x26, 0x3B] (0x3B # ?u)" "stops [0x29, 0x3B] (0x3B # ?u)" by (rule stops_sym [OF sy], simp)+
  obtain c' e t where c': "parsepipe m (pr c 1 @ 0x3B # ?u) = Parsed (e, t)" "parsebacks e t = parsebacks c' (0x3B # ?u)" "cmd_text c' = c"
    using assms(1) [unfolded reads_backs_def, rule_format, OF st(1), of m] n m by (auto simp: paren_def)
  obtain d' where d': "parseline m ?u = Parsed (d', skip_ws s)" "cmd_text d' = d"
    using assms(2) [unfolded reads_line_def, rule_format, OF s, of m] n m by (auto simp: paren_def)
  have "parseline n (pr (LIST c d) 0 @ s) = Parsed (LIST c' d', skip_ws s)"
    using m c'(1,2) d'(1) sy gettoken_sym [of "0x3B" ?u] parse_skip(1) [of m ?u] parsebacks_stop [OF st(2), of c']
    by (simp add: paren_def peek_eq)
  then show "\<exists>c'. parseline n (pr (LIST c d) 0 @ s) = Parsed (c', skip_ws s) \<and> cmd_text c' = LIST c d"
    using c'(3) d'(2) by auto
qed

lemma reads_all: "cmd_ok c \<Longrightarrow> reads_exec c \<and> reads_pipe c \<and> reads_backs c \<and> reads_line c"
proof (induction c)
  case (EXEC ws)
  then have "reads_exec (EXEC ws)" using reads_exec_words by simp
  then show ?case by (simp add: reads_pipe_exec reads_backs_pipe reads_line_backs)
next
  case (REDIR c w mode fd)
  then have "reads_exec (REDIR c w mode fd)" using reads_exec_redir by simp
  then show ?case by (simp add: reads_pipe_exec reads_backs_pipe reads_line_backs)
next
  case (PIPE c d)
  then have p: "reads_pipe (PIPE c d)" using reads_pipe_pipe by simp
  then have "reads_backs (PIPE c d)" "reads_line (PIPE c d)" by (simp_all add: reads_backs_pipe reads_line_backs paren_def)
  with p show ?case by (simp add: reads_exec_line paren_def)
next
  case (LIST c d)
  then have l: "reads_line (LIST c d)" using reads_line_list by simp
  then have "reads_exec (LIST c d)" by (simp add: reads_exec_line paren_def)
  then show ?case using l by (simp add: reads_pipe_exec reads_backs_pipe paren_def)
next
  case (BACK c)
  then have b: "reads_backs (BACK c)" using reads_backs_back by simp
  then have l: "reads_line (BACK c)" by (simp add: reads_line_backs paren_def)
  then have "reads_exec (BACK c)" by (simp add: reads_exec_line paren_def)
  then show ?case using l b by (simp add: reads_pipe_exec paren_def)
qed

text \<open>
  C35.  The parser of the shell inverts a printer: the line printed for any command whose words are made of
  word characters and that has at most nine arguments is parsed without an error to that
  command, and the calls nest no deeper than \<^verbatim>\<open>parsecmd\<close>'s count allows.
\<close>

theorem parsecmd_print:
  assumes "cmd_ok c"
  shows "\<exists>c' buf. parsecmd (pr c 0) = Parsed (c', buf) \<and> cmd_text c' = c"
proof -
  have "stops [0x29] []" by (simp add: stops_def)
  then obtain c' where "parseline (4 * length (pr c 0) + 4) (pr c 0 @ []) = Parsed (c', skip_ws [])" "cmd_text c' = c"
    using reads_all [OF assms] unfolding reads_line_def by (metis append_Nil2 order_refl)
  then show ?thesis by (simp add: parsecmd_def peek_eq)
qed

text \<open>\<^verbatim>\<open>(a;b)&\<close> and \<^verbatim>\<open>c d|e>f\<close>.\<close>

theorem parsecmd_print_witness:
  "\<exists>c' buf. parsecmd (pr (LIST (BACK (LIST (EXEC [[0x61]]) (EXEC [[0x62]])))
      (PIPE (EXEC [[0x63], [0x64]]) (REDIR (EXEC [[0x65]]) [0x66] O_WRONLY_CREATE 1))) 0) = Parsed (c', buf) \<and>
    cmd_text c' = LIST (BACK (LIST (EXEC [[0x61]]) (EXEC [[0x62]])))
      (PIPE (EXEC [[0x63], [0x64]]) (REDIR (EXEC [[0x65]]) [0x66] O_WRONLY_CREATE 1))"
  by (rule parsecmd_print) (simp add: word_ok_def word_char_def whitespace_def symbols_def MAXARGS_def redir_ok_def)

text \<open>
  C36.  The parser always ends: on every line \<^verbatim>\<open>parsecmd\<close> yields a command or a syntax error, and its
  recursion is never deeper than four calls for each byte of the line.
\<close>

theorem parsecmd_ends: "parsecmd s \<noteq> Deep"
  using parse_ends(1) [of s "4 * length s + 4"]
  by (cases "parseline (4 * length s + 4) s") (auto simp: parsecmd_def Let_def split: if_splits)

end
