(* ===== verification/Console.thy ===== *)
theory Console
  imports Syscall
begin

text \<open>
  The console (\<^verbatim>\<open>console.c\<close>), the serial port (\<^verbatim>\<open>uart.c\<close>), the keyboard (\<^verbatim>\<open>kbd.c\<close>, \<^verbatim>\<open>kbd.h\<close>) and the
  process listing of \<^verbatim>\<open>proc.c\<close>, which prints on it.  The devices are part of the state: the cells and the
  cursor register of the screen, the bytes sent to the serial port, and the bytes that wait
  at the two input ports when an interrupt is handled.  The lemmas show that the ring of
  typed characters with its three wrapping indices is a line editor, and what a read gets of it.
\<close>

subsection \<open>Devices\<close>

definition INPUT_BUF :: nat where "INPUT_BUF = 128"

record input =
  ibuf :: "uchar list"
  inr :: uint
  inw :: uint
  ine :: uint

record console =
  cons_locking :: bool
  panicked :: bool
  crt :: "nat \<Rightarrow> ushort"
  crt_pos :: nat
  uart_on :: bool
  uart_out :: "uchar list"
  uart_rx :: "uchar list"
  kbd_rx :: "uchar list"
  kbd_shift :: uint
  inp :: input

record kcons = ksys +
  con :: console

subsection \<open>Output\<close>

definition BACKSPACE :: int where "BACKSPACE = 0x100"

definition uartputc :: "int \<Rightarrow> console \<Rightarrow> console" where
  "uartputc c d = (if \<not> uart_on d then d else d\<lparr>uart_out := uart_out d @ [word_of_int c]\<rparr>)"

text \<open>
  \<^verbatim>\<open>uartinit\<close> with the line status that the port returns; the writes to the control registers have
  no counterpart in the state.
\<close>

definition uartinit :: "uchar \<Rightarrow> console \<Rightarrow> console" where
  "uartinit lsr d =
     (if lsr = 0xFF then d
      else foldl (\<lambda>d c. uartputc (of_char c) d) (d\<lparr>uart_on := True\<rparr>) (''xv6...'' @ [CHR 0x0A]))"

definition scroll :: "nat \<Rightarrow> (nat \<Rightarrow> ushort) \<Rightarrow> nat \<Rightarrow> ushort" where
  "scroll pos m i = (if pos - 80 \<le> i \<and> i < 24 * 80 then 0 else if i < 23 * 80 then m (i + 80) else m i)"

definition cgaputc :: "int \<Rightarrow> console \<Rightarrow> console result" where
  "cgaputc c d =
     (let pos = crt_pos d;
          m = (if c = 10 \<or> c = BACKSPACE then crt d else (crt d)(pos := (word_of_int c AND 0xff) OR 0x0700));
          pos = (if c = 10 then pos + (80 - pos mod 80) else if c = BACKSPACE then pos - 1 else pos + 1)
      in if pos > 25 * 80 then Panic ''pos under/overflow''
         else let m = (if pos div 80 \<ge> 24 then scroll pos m else m);
                  pos = (if pos div 80 \<ge> 24 then pos - 80 else pos)
           in Ret (d\<lparr>crt_pos := pos, crt := m(pos := 0x20 OR 0x0700)\<rparr>))"

definition consputc :: "int \<Rightarrow> console \<Rightarrow> console result" where
  "consputc c d =
     (if panicked d then Hang
      else cgaputc c (if c = BACKSPACE then uartputc 8 (uartputc 0x20 (uartputc 8 d)) else uartputc c d))"

fun consputs :: "int list \<Rightarrow> console \<Rightarrow> console result" where
  "consputs [] d = Ret d"
| "consputs (c # cs) d = rbind (consputc c d) (consputs cs)"

subsection \<open>Formatted output\<close>

text \<open>
  The digit loop of \<^verbatim>\<open>printint\<close>, as in the user library but with small letters; the callers pass 10
  and 16.
\<close>

definition con_digits :: string where "con_digits = ''0123456789abcdef''"

function con_digit_loop :: "nat \<Rightarrow> nat \<Rightarrow> string result" where
  "con_digit_loop bse x =
     (if bse < 2 then Hang
      else if x div bse = 0 then Ret [con_digits ! (x mod bse)]
      else rbind (con_digit_loop bse (x div bse)) (\<lambda>buf. Ret (con_digits ! (x mod bse) # buf)))"
  by pat_completeness auto
termination
proof (relation "measure snd", goal_cases)
  case (2 bse x)
  have "x \<noteq> 0" using 2 by (cases x) auto
  moreover have "1 < bse" using 2 by simp
  ultimately show ?case by simp
qed simp

declare con_digit_loop.simps [simp del]

abbreviation chars :: "string \<Rightarrow> int list" where "chars \<equiv> map of_char"

definition con_printint :: "uint \<Rightarrow> nat \<Rightarrow> bool \<Rightarrow> console \<Rightarrow> console result" where
  "con_printint xx bse sg d =
     (let neg = sg \<and> sint xx < 0; x = (if neg then - xx else xx)
      in rbind (con_digit_loop bse (unat x)) (\<lambda>buf. consputs (chars (rev (buf @ (if neg then ''-'' else [])))) d))"

text \<open>
  An argument of \<^verbatim>\<open>cprintf\<close> is a number or a pointer to a string, \<open>None\<close> the null pointer.  A format
  that asks for an argument that is not there, or for one of the other kind, reads memory it
  should not.
\<close>

datatype carg = CNum uint | CStr "string option"

fun cprintf_loop :: "string \<Rightarrow> carg list \<Rightarrow> console \<Rightarrow> console result" where
  "cprintf_loop [] ap d = Ret d"
| "cprintf_loop [c] ap d = (if c = CHR ''%'' then Ret d else consputc (of_char c) d)"
| "cprintf_loop (c # c' # fmt) ap d =
     (if c \<noteq> CHR ''%'' then rbind (consputc (of_char c) d) (cprintf_loop (c' # fmt) ap)
      else if c' = CHR ''d'' then
        (case ap of CNum x # ap \<Rightarrow> rbind (con_printint x 10 True d) (cprintf_loop fmt ap) | _ \<Rightarrow> Fault)
      else if c' = CHR ''x'' \<or> c' = CHR ''p'' then
        (case ap of CNum x # ap \<Rightarrow> rbind (con_printint x 16 False d) (cprintf_loop fmt ap) | _ \<Rightarrow> Fault)
      else if c' = CHR ''s'' then
        (case ap of CStr p # ap \<Rightarrow>
           rbind (consputs (chars (case p of None \<Rightarrow> ''(null)'' | Some s \<Rightarrow> s)) d) (cprintf_loop fmt ap) | _ \<Rightarrow> Fault)
      else if c' = CHR ''%'' then rbind (consputc 0x25 d) (cprintf_loop fmt ap)
      else rbind (consputs [0x25, of_char c'] d) (cprintf_loop fmt ap))"

definition lift_con :: "(console \<Rightarrow> console result) \<Rightarrow> 'a kcons_scheme \<Rightarrow> 'a kcons_scheme result" where
  "lift_con f s = rbind (f (con s)) (\<lambda>d. Ret (s\<lparr>con := d\<rparr>))"

definition cprintf :: "string option \<Rightarrow> carg list \<Rightarrow> 'a kcons_scheme \<Rightarrow> 'a kcons_scheme result" where
  "cprintf fmt ap s =
     (let locking = cons_locking (con s)
      in rbind (if locking then acquire ConsLock s else Ret s) (\<lambda>s.
         case fmt of None \<Rightarrow> Panic ''null fmt''
         | Some fmt \<Rightarrow>
           rbind (lift_con (cprintf_loop fmt ap) s) (\<lambda>s.
           if locking then release ConsLock s else Ret s)))"

subsection \<open>The process listing\<close>

definition state_name :: "procstate \<Rightarrow> string" where
  "state_name st =
     (case st of UNUSED \<Rightarrow> ''unused'' | EMBRYO \<Rightarrow> ''embryo'' | SLEEPING \<Rightarrow> ''sleep '' | RUNNABLE \<Rightarrow> ''runble''
      | RUNNING \<Rightarrow> ''run   '' | ZOMBIE \<Rightarrow> ''zombie'')"

definition cstring :: "uchar list \<Rightarrow> string" where
  "cstring xs = map (\<lambda>x. char_of (unat x)) (takeWhile (\<lambda>x. x \<noteq> 0) xs)"

fun print_pcs :: "uint list \<Rightarrow> 'a kcons_scheme \<Rightarrow> 'a kcons_scheme result" where
  "print_pcs [] s = Ret s"
| "print_pcs (x # xs) s = (if x = 0 then Ret s else rbind (cprintf (Some '' %p'') [CNum x] s) (print_pcs xs))"

definition dump_proc :: "proc \<Rightarrow> 'a kcons_scheme \<Rightarrow> 'a kcons_scheme result" where
  "dump_proc p s =
     (if pstate p = UNUSED then Ret s
      else rbind (cprintf (Some ''%d %s %s'') [CNum (pid p), CStr (Some (state_name (pstate p))), CStr (Some (cstring (pname p)))] s) (\<lambda>s.
        rbind (if pstate p = SLEEPING then print_pcs (getcallerpcs (mem s) (ctx_ebp (pcontext p) + 8)) s else Ret s)
          (cprintf (Some [CHR 0x0A]) [])))"

fun procdump_loop :: "nat \<Rightarrow> nat \<Rightarrow> 'a kcons_scheme \<Rightarrow> 'a kcons_scheme result" where
  "procdump_loop i 0 s = Ret s"
| "procdump_loop i (Suc n) s = rbind (dump_proc (ptable s ! i) s) (procdump_loop (Suc i) n)"

definition procdump :: "'a kcons_scheme \<Rightarrow> 'a kcons_scheme result" where
  "procdump s = procdump_loop 0 NPROC s"

subsection \<open>Typed characters\<close>

text \<open>\<^verbatim>\<open>C(x)\<close>, the control characters.\<close>

definition ctrl :: "char \<Rightarrow> int" where "ctrl x = of_char x - 0x40"

definition erase :: "console \<Rightarrow> console result" where
  "erase d = consputc BACKSPACE (d\<lparr>inp := (inp d)\<lparr>ine := ine (inp d) - 1\<rparr>\<rparr>)"

lemma cgaputc_inp: "cgaputc c d = Ret d' \<Longrightarrow> inp d' = inp d"
  by (auto simp: cgaputc_def Let_def split: if_splits)

lemma uartputc_inp [simp]: "inp (uartputc c d) = inp d"
  by (simp add: uartputc_def)

lemma consputc_inp: "consputc c d = Ret d' \<Longrightarrow> inp d' = inp d"
  by (auto simp: consputc_def dest!: cgaputc_inp split: if_splits)

lemma erase_inp: "erase d = Ret d' \<Longrightarrow> inp d' = (inp d)\<lparr>ine := ine (inp d) - 1\<rparr>"
  by (auto simp: erase_def dest!: consputc_inp)

lemma unat_minus_less: "e \<noteq> w \<Longrightarrow> unat (e - 1 - w) < unat (e - w)" for e w :: uint
proof -
  assume "e \<noteq> w"
  then have "e - w \<noteq> 0" by simp
  then have "unat (e - w - 1) = unat (e - w) - 1" "0 < unat (e - w)"
    using unat_minus_one_32 [of "e - w"] by (simp_all add: unat_gt_0)
  moreover have "e - 1 - w = e - w - 1" by (rule diff_right_commute)
  ultimately show ?thesis by (simp only:)
qed

function kill_line :: "console \<Rightarrow> console result" where
  "kill_line d =
     (if ine (inp d) \<noteq> inw (inp d) \<and> ibuf (inp d) ! (unat (ine (inp d) - 1) mod INPUT_BUF) \<noteq> 10
      then rbind (erase d) kill_line else Ret d)"
  by pat_completeness auto
termination
  by (relation "measure (\<lambda>d. unat (ine (inp d) - inw (inp d)))") (auto dest!: erase_inp intro: unat_minus_less)

declare kill_line.simps [simp del]

text \<open>One round of the loop of \<^verbatim>\<open>consoleintr\<close>; \<open>dump\<close> is \<^verbatim>\<open>doprocdump\<close>.\<close>

definition type_char :: "int \<Rightarrow> 'a kcons_scheme \<Rightarrow> 'a kcons_scheme result" where
  "type_char c s =
     (let d = con s; b = inp d
      in if c \<noteq> 0 \<and> ine b - inr b < of_nat INPUT_BUF
         then let c = (if c = 13 then 10 else c);
                  b = b\<lparr>ibuf := (ibuf b)[unat (ine b) mod INPUT_BUF := word_of_int c], ine := ine b + 1\<rparr>
           in rbind (lift_con (consputc c) (s\<lparr>con := d\<lparr>inp := b\<rparr>\<rparr>)) (\<lambda>s.
              if c = 10 \<or> c = ctrl CHR ''D'' \<or> ine b = inr b + of_nat INPUT_BUF
              then wakeup ChInput (s\<lparr>con := (con s)\<lparr>inp := b\<lparr>inw := ine b\<rparr>\<rparr>\<rparr>)
              else Ret s)
         else Ret s)"

definition intr_char :: "int \<Rightarrow> bool \<times> 'a kcons_scheme \<Rightarrow> (bool \<times> 'a kcons_scheme) result" where
  "intr_char c st =
     (case st of (dump, s) \<Rightarrow>
        if c = ctrl CHR ''P'' then Ret (True, s)
        else rbind
          (if c = ctrl CHR ''U'' then lift_con kill_line s
           else if c = ctrl CHR ''H'' \<or> c = 0x7f
           then (if ine (inp (con s)) \<noteq> inw (inp (con s)) then lift_con erase s else Ret s)
           else type_char c s) (\<lambda>s. Ret (dump, s)))"

fun consoleintr_loop :: "int list \<Rightarrow> bool \<times> 'a kcons_scheme \<Rightarrow> (bool \<times> 'a kcons_scheme) result" where
  "consoleintr_loop [] st = Ret st"
| "consoleintr_loop (c # cs) st = rbind (intr_char c st) (consoleintr_loop cs)"

text \<open>\<open>cs\<close>: what \<^verbatim>\<open>getc\<close> returns until its first negative value.\<close>

definition consoleintr :: "int list \<Rightarrow> 'a kcons_scheme \<Rightarrow> 'a kcons_scheme result" where
  "consoleintr cs s =
     rbind (acquire ConsLock s) (\<lambda>s.
     rbind (consoleintr_loop cs (False, s)) (\<lambda>(dump, s).
     rbind (release ConsLock s) (\<lambda>s. if dump then procdump s else Ret s)))"

subsection \<open>Reading and writing\<close>

text \<open>
  The loop of \<^verbatim>\<open>consoleread\<close> up to its end or to the point where it finds no character, which is
  the third component: the bytes stored and the input afterwards.  \<open>k\<close> bytes are still wanted
  and \<open>first\<close> tells that none has been stored.
\<close>

fun consoleread_loop :: "nat \<Rightarrow> bool \<Rightarrow> input \<Rightarrow> uchar list \<times> input \<times> bool" where
  "consoleread_loop 0 first b = ([], b, False)"
| "consoleread_loop (Suc k) first b =
     (if inr b = inw b then ([], b, True)
      else let c = ibuf b ! (unat (inr b) mod INPUT_BUF)
        in if c = word_of_int (ctrl CHR ''D'') then ([], if first then b\<lparr>inr := inr b + 1\<rparr> else b, False)
           else if c = 10 then ([c], b\<lparr>inr := inr b + 1\<rparr>, False)
           else case consoleread_loop k False (b\<lparr>inr := inr b + 1\<rparr>) of (cs, b, w) \<Rightarrow> (c # cs, b, w))"

definition consoleread :: "nat \<Rightarrow> int \<Rightarrow> 'a kcons_scheme \<Rightarrow> (int \<times> uchar list \<times> 'a kcons_scheme) result" where
  "consoleread i n s =
     rbind (iunlock (Some i) s) (\<lambda>s.
     rbind (acquire ConsLock s) (\<lambda>s.
     case consoleread_loop (nat n) True (inp (con s)) of (cs, b, none_left) \<Rightarrow>
       let s = s\<lparr>con := (con s)\<lparr>inp := b\<rparr>\<rparr>
       in if none_left
          then rbind (myproc_killed s) (\<lambda>(k, s).
               if k then rbind (release ConsLock s) (\<lambda>s. rbind (ilock (Some i) s) (\<lambda>s. Ret (- 1, cs, s)))
               else Wait (Sleeps ChInput))
          else rbind (release ConsLock s) (\<lambda>s.
               rbind (ilock (Some i) s) (\<lambda>s. Ret (int (length cs), cs, s)))))"

definition consolewrite :: "nat \<Rightarrow> uchar list \<Rightarrow> 'a kcons_scheme \<Rightarrow> (int \<times> 'a kcons_scheme) result" where
  "consolewrite i xs s =
     rbind (iunlock (Some i) s) (\<lambda>s.
     rbind (acquire ConsLock s) (\<lambda>s.
     rbind (lift_con (consputs (map uint xs)) s) (\<lambda>s.
     rbind (release ConsLock s) (\<lambda>s.
     rbind (ilock (Some i) s) (\<lambda>s. Ret (int (length xs), s))))))"

definition CONSOLE :: nat where "CONSOLE = 1"

text \<open>\<^verbatim>\<open>consoleinit\<close>: the device table afterwards, and the state.\<close>

definition consoleinit :: "'a kcons_scheme devsw list \<Rightarrow> 'a kcons_scheme \<Rightarrow> 'a kcons_scheme devsw list \<times> 'a kcons_scheme" where
  "consoleinit dv s =
     (dv[CONSOLE := \<lparr>dev_read = Some consoleread, dev_write = Some consolewrite\<rparr>],
      (initlock ConsLock ''console'' s)\<lparr>con := (con s)\<lparr>cons_locking := True\<rparr>\<rparr>)"

subsection \<open>Output stays on the screen\<close>

definition scr_ok :: "console \<Rightarrow> bool" where
  "scr_ok d \<longleftrightarrow> \<not> panicked d \<and> crt_pos d < 24 * 80"

text \<open>\<open>prints f\<close>: output that ends, with the cursor on the screen and no effect on the input.\<close>

definition prints :: "(console \<Rightarrow> console result) \<Rightarrow> bool" where
  "prints f \<longleftrightarrow> (\<forall>d. scr_ok d \<longrightarrow> (\<exists>d'. f d = Ret d' \<and> scr_ok d' \<and> inp d' = inp d))"

lemma printsE:
  assumes "prints f" "scr_ok d"
  obtains d' where "f d = Ret d'" "scr_ok d'" "inp d' = inp d"
  using assms by (auto simp: prints_def)

lemma prints_Ret: "prints Ret"
  by (simp add: prints_def)

lemma prints_bind: "prints f \<Longrightarrow> prints g \<Longrightarrow> prints (\<lambda>d. rbind (f d) g)"
  by (fastforce simp: prints_def)

lemma next_row: "p < 24 * 80 \<Longrightarrow> p + (80 - p mod 80) \<le> 24 * 80" for p :: nat
proof -
  assume "p < 24 * 80"
  then have "p div 80 < 24" by (simp add: div_less_iff_less_mult)
  then have "p div 80 * 80 + 80 \<le> 24 * 80" by simp
  moreover have "p div 80 * 80 + p mod 80 = p" by simp
  moreover have "p mod 80 < 80" by simp
  ultimately show ?thesis by linarith
qed

lemma row_less: "(24 \<le> p div 80) = (24 * 80 \<le> p)" for p :: nat
  by (simp add: less_eq_div_iff_mult_less_eq)

lemma prints_cgaputc: "prints (cgaputc c)"
  unfolding prints_def
proof (intro allI impI)
  fix d assume d: "scr_ok d"
  define m where "m = (if c = 10 \<or> c = BACKSPACE then crt d else (crt d)(crt_pos d := (word_of_int c AND 0xff) OR 0x0700))"
  define p where "p = (if c = 10 then crt_pos d + (80 - crt_pos d mod 80) else if c = BACKSPACE then crt_pos d - 1 else crt_pos d + 1)"
  define q where "q = (if 24 * 80 \<le> p then p - 80 else p)"
  have "crt_pos d < 24 * 80" using d by (simp add: scr_ok_def)
  then have p: "p \<le> 24 * 80" using next_row [of "crt_pos d"] by (auto simp: p_def)
  then have q: "q < 24 * 80" by (simp add: q_def)
  have "\<not> 25 * 80 < p" using p by simp
  then have "\<exists>m'. cgaputc c d = Ret (d\<lparr>crt_pos := q, crt := m'\<rparr>)"
    unfolding cgaputc_def Let_def m_def [symmetric] p_def [symmetric] row_less q_def [symmetric] by auto
  then obtain m' where "cgaputc c d = Ret (d\<lparr>crt_pos := q, crt := m'\<rparr>)" by (rule exE)
  then show "\<exists>d'. cgaputc c d = Ret d' \<and> scr_ok d' \<and> inp d' = inp d"
    using q d by (simp add: scr_ok_def)
qed

lemma scr_ok_uartputc [simp]: "scr_ok (uartputc c d) = scr_ok d"
  by (simp add: uartputc_def scr_ok_def)

lemma prints_consputc: "prints (consputc c)"
  unfolding prints_def
proof (intro allI impI)
  fix d assume d: "scr_ok d"
  define e where "e = (if c = BACKSPACE then uartputc 8 (uartputc 0x20 (uartputc 8 d)) else uartputc c d)"
  have e: "scr_ok e" "inp e = inp d" using d by (simp_all add: e_def)
  obtain d' where "cgaputc c e = Ret d'" "scr_ok d'" "inp d' = inp e"
    using prints_cgaputc e(1) by (rule printsE)
  moreover have "consputc c d = cgaputc c e" using d by (simp add: consputc_def e_def scr_ok_def)
  ultimately show "\<exists>d'. consputc c d = Ret d' \<and> scr_ok d' \<and> inp d' = inp d"
    using e(2) by simp
qed

lemma prints_consputs: "prints (consputs cs)"
  by (induction cs) (simp_all add: prints_Ret prints_bind prints_consputc)

lemma con_digit_loop_Ret: "2 \<le> bse \<Longrightarrow> \<exists>buf. con_digit_loop bse x = Ret buf"
proof (induction bse x rule: con_digit_loop.induct)
  case (1 bse x)
  show ?case
  proof (cases "x div bse = 0")
    case True
    then show ?thesis using 1(2) by (subst con_digit_loop.simps) simp
  next
    case False
    then obtain buf where "con_digit_loop bse (x div bse) = Ret buf" using 1 by auto
    then show ?thesis using 1(2) False by (subst con_digit_loop.simps) simp
  qed
qed

lemma prints_printint: "2 \<le> bse \<Longrightarrow> prints (con_printint x bse sg)"
proof -
  assume "2 \<le> bse"
  then obtain buf where "con_digit_loop bse (unat (if sg \<and> sint x < 0 then - x else x)) = Ret buf"
    using con_digit_loop_Ret by blast
  then have "con_printint x bse sg = consputs (chars (rev (buf @ (if sg \<and> sint x < 0 then ''-'' else []))))"
    by (auto simp: con_printint_def Let_def)
  then show ?thesis by (simp add: prints_consputs)
qed

text \<open>The arguments fit the format.\<close>

fun fmt_ok :: "string \<Rightarrow> carg list \<Rightarrow> bool" where
  "fmt_ok [] ap = True"
| "fmt_ok [c] ap = True"
| "fmt_ok (c # c' # fmt) ap =
     (if c \<noteq> CHR ''%'' then fmt_ok (c' # fmt) ap
      else if c' = CHR ''d'' \<or> c' = CHR ''x'' \<or> c' = CHR ''p'' then (case ap of CNum x # ap \<Rightarrow> fmt_ok fmt ap | _ \<Rightarrow> False)
      else if c' = CHR ''s'' then (case ap of CStr p # ap \<Rightarrow> fmt_ok fmt ap | _ \<Rightarrow> False)
      else fmt_ok fmt ap)"

lemma prints_cprintf_loop: "fmt_ok fmt ap \<Longrightarrow> prints (cprintf_loop fmt ap)"
proof (induction fmt ap rule: fmt_ok.induct)
  case (1 ap)
  then show ?case by (simp add: prints_Ret)
next
  case (2 c ap)
  then show ?case by (cases "c = CHR ''%''") (simp_all add: prints_Ret prints_consputc)
next
  case (3 c c' fmt ap)
  note simps = prints_bind prints_consputc prints_consputs prints_printint
  show ?case
  proof (cases "c \<noteq> CHR ''%''")
    case True
    then show ?thesis using 3 by (simp add: simps)
  next
    case False
    then show ?thesis
      using 3 by (cases "c' = CHR ''%''") (auto simp: simps simp del: consputs.simps split: list.splits carg.splits if_splits)
  qed
qed

lemma acq_con [simp]: "con (acq l s) = con s"
  by (simp add: acq_def Let_def)

lemma same_cpu_con [simp]: "same_cpu (s\<lparr>con := d\<rparr>) t = same_cpu s t"
  by (simp add: same_cpu_def)

lemma unacq_con [simp]: "unacq s (t\<lparr>con := d\<rparr>) = (unacq s t)\<lparr>con := d\<rparr>" "con (unacq s t) = con t"
  by (simp_all add: unacq_def)

lemma wakeup1_con [simp]: "con (wakeup1 ch s) = con s"
  by (simp add: wakeup1_def)

lemma cpu_ok_con [simp]: "cpu_ok (s\<lparr>con := d\<rparr>) = cpu_ok s"
  by (rule same_cpu_ok) simp

lemma lock_free_con [simp]: "lock_free l (s\<lparr>con := d\<rparr>) = lock_free l s"
  by (rule same_cpu_free) simp

text \<open>The same for the whole state: the locks may be taken, and only the console changes.\<close>

definition shows_on :: "('a kcons_scheme \<Rightarrow> 'a kcons_scheme result) \<Rightarrow> bool" where
  "shows_on f \<longleftrightarrow> (\<forall>s. cpu_ok s \<and> lock_free ConsLock s \<and> scr_ok (con s) \<longrightarrow>
     (\<exists>d. f s = Ret (s\<lparr>con := d\<rparr>) \<and> scr_ok d \<and> inp d = inp (con s)))"

lemma shows_onE:
  assumes "shows_on f" "cpu_ok s" "lock_free ConsLock s" "scr_ok (con s)"
  obtains d where "f s = Ret (s\<lparr>con := d\<rparr>)" "scr_ok d" "inp d = inp (con s)"
  using assms by (auto simp: shows_on_def)

lemma shows_on_Ret: "shows_on (Ret :: 'a kcons_scheme \<Rightarrow> _)"
proof -
  have "s = s\<lparr>con := con s\<rparr>" for s :: "'a kcons_scheme" by simp
  then show ?thesis unfolding shows_on_def by blast
qed

lemma shows_on_bind: "shows_on f \<Longrightarrow> shows_on g \<Longrightarrow> shows_on (\<lambda>s. rbind (f s) g)"
proof -
  assume f: "shows_on f" and g: "shows_on g"
  show ?thesis
    unfolding shows_on_def
  proof (intro allI impI, elim conjE)
    fix s :: "'a kcons_scheme" assume s: "cpu_ok s" "lock_free ConsLock s" "scr_ok (con s)"
    obtain d where d: "f s = Ret (s\<lparr>con := d\<rparr>)" "scr_ok d" "inp d = inp (con s)" using f s by (rule shows_onE)
    obtain e where e: "g (s\<lparr>con := d\<rparr>) = Ret (s\<lparr>con := d\<rparr>\<lparr>con := e\<rparr>)" "scr_ok e" "inp e = inp d"
      using shows_onE [OF g, of "s\<lparr>con := d\<rparr>"] s d(2) by auto
    show "\<exists>d. rbind (f s) g = Ret (s\<lparr>con := d\<rparr>) \<and> scr_ok d \<and> inp d = inp (con s)"
      using d e by (intro exI [of _ e]) simp
  qed
qed

lemma shows_on_cprintf: "fmt_ok fmt ap \<Longrightarrow> shows_on (cprintf (Some fmt) ap)"
  unfolding shows_on_def
proof (intro allI impI, elim conjE)
  fix s :: "'a kcons_scheme"
  assume f: "fmt_ok fmt ap" and s: "cpu_ok s" "lock_free ConsLock s" "scr_ok (con s)"
  obtain d where d: "cprintf_loop fmt ap (con s) = Ret d" "scr_ok d" "inp d = inp (con s)"
    using prints_cprintf_loop [OF f] s(3) by (rule printsE)
  have "release ConsLock ((acq ConsLock s)\<lparr>con := d\<rparr>) = Ret (s\<lparr>con := d\<rparr>)"
    by (subst release_acq [OF s(1,2)]) simp_all
  then have "cprintf (Some fmt) ap s = Ret (s\<lparr>con := d\<rparr>)"
    using s d by (simp add: cprintf_def Let_def lift_con_def acquire_free)
  then show "\<exists>d. cprintf (Some fmt) ap s = Ret (s\<lparr>con := d\<rparr>) \<and> scr_ok d \<and> inp d = inp (con s)"
    using d by blast
qed

lemma shows_on_print_pcs: "shows_on (print_pcs xs :: 'a kcons_scheme \<Rightarrow> _)"
proof (induction xs)
  case (Cons x xs)
  have "fmt_ok '' %p'' [CNum x]" by simp
  then have "shows_on (\<lambda>s :: 'a kcons_scheme. rbind (cprintf (Some '' %p'') [CNum x] s) (print_pcs xs))"
    by (intro shows_on_bind shows_on_cprintf Cons)
  then show ?case by (cases "x = 0") (simp_all add: shows_on_Ret)
qed (simp add: shows_on_Ret)

lemma shows_on_dump_proc: "shows_on (dump_proc p :: 'a kcons_scheme \<Rightarrow> _)"
proof (cases "pstate p = UNUSED")
  case False
  have nl: "shows_on (cprintf (Some [CHR 0x0A]) [] :: 'a kcons_scheme \<Rightarrow> _)" by (rule shows_on_cprintf) simp
  have "shows_on (\<lambda>s :: 'a kcons_scheme. if pstate p = SLEEPING then print_pcs (getcallerpcs (mem s) (ctx_ebp (pcontext p) + 8)) s else Ret s)"
    using shows_on_print_pcs shows_on_Ret by (fastforce simp: shows_on_def)
  then have "shows_on (\<lambda>s :: 'a kcons_scheme. rbind (if pstate p = SLEEPING then print_pcs (getcallerpcs (mem s) (ctx_ebp (pcontext p) + 8)) s else Ret s)
    (cprintf (Some [CHR 0x0A]) []))"
    using nl by (rule shows_on_bind)
  moreover have "shows_on (cprintf (Some ''%d %s %s'') [CNum (pid p), CStr (Some (state_name (pstate p))), CStr (Some (cstring (pname p)))] :: 'a kcons_scheme \<Rightarrow> _)"
    by (rule shows_on_cprintf) simp
  ultimately show ?thesis
    using False unfolding dump_proc_def [abs_def] by (simp only: if_False shows_on_bind)
qed (simp add: dump_proc_def [abs_def] shows_on_Ret)

lemma shows_on_procdump: "shows_on (procdump :: 'a kcons_scheme \<Rightarrow> _)"
proof -
  have "shows_on (procdump_loop i n :: 'a kcons_scheme \<Rightarrow> _)" for i n
  proof (induction n arbitrary: i)
    case (Suc n)
    have "shows_on (\<lambda>s :: 'a kcons_scheme. dump_proc (ptable s ! i) s)"
      using shows_on_dump_proc unfolding shows_on_def by blast
    from shows_on_bind [OF this Suc] show ?case by simp
  next
    case 0
    show ?case by (simp only: procdump_loop.simps shows_on_Ret)
  qed
  then show ?thesis by (simp add: procdump_def [abs_def])
qed

subsection \<open>The ring as a line editor\<close>

text \<open>
  The characters in the ring, those that a reader may take, and the line that is being
  edited.
\<close>

definition in_len :: "input \<Rightarrow> nat" where "in_len b = unat (ine b - inr b)"
definition in_done :: "input \<Rightarrow> nat" where "in_done b = unat (inw b - inr b)"

definition typed :: "input \<Rightarrow> uchar list" where
  "typed b = map (\<lambda>k. ibuf b ! ((unat (inr b) + k) mod INPUT_BUF)) [0..<in_len b]"

definition con_text :: "input \<Rightarrow> uchar list \<times> uchar list" where
  "con_text b = (take (in_done b) (typed b), drop (in_done b) (typed b))"

definition inp_inv :: "input \<Rightarrow> bool" where
  "inp_inv b \<longleftrightarrow> length (ibuf b) = INPUT_BUF \<and> in_done b \<le> in_len b \<and> in_len b \<le> INPUT_BUF \<and> 10 \<notin> set (snd (con_text b))"

lemma length_typed [simp]: "length (typed b) = in_len b"
  by (simp add: typed_def)

lemma in_slot: "unat (a + of_nat k :: uint) mod INPUT_BUF = (unat a + k) mod INPUT_BUF"
proof -
  have "unat (a + of_nat k) = (unat a + k) mod 2 ^ 32"
    by (simp add: unat_word_ariths unat_of_nat mod_add_right_eq)
  then show ?thesis by (simp add: INPUT_BUF_def mod_mod_cancel)
qed

lemma in_ends: "ine b = inr b + of_nat (in_len b)" "inw b = inr b + of_nat (in_done b)"
  by (simp_all add: in_len_def in_done_def)

lemma unat_small: "n \<le> 128 \<Longrightarrow> unat (of_nat n :: uint) = n"
  by (simp add: unat_of_nat)

lemma in_lenI: "ine b = inr b + of_nat n \<Longrightarrow> n \<le> 128 \<Longrightarrow> in_len b = n"
  by (simp add: in_len_def unat_small)

lemma in_doneI: "inw b = inr b + of_nat n \<Longrightarrow> n \<le> 128 \<Longrightarrow> in_done b = n"
  by (simp add: in_done_def unat_small)

lemma of_nat_inj_small: "n \<le> 128 \<Longrightarrow> m \<le> 128 \<Longrightarrow> (of_nat n :: uint) = of_nat m \<longleftrightarrow> n = m"
  using unat_small by metis

lemma in_empty: "inp_inv b \<Longrightarrow> ine b = inw b \<longleftrightarrow> in_len b = in_done b" "inp_inv b \<Longrightarrow> inr b = inw b \<longleftrightarrow> in_done b = 0"
  using of_nat_inj_small [of "in_len b" "in_done b"] of_nat_inj_small [of "in_done b" 0]
  by (auto simp: in_ends inp_inv_def INPUT_BUF_def)

lemma typed_last: "0 < in_len b \<Longrightarrow> ibuf b ! (unat (ine b - 1) mod INPUT_BUF) = last (typed b)"
proof -
  assume "0 < in_len b"
  then obtain n where n: "in_len b = Suc n" by (cases "in_len b") auto
  then have "ine b - 1 = inr b + of_nat n" by (simp add: in_ends(1))
  then show ?thesis using n by (simp add: in_slot typed_def)
qed

lemma erase_typed:
  assumes "inp_inv b" "in_done b < in_len b"
  shows "in_len (b\<lparr>ine := ine b - 1\<rparr>) = in_len b - 1" "typed (b\<lparr>ine := ine b - 1\<rparr>) = butlast (typed b)"
    "in_done (b\<lparr>ine := ine b - 1\<rparr>) = in_done b"
proof -
  obtain n where n: "in_len b = Suc n" "n \<le> 128" using assms by (cases "in_len b") (auto simp: inp_inv_def INPUT_BUF_def)
  have "ine b - 1 = inr b + of_nat n" using n by (simp add: in_ends(1))
  then have "in_len (b\<lparr>ine := ine b - 1\<rparr>) = n" using n by (intro in_lenI) simp_all
  then show "in_len (b\<lparr>ine := ine b - 1\<rparr>) = in_len b - 1" "typed (b\<lparr>ine := ine b - 1\<rparr>) = butlast (typed b)"
    using n by (simp_all add: typed_def)
  show "in_done (b\<lparr>ine := ine b - 1\<rparr>) = in_done b" by (simp add: in_done_def)
qed

lemma erase_text:
  assumes inv: "inp_inv b" and ne: "in_done b < in_len b"
  shows "con_text (b\<lparr>ine := ine b - 1\<rparr>) = (fst (con_text b), butlast (snd (con_text b)))" "inp_inv (b\<lparr>ine := ine b - 1\<rparr>)"
proof -
  note e = erase_typed [OF inv ne]
  show t: "con_text (b\<lparr>ine := ine b - 1\<rparr>) = (fst (con_text b), butlast (snd (con_text b)))"
    using ne by (simp add: con_text_def e butlast_conv_take drop_take)
  show "inp_inv (b\<lparr>ine := ine b - 1\<rparr>)"
    using inv ne by (auto simp: inp_inv_def t e dest: in_set_butlastD)
qed

lemma put_typed:
  fixes x :: uchar
  assumes inv: "inp_inv b" and room: "in_len b < INPUT_BUF"
  defines "b' \<equiv> b\<lparr>ibuf := (ibuf b)[unat (ine b) mod INPUT_BUF := x], ine := ine b + 1\<rparr>"
  shows "in_len b' = Suc (in_len b)" "in_done b' = in_done b" "typed b' = typed b @ [x]" "length (ibuf b') = INPUT_BUF"
proof -
  have len: "length (ibuf b) = INPUT_BUF" using inv by (simp add: inp_inv_def)
  have e: "ine b + 1 = inr b + of_nat (Suc (in_len b))" by (simp add: in_ends(1))
  show l: "in_len b' = Suc (in_len b)"
    unfolding b'_def by (rule in_lenI) (use room e in \<open>simp_all add: INPUT_BUF_def\<close>)
  show "in_done b' = in_done b" by (simp add: in_done_def b'_def)
  show "length (ibuf b') = INPUT_BUF" using len by (simp add: b'_def)
  have i: "unat (ine b) mod INPUT_BUF = (unat (inr b) + in_len b) mod INPUT_BUF"
    by (subst in_ends(1)) (rule in_slot)
  have "(unat (inr b) + k) mod INPUT_BUF \<noteq> (unat (inr b) + in_len b) mod INPUT_BUF" if "k < in_len b" for k
    using mod_diff_less [of "unat (inr b)" k INPUT_BUF "in_len b"] that room by auto
  then have "ibuf b' ! ((unat (inr b) + k) mod INPUT_BUF) = ibuf b ! ((unat (inr b) + k) mod INPUT_BUF)" if "k < in_len b" for k
    using that by (simp add: b'_def i nth_list_update_neq [OF not_sym])
  moreover have "ibuf b' ! ((unat (inr b) + in_len b) mod INPUT_BUF) = x"
  proof -
    have "unat (ine b) mod INPUT_BUF < length (ibuf b)" unfolding len by (simp add: INPUT_BUF_def)
    then show ?thesis by (simp add: b'_def flip: i)
  qed
  ultimately show "typed b' = typed b @ [x]"
    using l by (simp add: typed_def b'_def)
qed

text \<open>What a character does to the lines that are done and to the one being edited.\<close>

definition edit :: "int \<Rightarrow> uchar list \<times> uchar list \<Rightarrow> uchar list \<times> uchar list" where
  "edit c t =
     (case t of (done, line) \<Rightarrow>
        if c = 16 then (done, line)
        else if c = 21 then (done, [])
        else if c = 8 \<or> c = 127 then (done, butlast line)
        else if c = 0 \<or> length done + length line \<ge> 128 then (done, line)
        else let line = line @ [if c = 13 then 10 else word_of_int c]
          in if c = 10 \<or> c = 13 \<or> c = 4 \<or> length done + length line = 128 then (done @ line, []) else (done, line))"

lemma ctrl_simps [simp]:
  "ctrl CHR ''P'' = 16" "ctrl CHR ''U'' = 21" "ctrl CHR ''H'' = 8" "ctrl CHR ''D'' = 4"
  by (simp_all add: ctrl_def)

lemma lift_con_prints:
  assumes "prints f" "scr_ok (con s)"
  obtains d where "lift_con f s = Ret (s\<lparr>con := d\<rparr>)" "scr_ok d" "inp d = inp (con s)"
  using assms by (auto simp: lift_con_def elim: printsE)

lemma erase_ok:
  assumes "scr_ok d"
  obtains d' where "erase d = Ret d'" "scr_ok d'" "inp d' = (inp d)\<lparr>ine := ine (inp d) - 1\<rparr>"
proof -
  have "scr_ok (d\<lparr>inp := (inp d)\<lparr>ine := ine (inp d) - 1\<rparr>\<rparr>)" using assms by (simp add: scr_ok_def)
  with prints_consputc obtain d' where "erase d = Ret d'" "scr_ok d'" "inp d' = (inp d)\<lparr>ine := ine (inp d) - 1\<rparr>"
    unfolding erase_def by (rule printsE) simp
  then show thesis by (rule that)
qed

lemma kill_line_ok:
  assumes "scr_ok d" "inp_inv (inp d)"
  shows "\<exists>d'. kill_line d = Ret d' \<and> scr_ok d' \<and> inp_inv (inp d') \<and> con_text (inp d') = (fst (con_text (inp d)), [])"
  using assms
proof (induction "in_len (inp d)" arbitrary: d rule: less_induct)
  case less
  let ?b = "inp d"
  show ?case
  proof (cases "in_len ?b = in_done ?b")
    case True
    then have "kill_line d = Ret d" using in_empty(1) [OF less(3)] by (subst kill_line.simps) simp
    then show ?thesis using True less by (simp add: con_text_def)
  next
    case False
    then have lt: "in_done ?b < in_len ?b" using less(3) by (simp add: inp_inv_def)
    have "last (typed ?b) = last (snd (con_text ?b))" "snd (con_text ?b) \<noteq> []"
      using lt by (simp_all add: con_text_def)
    then have "last (typed ?b) \<in> set (snd (con_text ?b))" by simp
    then have nl: "last (typed ?b) \<noteq> 10" using less(3) by (auto simp: inp_inv_def)
    obtain d' where d': "erase d = Ret d'" "scr_ok d'" "inp d' = ?b\<lparr>ine := ine ?b - 1\<rparr>"
      using less(2) by (rule erase_ok)
    have "kill_line d = kill_line d'"
      using False nl d'(1) lt in_empty(1) [OF less(3)] by (subst kill_line.simps) (simp add: typed_last)
    moreover have "\<exists>e. kill_line d' = Ret e \<and> scr_ok e \<and> inp_inv (inp e) \<and> con_text (inp e) = (fst (con_text (inp d')), [])"
      using d'(2,3) erase_text [OF less(3) lt] erase_typed [OF less(3) lt] lt by (intro less(1)) simp_all
    ultimately show ?thesis using d'(3) erase_text [OF less(3) lt] by simp
  qed
qed

text \<open>
  \<open>intr_done s c t\<close>: handling the typed characters of \<open>c\<close> leads from \<open>s\<close> to \<open>t\<close>.
\<close>

definition con_ok :: "console \<Rightarrow> bool" where
  "con_ok d \<longleftrightarrow> scr_ok d \<and> inp_inv (inp d)"

definition awake :: "chan \<Rightarrow> proc list \<Rightarrow> bool" where
  "awake ch ps \<longleftrightarrow> (\<forall>p \<in> set ps. \<not> (pstate p = SLEEPING \<and> chan_of p = Some ch))"

definition intr_done :: "'a kcons_scheme \<Rightarrow> int list \<Rightarrow> 'a kcons_scheme \<Rightarrow> bool" where
  "intr_done s cs t \<longleftrightarrow>
     (\<exists>ps d. t = s\<lparr>ptable := ps, con := d\<rparr> \<and> (ps = ptable s \<or> awake ChInput ps) \<and>
        (length (fst (con_text (inp d))) \<noteq> length (fst (con_text (inp (con s)))) \<longrightarrow> awake ChInput ps)) \<and>
     con_ok (con t) \<and> con_text (inp (con t)) = fold edit cs (con_text (inp (con s)))"

lemma awake_wakeup1: "awake ch (ptable (wakeup1 ch s))"
  by (auto simp: awake_def wakeup1_def wake_def)

lemma text_lens: "inp_inv b \<Longrightarrow> length (fst (con_text b)) = in_done b \<and> length (snd (con_text b)) = in_len b - in_done b"
  by (simp add: con_text_def inp_inv_def)

lemma put_text:
  assumes inv: "inp_inv b" and room: "in_len b < INPUT_BUF" and x: "x \<noteq> 10"
  defines "b' \<equiv> b\<lparr>ibuf := (ibuf b)[unat (ine b) mod INPUT_BUF := x], ine := ine b + 1\<rparr>"
  shows "con_text b' = (fst (con_text b), snd (con_text b) @ [x])" "inp_inv b'"
proof -
  note p = put_typed [OF inv room, of x, folded b'_def]
  show t: "con_text b' = (fst (con_text b), snd (con_text b) @ [x])"
    using inv by (simp add: con_text_def p inp_inv_def)
  show "inp_inv b'" using inv room x by (simp add: inp_inv_def p t)
qed

lemma commit_text:
  fixes x :: uchar
  assumes inv: "inp_inv b" and room: "in_len b < INPUT_BUF"
  defines "b' \<equiv> b\<lparr>ibuf := (ibuf b)[unat (ine b) mod INPUT_BUF := x], ine := ine b + 1\<rparr>"
  shows "con_text (b'\<lparr>inw := ine b'\<rparr>) = (fst (con_text b) @ snd (con_text b) @ [x], [])" "inp_inv (b'\<lparr>inw := ine b'\<rparr>)"
proof -
  note p = put_typed [OF inv room, of x, folded b'_def]
  have t: "typed (b'\<lparr>inw := ine b'\<rparr>) = typed b'" "in_len (b'\<lparr>inw := ine b'\<rparr>) = in_len b'"
    "in_done (b'\<lparr>inw := ine b'\<rparr>) = in_len b'"
    by (simp_all add: typed_def in_len_def in_done_def)
  show c: "con_text (b'\<lparr>inw := ine b'\<rparr>) = (fst (con_text b) @ snd (con_text b) @ [x], [])"
    by (simp add: con_text_def t p)
  show "inp_inv (b'\<lparr>inw := ine b'\<rparr>)"
    using room p(1,4) by (simp add: inp_inv_def c t)
qed

lemma in_room: "ine b - inr b < of_nat INPUT_BUF \<longleftrightarrow> in_len b < INPUT_BUF"
  by (simp add: word_less_nat_alt in_len_def unat_small INPUT_BUF_def)

lemma in_full: "inp_inv b \<Longrightarrow> in_len b < INPUT_BUF \<Longrightarrow> ine b + 1 = inr b + of_nat INPUT_BUF \<longleftrightarrow> Suc (in_len b) = INPUT_BUF"
proof -
  assume "in_len b < INPUT_BUF"
  then have "(of_nat (Suc (in_len b)) :: uint) = of_nat INPUT_BUF \<longleftrightarrow> Suc (in_len b) = INPUT_BUF"
    by (intro of_nat_inj_small) (simp_all add: INPUT_BUF_def)
  moreover have "ine b + 1 = inr b + of_nat (Suc (in_len b))" by (simp add: in_ends(1))
  ultimately show ?thesis by (simp add: ac_simps)
qed

lemma intr_done_con:
  assumes "con_ok d" "con_text (inp d) = edit c (con_text (inp (con s)))"
    "length (fst (con_text (inp d))) = length (fst (con_text (inp (con s))))"
  shows "intr_done s [c] (s\<lparr>con := d\<rparr>)"
  using assms unfolding intr_done_def
  by (intro conjI exI [of _ "ptable s"] exI [of _ d]) simp_all

lemma type_char_ok:
  assumes s: "cpu_ok s" "lock_free PtableLock s" "con_ok (con s)" and c: "0 \<le> c" "c < 256"
    and plain: "c \<noteq> 16" "c \<noteq> 21" "c \<noteq> 8" "c \<noteq> 127"
  shows "\<exists>t. type_char c s = Ret t \<and> intr_done s [c] t"
proof -
  define b where "b = inp (con s)"
  have inv: "inp_inv b" and scr: "scr_ok (con s)" using s(3) by (simp_all add: con_ok_def b_def)
  obtain dn ln where tx: "con_text b = (dn, ln)" by (cases "con_text b")
  have lens: "length dn = in_done b" "length ln = in_len b - in_done b" "in_done b \<le> in_len b"
    using text_lens [OF inv] tx inv by (simp_all add: inp_inv_def)
  show ?thesis
  proof (cases "c \<noteq> 0 \<and> in_len b < INPUT_BUF")
    case False
    then have "edit c (dn, ln) = (dn, ln)" using lens plain by (auto simp: edit_def INPUT_BUF_def)
    then have "intr_done s [c] (s\<lparr>con := con s\<rparr>)"
      using s(3) tx by (intro intr_done_con) (simp_all add: b_def)
    moreover have "type_char c s = Ret s"
      unfolding type_char_def Let_def b_def [symmetric] in_room using False by (rule if_not_P)
    ultimately show ?thesis by simp
  next
    case True
    define e where "e = (if c = 13 then 10 else c)"
    define b' where "b' = b\<lparr>ibuf := (ibuf b)[unat (ine b) mod INPUT_BUF := word_of_int e], ine := ine b + 1\<rparr>"
    have "scr_ok (con (s\<lparr>con := (con s)\<lparr>inp := b'\<rparr>\<rparr>))" using scr by (simp add: scr_ok_def)
    then obtain d where d: "lift_con (consputc e) (s\<lparr>con := (con s)\<lparr>inp := b'\<rparr>\<rparr>) = Ret (s\<lparr>con := d\<rparr>)" "scr_ok d" "inp d = b'"
      using lift_con_prints [OF prints_consputc, of "s\<lparr>con := (con s)\<lparr>inp := b'\<rparr>\<rparr>" e] by auto
    let ?commit = "e = 10 \<or> e = 4 \<or> Suc (in_len b) = INPUT_BUF"
    have run: "type_char c s = (if ?commit then wakeup ChInput (s\<lparr>con := d\<lparr>inp := b'\<lparr>inw := ine b'\<rparr>\<rparr>\<rparr>) else Ret (s\<lparr>con := d\<rparr>))"
      unfolding type_char_def Let_def b_def [symmetric] in_room if_P [OF True] e_def [symmetric] b'_def [symmetric] d(1)
      using in_full [OF inv conjunct2 [OF True]] by (simp add: b'_def)
    show ?thesis
    proof (cases ?commit)
      case False
      have "e mod 256 = e" using c by (auto simp: e_def)
      then have x: "(word_of_int e :: uchar) \<noteq> 10"
        using False by (simp add: word_uint_eq_iff uint_word_of_int)
      have "edit c (dn, ln) = (dn, ln @ [word_of_int e])"
        using True False lens plain by (auto simp: edit_def e_def INPUT_BUF_def split: if_splits)
      then have "intr_done s [c] (s\<lparr>con := d\<rparr>)"
        using put_text [OF inv conjunct2 [OF True] x] d(2,3) tx
        by (intro intr_done_con) (simp_all add: con_ok_def b'_def flip: b_def)
      then show ?thesis using run False by simp
    next
      case com: True
      let ?u = "s\<lparr>con := d\<lparr>inp := b'\<lparr>inw := ine b'\<rparr>\<rparr>\<rparr>"
      have "edit c (dn, ln) = (dn @ ln @ [word_of_int e], [])"
        using True com lens plain by (auto simp: edit_def e_def INPUT_BUF_def split: if_splits)
      moreover have "scr_ok (d\<lparr>inp := b'\<lparr>inw := ine b'\<rparr>\<rparr>)" using d(2) by (simp add: scr_ok_def)
      ultimately have "intr_done s [c] (wakeup1 ChInput ?u)"
        using commit_text [OF inv conjunct2 [OF True], of "word_of_int e"] tx awake_wakeup1 [of ChInput ?u]
        unfolding intr_done_def
        by (intro conjI exI [of _ "ptable (wakeup1 ChInput ?u)"] exI [of _ "d\<lparr>inp := b'\<lparr>inw := ine b'\<rparr>\<rparr>"])
          (simp_all add: con_ok_def b'_def wakeup1_def flip: b_def)
      then show ?thesis using run com s by (simp add: wakeup_Ret)
    qed
  qed
qed

lemma intr_char_ok:
  assumes s: "cpu_ok s" "lock_free PtableLock s" "con_ok (con s)" and c: "0 \<le> c" "c < 256"
  shows "\<exists>dump' t. intr_char c (dump, s) = Ret (dump', t) \<and> intr_done s [c] t"
proof -
  let ?b = "inp (con s)"
  have inv: "inp_inv ?b" and scr: "scr_ok (con s)" using s(3) by (simp_all add: con_ok_def)
  obtain dn ln where tx: "con_text ?b = (dn, ln)" by (cases "con_text ?b")
  have same: "intr_done s [c] s" if "edit c (dn, ln) = (dn, ln)"
    using intr_done_con [of "con s" c s] s(3) tx that by simp
  consider "c = 16" | "c = 21" | "c = 8 \<or> c = 127" | "c \<noteq> 16 \<and> c \<noteq> 21 \<and> c \<noteq> 8 \<and> c \<noteq> 127" by blast
  then show ?thesis
  proof cases
    case 1
    then show ?thesis using same by (intro exI [of _ True] exI [of _ s]) (simp add: intr_char_def edit_def)
  next
    case 2
    obtain d where "kill_line (con s) = Ret d" "scr_ok d" "inp_inv (inp d)" "con_text (inp d) = (dn, [])"
      using kill_line_ok [OF scr inv] tx by auto
    then show ?thesis
      using 2 tx intr_done_con [of d c s] by (simp add: intr_char_def lift_con_def con_ok_def edit_def)
  next
    case 3
    show ?thesis
    proof (cases "in_len ?b = in_done ?b")
      case True
      then have "ln = []" using text_lens [OF inv] tx by simp
      then show ?thesis using 3 True in_empty(1) [OF inv] same by (auto simp: intr_char_def edit_def)
    next
      case False
      then have lt: "in_done ?b < in_len ?b" using inv by (simp add: inp_inv_def)
      obtain d where d: "erase (con s) = Ret d" "scr_ok d" "inp d = ?b\<lparr>ine := ine ?b - 1\<rparr>" using scr by (rule erase_ok)
      have "con_text (inp d) = (dn, butlast ln)" "inp_inv (inp d)"
        using erase_text [OF inv lt] d(3) tx by simp_all
      then show ?thesis
        using 3 False d(1,2) tx in_empty(1) [OF inv] intr_done_con [of d c s]
        by (auto simp: intr_char_def lift_con_def con_ok_def edit_def)
    qed
  next
    case 4
    then obtain t where "type_char c s = Ret t" "intr_done s [c] t" using type_char_ok [OF s c] by blast
    then show ?thesis using 4 by (simp add: intr_char_def)
  qed
qed

lemma edit_grows: "length (fst t) \<le> length (fst (edit c t))"
  by (cases t) (simp add: edit_def Let_def)

lemma intr_done_trans: "intr_done s [c] t \<Longrightarrow> intr_done t cs u \<Longrightarrow> intr_done s (c # cs) u"
proof -
  assume 1: "intr_done s [c] t" and 2: "intr_done t cs u"
  obtain ps d where t: "t = s\<lparr>ptable := ps, con := d\<rparr>" "ps = ptable s \<or> awake ChInput ps"
    "length (fst (con_text (inp d))) \<noteq> length (fst (con_text (inp (con s)))) \<longrightarrow> awake ChInput ps"
    using 1 unfolding intr_done_def by blast
  obtain qs e where u: "u = t\<lparr>ptable := qs, con := e\<rparr>" "qs = ptable t \<or> awake ChInput qs"
    "length (fst (con_text (inp e))) \<noteq> length (fst (con_text (inp (con t)))) \<longrightarrow> awake ChInput qs"
    using 2 unfolding intr_done_def by blast
  have "u = s\<lparr>ptable := qs, con := e\<rparr>" using t(1) u(1) by simp
  moreover have "qs = ptable s \<or> awake ChInput qs" using t(1,2) u(2) by auto
  moreover have "length (fst (con_text (inp e))) \<noteq> length (fst (con_text (inp (con s)))) \<longrightarrow> awake ChInput qs"
    using t(1,3) u(2,3) by auto
  ultimately have "\<exists>ps d. u = s\<lparr>ptable := ps, con := d\<rparr> \<and> (ps = ptable s \<or> awake ChInput ps) \<and>
      (length (fst (con_text (inp d))) \<noteq> length (fst (con_text (inp (con s)))) \<longrightarrow> awake ChInput ps)" by blast
  then show ?thesis using 1 2 by (simp add: intr_done_def)
qed

lemma intr_done_same: "intr_done s cs t \<Longrightarrow> same_cpu t s \<and> con_ok (con t)"
  by (auto simp: intr_done_def)

lemma consoleintr_loop_ok:
  assumes "cpu_ok s" "lock_free PtableLock s" "con_ok (con s)" "\<forall>c \<in> set cs. 0 \<le> c \<and> c < 256"
  shows "\<exists>dump' t. consoleintr_loop cs (dump, s) = Ret (dump', t) \<and> intr_done s cs t"
  using assms
proof (induction cs arbitrary: dump s)
  case Nil
  then have "intr_done s [] (s\<lparr>ptable := ptable s, con := con s\<rparr>)"
    unfolding intr_done_def by (intro conjI exI [of _ "ptable s"] exI [of _ "con s"]) simp_all
  then show ?case by simp
next
  case (Cons c cs)
  obtain dump1 t where t: "intr_char c (dump, s) = Ret (dump1, t)" "intr_done s [c] t"
    using intr_char_ok [OF Cons(2-4), of c dump] Cons(5) by auto
  have "cpu_ok t" "lock_free PtableLock t" "con_ok (con t)"
    using intr_done_same [OF t(2)] same_cpu_ok [of t s] same_cpu_free [of t s] Cons(2,3) by auto
  then obtain dump2 u where "consoleintr_loop cs (dump1, t) = Ret (dump2, u)" "intr_done t cs u"
    using Cons(1) [of t dump1] Cons(5) by auto
  then show ?case using t intr_done_trans by auto
qed

lemma consoleintr_ok:
  assumes s: "cpu_ok s" "lock_free ConsLock s" "lock_free PtableLock s" "con_ok (con s)"
    and cs: "\<forall>c \<in> set cs. 0 \<le> c \<and> c < 256"
  shows "\<exists>t. consoleintr cs s = Ret t \<and> intr_done s cs t"
proof -
  let ?a = "acq ConsLock s"
  have a: "cpu_ok ?a" "lock_free PtableLock ?a" "con_ok (con ?a)" using s by simp_all
  obtain dump t where t: "consoleintr_loop cs (False, ?a) = Ret (dump, t)" "intr_done ?a cs t"
    using consoleintr_loop_ok [OF a cs, of False] by auto
  obtain ps d where pd: "t = ?a\<lparr>ptable := ps, con := d\<rparr>" "ps = ptable s \<or> awake ChInput ps"
    "length (fst (con_text (inp d))) \<noteq> length (fst (con_text (inp (con s)))) \<longrightarrow> awake ChInput ps"
    using t(2) unfolding intr_done_def by auto
  have d: "con_ok d" "con_text (inp d) = fold edit cs (con_text (inp (con s)))"
    using t(2) pd(1) by (simp_all add: intr_done_def)
  let ?r = "s\<lparr>ptable := ps, con := d\<rparr>"
  have "release ConsLock t = Ret ?r"
    unfolding pd(1) by (subst release_acq [OF s(1,2)]) simp_all
  then have run: "consoleintr cs s = (if dump then procdump ?r else Ret ?r)"
    using s t(1) by (simp add: consoleintr_def acquire_free)
  have "same_cpu ?r s" by simp
  then have r: "cpu_ok ?r" "lock_free ConsLock ?r" "scr_ok (con ?r)"
    using s same_cpu_ok [of ?r s] same_cpu_free [of ?r s] d(1) by (simp_all add: con_ok_def)
  obtain e where e: "procdump ?r = Ret (?r\<lparr>con := e\<rparr>)" "scr_ok e" "inp e = inp d"
    using shows_onE [OF shows_on_procdump r] by auto
  define f where "f = (if dump then e else d)"
  have "consoleintr cs s = Ret (s\<lparr>ptable := ps, con := f\<rparr>)" using run e(1) by (simp add: f_def)
  moreover have "con_ok f" "inp f = inp d" using d(1) e by (simp_all add: f_def con_ok_def)
  then have "intr_done s cs (s\<lparr>ptable := ps, con := f\<rparr>)"
    unfolding intr_done_def using pd(2,3) d(2)
    by (intro conjI exI [of _ ps] exI [of _ f]) simp_all
  ultimately show ?thesis by blast
qed

text \<open>
  C6. The interrupt handler of the console is a line editor.  Typing any sequence of characters, in
  any state of the ring and its wrapping indices, returns without a panic and has the
  effect of \<open>edit\<close> on the finished lines and the current line: ordinary characters are
  appended while there is room, backspace and control-U erase within the current line only, and a newline,
  control-D or a full buffer hands the line over; then no process is left sleeping on the input.
\<close>

theorem consoleintr_edits:
  assumes "cpu_ok s" "lock_free ConsLock s" "lock_free PtableLock s" "con_ok (con s)"
    and "\<forall>c \<in> set cs. 0 \<le> c \<and> c < 256"
  shows "\<exists>t. consoleintr cs s = Ret t \<and> con_ok (con t) \<and>
    con_text (inp (con t)) = fold edit cs (con_text (inp (con s))) \<and>
    (length (fst (con_text (inp (con t)))) \<noteq> length (fst (con_text (inp (con s)))) \<longrightarrow> awake ChInput (ptable t))"
proof -
  obtain t where t: "consoleintr cs s = Ret t" "intr_done s cs t" using consoleintr_ok [OF assms] by blast
  obtain ps d where "t = s\<lparr>ptable := ps, con := d\<rparr>"
    "length (fst (con_text (inp d))) \<noteq> length (fst (con_text (inp (con s)))) \<longrightarrow> awake ChInput ps"
    using t(2) unfolding intr_done_def by blast
  moreover have "con_ok (con t)" "con_text (inp (con t)) = fold edit cs (con_text (inp (con s)))"
    using t(2) by (simp_all add: intr_done_def)
  ultimately show ?thesis using t(1) by auto
qed

subsection \<open>What a read gets\<close>

text \<open>
  What \<^verbatim>\<open>consoleread\<close> takes from the finished lines, and what it leaves; \<open>None\<close> if it has to wait for
  more.
\<close>

fun take_line :: "nat \<Rightarrow> bool \<Rightarrow> uchar list \<Rightarrow> (uchar list \<times> uchar list) option" where
  "take_line 0 first xs = Some ([], xs)"
| "take_line (Suc k) first [] = None"
| "take_line (Suc k) first (x # xs) =
     (if x = 4 then Some ([], if first then xs else x # xs)
      else if x = 10 then Some ([x], xs)
      else map_option (\<lambda>(ys, zs). (x # ys, zs)) (take_line k False xs))"

lemma read_typed:
  assumes inv: "inp_inv b" and ne: "0 < in_done b"
  defines "b' \<equiv> b\<lparr>inr := inr b + 1\<rparr>"
  shows "typed b = ibuf b ! (unat (inr b) mod INPUT_BUF) # typed b'" "in_len b = Suc (in_len b')" "in_done b = Suc (in_done b')"
proof -
  obtain n m where n: "in_len b = Suc n" "in_done b = Suc m" "n \<le> 128" "m \<le> 128"
    using inv ne by (cases "in_len b"; cases "in_done b") (auto simp: inp_inv_def INPUT_BUF_def)
  have "ine b = inr b + 1 + of_nat n" "inw b = inr b + 1 + of_nat m"
    using in_ends [of b] n(1,2) by simp_all
  then have l: "in_len b' = n" "in_done b' = m"
    using n(3,4) by (auto simp: b'_def intro!: in_lenI in_doneI)
  then show "in_len b = Suc (in_len b')" "in_done b = Suc (in_done b')" using n by simp_all
  have "(unat (inr b + 1) + k) mod INPUT_BUF = (unat (inr b) + Suc k) mod INPUT_BUF" for k
    using in_slot [of "inr b" 1] by (metis add.assoc mod_add_left_eq of_nat_1 plus_1_eq_Suc)
  then have "typed b' = map (\<lambda>k. ibuf b ! ((unat (inr b) + Suc k) mod INPUT_BUF)) [0..<n]"
    by (simp add: typed_def l(1)) (simp add: b'_def)
  moreover have "[0..<Suc n] = 0 # map Suc [0..<n]" by (simp add: map_Suc_upt upt_conv_Cons del: upt_Suc)
  ultimately show "typed b = ibuf b ! (unat (inr b) mod INPUT_BUF) # typed b'"
    by (simp add: typed_def n(1) del: upt_Suc)
qed

lemma read_text:
  assumes inv: "inp_inv b" and ne: "0 < in_done b"
  shows "con_text b = (ibuf b ! (unat (inr b) mod INPUT_BUF) # fst (con_text (b\<lparr>inr := inr b + 1\<rparr>)), snd (con_text (b\<lparr>inr := inr b + 1\<rparr>)))"
    "inp_inv (b\<lparr>inr := inr b + 1\<rparr>)"
proof -
  note r = read_typed [OF inv ne]
  show t: "con_text b = (ibuf b ! (unat (inr b) mod INPUT_BUF) # fst (con_text (b\<lparr>inr := inr b + 1\<rparr>)), snd (con_text (b\<lparr>inr := inr b + 1\<rparr>)))"
    by (simp add: con_text_def r(1,3))
  show "inp_inv (b\<lparr>inr := inr b + 1\<rparr>)" using inv r(2,3) t by (simp add: inp_inv_def)
qed

lemma consoleread_loop_ok:
  assumes "inp_inv b"
  shows "case take_line k first (fst (con_text b)) of
      None \<Rightarrow> snd (snd (consoleread_loop k first b))
    | Some (xs, rest) \<Rightarrow> \<exists>b'. consoleread_loop k first b = (xs, b', False) \<and> con_text b' = (rest, snd (con_text b)) \<and> inp_inv b'"
  using assms
proof (induction k first b rule: consoleread_loop.induct)
  case (1 first b)
  then show ?case by simp
next
  case (2 k first b)
  show ?case
  proof (cases "in_done b = 0")
    case True
    then show ?thesis using 2(2) in_empty(2) [OF 2(2)] by (simp add: con_text_def)
  next
    case False
    let ?b = "b\<lparr>inr := inr b + 1\<rparr>" and ?c = "ibuf b ! (unat (inr b) mod INPUT_BUF)"
    have ne: "inr b \<noteq> inw b" using in_empty(2) [OF 2(2)] False by simp
    note t = read_text [OF 2(2)]
    have 1: "case take_line k False (fst (con_text ?b)) of
        None \<Rightarrow> snd (snd (consoleread_loop k False ?b))
      | Some (xs, rest) \<Rightarrow> \<exists>b'. consoleread_loop k False ?b = (xs, b', False) \<and> con_text b' = (rest, snd (con_text ?b)) \<and> inp_inv b'"
      if "?c \<noteq> 4" "?c \<noteq> 10"
      using 2(1) [OF ne refl _ that(2)] that(1) t(2) False by simp
    show ?thesis
      using ne t False 2(2) 1 by (auto simp: Let_def split: option.splits prod.splits)
  qed
qed

lemma con_frame [simp]:
  "icache (s\<lparr>con := d\<rparr>) = icache s" "sleepl (s\<lparr>con := d\<rparr>) = sleepl s" "quiet (s\<lparr>con := d\<rparr>) = quiet s"
  "con (slock l s) = con s" "con (sunlock l s) = con s" "icache (slock l s) = icache s" "icache (sunlock l s) = icache s"
  "ptable (s\<lparr>con := d\<rparr>) = ptable s" "cur (s\<lparr>con := d\<rparr>) = cur s"
  by (simp_all add: slock_def sunlock_def wakeup1_def quiet_same cur_def this_cpu_def)

lemma ilock_again:
  assumes "quiet t" "sl_locked (sleepl t (InodeLock i)) = 0" "1 \<le> i_ref (icache t ! i)" "i_valid (icache t ! i)"
  shows "ilock (Some i) t = Ret (slock (InodeLock i) t)"
  using assms by (simp add: ilock_def acquiresleep_Ret slock_def)

text \<open>
  C37. Reading from the console.  A read of \<open>n\<close> bytes by a process that holds the inode gets the next
  line of what has been typed: up to and with its newline, at most \<open>n\<close> bytes, and up to a
  control-D, which is taken only if it is the first character.  The rest stays for the next
  read, and the inode is locked again.  If the finished lines do not suffice, the process sleeps
  on the input, or gets -1 when it has been killed.
\<close>

theorem consoleread_line:
  assumes q: "quiet s" and ok: "con_ok (con s)" and held: "slheld (InodeLock i) s"
    and ip: "1 \<le> i_ref (icache s ! i)" "i_valid (icache s ! i)"
  shows "case take_line (nat n) True (fst (con_text (inp (con s)))) of
      None \<Rightarrow> (if killed (ptable s ! the (cur s)) then \<exists>xs t. consoleread i n s = Ret (- 1, xs, t)
               else consoleread i n s = Wait (Sleeps ChInput))
    | Some (xs, rest) \<Rightarrow> \<exists>t. consoleread i n s = Ret (int (length xs), xs, t) \<and> con_ok (con t) \<and>
        con_text (inp (con t)) = (rest, snd (con_text (inp (con s)))) \<and> quiet t \<and> slheld (InodeLock i) t"
proof -
  let ?l = "InodeLock i"
  define u where "u = sunlock ?l s"
  have u: "quiet u" "con u = con s" "icache u = icache s" "sl_locked (sleepl u ?l) = 0"
    using q by (simp_all add: u_def)
  have c: "cpu_ok u" "lock_free ConsLock u" using u(1) by (auto elim: quietE)
  have io: "iunlock (Some i) s = Ret u"
    using q held ip by (simp add: iunlock_def holdingsleep_Ret releasesleep_Ret u_def)
  obtain xs b w where l: "consoleread_loop (nat n) True (inp (con s)) = (xs, b, w)" by (cases "consoleread_loop (nat n) True (inp (con s))")
  define t where "t = u\<lparr>con := (con s)\<lparr>inp := b\<rparr>\<rparr>"
  have t: "quiet t" "sl_locked (sleepl t ?l) = 0" "icache t = icache s" using u by (simp_all add: t_def)
  have r: "release ConsLock ((acq ConsLock u)\<lparr>con := (con s)\<lparr>inp := b\<rparr>\<rparr>) = Ret t"
    by (subst release_acq [OF c]) (simp_all add: t_def)
  have il: "ilock (Some i) t = Ret (slock ?l t)" using t ip by (intro ilock_again) simp_all
  have k: "myproc_killed ((acq ConsLock u)\<lparr>con := d\<rparr>) = Ret (killed (ptable s ! the (cur s)), (acq ConsLock u)\<lparr>con := d\<rparr>)" for d
  proof -
    obtain p where p: "cur s = Some p" "p < length (ptable s)" using q by (rule quietE)
    have "killed (ptable u ! p) = killed (ptable s ! p)"
      using p(2) by (simp add: u_def sunlock_def wakeup1_def wake_def)
    moreover have "cur u = Some p" using p(1) by (simp add: u_def)
    ultimately show ?thesis using c(1) p(1) by (simp add: myproc_killed_def myproc_Ret)
  qed
  have run: "consoleread i n s = (if w then (if killed (ptable s ! the (cur s)) then Ret (- 1, xs, slock ?l t) else Wait (Sleeps ChInput))
      else Ret (int (length xs), xs, slock ?l t))"
    using c by (simp add: consoleread_def io acquire_free u(2) l k r il)
  have end_ok: "quiet (slock ?l t)" "slheld ?l (slock ?l t)" "con (slock ?l t) = (con s)\<lparr>inp := b\<rparr>"
    using t(1) by (simp_all add: t_def)
  have "inp_inv (inp (con s))" using ok by (simp add: con_ok_def)
  from consoleread_loop_ok [OF this, of "nat n" True] show ?thesis
    using run l end_ok ok by (auto simp: con_ok_def scr_ok_def split: option.splits)
qed

subsection \<open>An example\<close>

text \<open>
  A machine with one process, which holds the inode of the console; the ring is empty and its
  indices are about to wrap around.
\<close>

definition con0 :: console where
  "con0 = \<lparr>cons_locking = True, panicked = False, crt = (\<lambda>_. 0), crt_pos = 0, uart_on = True, uart_out = [],
     uart_rx = [], kbd_rx = [], kbd_shift = 0,
     inp = \<lparr>ibuf = replicate 128 0, inr = 0xFFFFFFFE, inw = 0xFFFFFFFE, ine = 0xFFFFFFFE\<rparr>\<rparr>"

definition kcons0 :: kcons where
  "kcons0 = kbio0 0 (klog_ext 2 30 0 False 1 0 (replicate LOGSIZE 0) (kfile_ext (\<lambda>_. pipe0) []
     (kfs_ext [\<lparr>i_type = T_DEV, i_major = 1, i_minor = 1, i_nlink = 1, i_size = 0, i_addrs = replicate 13 0,
       i_dev = 1, i_inum = 3, i_ref = 1, i_valid = True\<rparr>]
     \<lparr>sb_size = 64, sb_nblocks = 28, sb_ninodes = 16, sb_nlog = 30, sb_logstart = 2, sb_inodestart = 32, sb_bmapstart = 35\<rparr>
     (kvm_ext 0 0 (\<lambda>_ _. SEG 0 0 0 0) (\<lambda>_. taskstate_ext 0 0 0 0 0 0 0 0 0 0 0 0 0 0 0 0 0 0 0 0 0 0 0 0 0 0 0 0 0 0 0 0 0 0 0 0 0 ()) None 0 0 0 0 0 0 (\<lambda>_. 0) True
     (ksys_ext 0 (kcons_ext con0 ()))))))"

lemma kcons0_quiet: "quiet kcons0"
  unfolding kcons0_def by (rule kbio0_quiet)

lemma kcons0_con [simp]: "con kcons0 = con0"
  by (simp add: kcons0_def kbio0_def)

lemma con0_ok: "con_ok con0" "con_text (inp con0) = ([], [])"
proof -
  show t: "con_text (inp con0) = ([], [])" by (simp add: con_text_def typed_def in_len_def con0_def)
  have "in_len (inp con0) = 0" "in_done (inp con0) = 0" by (simp_all add: in_len_def in_done_def con0_def)
  then show "con_ok con0" using t by (simp add: con_ok_def scr_ok_def inp_inv_def) (simp add: con0_def INPUT_BUF_def)
qed

theorem consoleintr_edits_witness:
  "\<exists>t. consoleintr [97, 98, 8, 99, 13, 100] kcons0 = Ret t \<and> con_text (inp (con t)) = ([97, 99, 10], [100])"
proof -
  have "cpu_ok kcons0" "lock_free ConsLock kcons0" "lock_free PtableLock kcons0" "con_ok (con kcons0)"
    using kcons0_quiet con0_ok(1) by (auto elim: quietE)
  from consoleintr_edits [OF this, of "[97, 98, 8, 99, 13, 100]"] show ?thesis
    by (auto simp: con0_ok(2) edit_def)
qed

text \<open>The same console after a line has been typed: it lies across the end of the ring.\<close>

definition con1 :: console where
  "con1 = con0\<lparr>inp := \<lparr>ibuf = [10] @ replicate 125 0 @ [104, 105], inr = 0xFFFFFFFE, inw = 1, ine = 1\<rparr>\<rparr>"

lemma con1_ok: "con_ok con1" "con_text (inp con1) = ([104, 105, 10], [])"
proof -
  have l: "in_len (inp con1) = 3" "in_done (inp con1) = 3" by (simp_all add: in_len_def in_done_def con1_def)
  have "[0..<3] = [0, 1, 2 :: nat]" by (simp add: upt_rec)
  then have "typed (inp con1) = [104, 105, 10]"
    by (simp add: typed_def l) (simp add: con1_def INPUT_BUF_def nth_append nth_Cons')
  then show t: "con_text (inp con1) = ([104, 105, 10], [])" by (simp add: con_text_def l)
  show "con_ok con1" using t l by (simp add: con_ok_def scr_ok_def inp_inv_def) (simp add: con1_def con0_def INPUT_BUF_def)
qed

theorem consoleread_line_witness:
  "\<exists>t. consoleread 0 80 (slock (InodeLock 0) (kcons0\<lparr>con := con1\<rparr>)) = Ret (3, [104, 105, 10], t) \<and> con_text (inp (con t)) = ([], [])"
proof -
  let ?s = "slock (InodeLock 0) (kcons0\<lparr>con := con1\<rparr>)"
  have "1 \<le> i_ref (icache ?s ! 0)" "i_valid (icache ?s ! 0)" by (simp_all add: kcons0_def kbio0_def)
  moreover have "take_line (Suc (Suc (Suc k))) True [104, 105, 10] = Some ([104, 105, 10], [])" for k by simp
  from this [of 77] have "take_line (nat 80) True [104, 105, 10] = Some ([104, 105, 10], [])" by simp
  ultimately show ?thesis
    using consoleread_line [of ?s 0 80] kcons0_quiet con1_ok by auto
qed

end
