(* ===== verification/Args.thy ===== *)
theory Args
  imports Console Pagetable
begin

text \<open>
  System call arguments come from user memory and cannot be trusted.  The lemmas show that
  fetching them never makes the kernel fault and never lets a pointer through that reaches
  outside the memory of the process, whatever the process has put on its stack.
\<close>

subsection \<open>Reading user memory\<close>

text \<open>\<open>user_mapped s p\<close>: process \<open>p\<close> runs, with all its memory below \<^verbatim>\<open>KERNBASE\<close> and mapped.\<close>

definition user_mapped :: "'a kvm_scheme \<Rightarrow> nat \<Rightarrow> bool" where
  "user_mapped s p \<longleftrightarrow> cpu_ok s \<and> cur s = Some p \<and> sz (ptable s ! p) \<le> KERNBASE \<and>
     (\<forall>va < sz (ptable s ! p). translate (mem s) (P2V (cr3 s)) va \<noteq> None)"

text \<open>The byte of user memory at an address.\<close>

definition ubyte :: "'a kvm_scheme \<Rightarrow> uint \<Rightarrow> uchar" where
  "ubyte s va = mem s (fst (the (translate (mem s) (P2V (cr3 s)) va)))"

lemma curproc_mapped: "user_mapped s p \<Longrightarrow> curproc s = Ret (p, s)"
  by (simp add: user_mapped_def curproc_def myproc_Ret)

lemma uload_mapped: "user_mapped s p \<Longrightarrow> va < sz (ptable s ! p) \<Longrightarrow> uload va s = Ret (ubyte s va)"
  by (auto simp: user_mapped_def uload_def ubyte_def)

lemma sz_bound: "user_mapped s p \<Longrightarrow> unat (sz (ptable s ! p)) \<le> 2147483648"
  by (simp add: user_mapped_def word_le_nat_alt KERNBASE_def)

lemma below_sz:
  assumes "user_mapped s p" "unat a + k < unat (sz (ptable s ! p))"
  shows "a + of_nat k < sz (ptable s ! p)"
proof -
  have "unat a + k < 2 ^ 32" using assms sz_bound [OF assms(1)] by simp
  then have "unat (a + of_nat k) = unat a + k" by (rule unat_add_of_nat)
  then show ?thesis using assms(2) by (simp add: word_less_nat_alt)
qed

lemma range_ok:
  assumes m: "user_mapped s p" and len: "0 \<le> len" "len < 2147483648"
    and ok: "\<not> (i \<ge> sz (ptable s ! p) \<or> i + of_int len > sz (ptable s ! p))"
  shows "unat i + nat len \<le> unat (sz (ptable s ! p))"
proof -
  have "unat i < 2147483648" using ok sz_bound [OF m] by (simp add: word_le_nat_alt not_le)
  then have "unat (i + of_nat (nat len)) = unat i + nat len"
    using len by (intro unat_add_of_nat) simp
  moreover have "i + of_int len = i + of_nat (nat len)" using len by simp
  ultimately show ?thesis using ok by (simp add: word_less_nat_alt not_less)
qed

lemma fetchint_ok:
  assumes m: "user_mapped s p"
  shows "\<exists>r. fetchint addr s = Ret (r, s)"
proof (cases "addr \<ge> sz (ptable s ! p) \<or> addr + 4 > sz (ptable s ! p)")
  case True
  then show ?thesis using curproc_mapped [OF m] by (simp add: fetchint_def)
next
  case False
  then have "unat addr + 4 \<le> unat (sz (ptable s ! p))" using range_ok [OF m, of 4 addr] by simp
  then have "addr + of_nat k < sz (ptable s ! p)" if "k < 4" for k
    using that by (intro below_sz [OF m]) simp
  from this [of 0] this [of 1] this [of 2] this [of 3] show ?thesis
    using False curproc_mapped [OF m] by (simp add: fetchint_def uload32_def uload_mapped [OF m])
qed

lemma argint_ok: "user_mapped s p \<Longrightarrow> \<exists>r. argint n s = Ret (r, s)"
  by (simp add: argint_def curproc_mapped fetchint_ok)

text \<open>A string of user memory: its bytes, none of them NUL, and then a NUL, all inside the process.\<close>

definition ustring :: "'a kvm_scheme \<Rightarrow> nat \<Rightarrow> uint \<Rightarrow> uchar list \<Rightarrow> bool" where
  "ustring s p a xs \<longleftrightarrow> unat a + length xs < unat (sz (ptable s ! p)) \<and> 0 \<notin> set xs \<and>
     (\<forall>k < length xs. ubyte s (a + of_nat k) = xs ! k) \<and> ubyte s (a + of_nat (length xs)) = 0"

lemma fetchstr_loop_ok:
  assumes m: "user_mapped s p" and "unat a + n = unat (sz (ptable s ! p))"
  shows "\<exists>r. fetchstr_loop n a s = Ret r \<and> (\<forall>xs. r = Some xs \<longrightarrow> ustring s p a xs)"
  using assms(2)
proof (induction n arbitrary: a)
  case (Suc n)
  have ld: "uload a s = Ret (ubyte s a)" using Suc(2) by (intro uload_mapped [OF m]) (simp add: word_less_nat_alt)
  have "unat a + 1 < 2 ^ 32" using Suc(2) sz_bound [OF m] by simp
  then have a1: "unat (a + 1) = unat a + 1" using unat_add_of_nat [of a 1] by simp
  then obtain r where r: "fetchstr_loop n (a + 1) s = Ret r" "\<And>xs. r = Some xs \<Longrightarrow> ustring s p (a + 1) xs"
    using Suc.IH [of "a + 1"] Suc(2) by auto
  have "ustring s p a (ubyte s a # xs)" if "r = Some xs" "ubyte s a \<noteq> 0" for xs
  proof -
    have "ubyte s (a + of_nat k) = (ubyte s a # xs) ! k" if "k < Suc (length xs)" for k
      using r(2) [OF \<open>r = Some xs\<close>] that by (cases k) (auto simp: ustring_def ac_simps)
    moreover have "a + of_nat (length (ubyte s a # xs)) = a + 1 + of_nat (length xs)" by simp
    ultimately show ?thesis using r(2) [OF that(1)] that(2) a1 by (simp add: ustring_def flip: add.assoc)
  qed
  moreover have "ustring s p a []" if "ubyte s a = 0" using that Suc(2) by (simp add: ustring_def)
  ultimately show ?case using ld r(1) by auto
qed simp

subsection \<open>Arguments\<close>

lemma argptr_ok:
  assumes m: "user_mapped s p" and len: "len < 2147483648"
  shows "\<exists>r. argptr n len s = Ret (r, s) \<and> (\<forall>a. r = Some a \<longrightarrow> 0 \<le> len \<and> unat a + nat len \<le> unat (sz (ptable s ! p)))"
proof -
  obtain i where i: "argint n s = Ret (i, s)" using argint_ok [OF m] by blast
  have "unat a + nat len \<le> unat (sz (ptable s ! p))"
    if "\<not> (len < 0 \<or> a \<ge> sz (ptable s ! p) \<or> a + of_int len > sz (ptable s ! p))" for a
    using that len by (intro range_ok [OF m]) auto
  then show ?thesis
    using i curproc_mapped [OF m] by (cases i) (auto simp: argptr_def)
qed

lemma argstr_ok:
  assumes m: "user_mapped s p"
  shows "\<exists>r. argstr n s = Ret (r, s) \<and> (\<forall>xs. r = Some xs \<longrightarrow> (\<exists>a. ustring s p a xs))"
proof -
  obtain i where i: "argint n s = Ret (i, s)" using argint_ok [OF m] by blast
  show ?thesis
  proof (cases i)
    case (Some a)
    show ?thesis
    proof (cases "a \<ge> sz (ptable s ! p)")
      case False
      then have "unat a + (unat (sz (ptable s ! p)) - unat a) = unat (sz (ptable s ! p))"
        by (simp add: word_le_nat_alt)
      from fetchstr_loop_ok [OF m this] obtain r
        where r: "fetchstr_loop (unat (sz (ptable s ! p)) - unat a) a s = Ret r" "\<forall>xs. r = Some xs \<longrightarrow> ustring s p a xs" by blast
      have "argstr n s = Ret (r, s)"
        using i Some False r(1) curproc_mapped [OF m] by (simp add: argstr_def fetchstr_def Let_def)
      then show ?thesis using r(2) by blast
    qed (use i Some curproc_mapped [OF m] in \<open>simp add: argstr_def fetchstr_def Let_def\<close>)
  qed (use i in \<open>simp add: argstr_def\<close>)
qed

text \<open>
  C7. Arguments of system calls are safe.  For a process whose memory lies below \<^verbatim>\<open>KERNBASE\<close> and is mapped, \<^verbatim>\<open>argptr\<close>
  and \<^verbatim>\<open>argstr\<close> return without a fault and without changing the state, whatever its stack pointer and the words on
  its stack are.  A pointer that \<^verbatim>\<open>argptr\<close> accepts for \<open>len\<close> bytes has all of them inside the process, without
  wrap-around; a string that \<^verbatim>\<open>argstr\<close> accepts lies inside the process together with its NUL.
\<close>

theorem arguments_in_bounds:
  assumes "user_mapped s p" "len < 2147483648"
  shows "\<exists>r q. argptr n len s = Ret (r, s) \<and> argstr n s = Ret (q, s) \<and>
    (\<forall>a. r = Some a \<longrightarrow> 0 \<le> len \<and> unat a + nat len \<le> unat (sz (ptable s ! p))) \<and>
    (\<forall>xs. q = Some xs \<longrightarrow> (\<exists>a. ustring s p a xs))"
  using argptr_ok [OF assms] argstr_ok [OF assms(1)] by blast

text \<open>A process of one page, whose first argument is a pointer to its last byte.\<close>

definition mem1 :: memory where
  "mem1 = store32 (store32 (store32 (\<lambda>_. 0) 0x80112000 0x113007) 0x80113000 0x114007) 0x80114104 0xFFF"

definition kargs0 :: kcons where
  "kargs0 = kcons0\<lparr>mem := mem1, cr3 := 0x112000, ptable := [proc0\<lparr>pstate := RUNNING, sz := 4096, tf := tf0\<lparr>tf_esp := 0x100\<rparr>\<rparr>]\<rparr>"

lemma mem1_words: "load32 mem1 0x80112000 = 0x113007" "load32 mem1 0x80113000 = 0x114007"
  by (simp_all add: mem1_def load32_def store32_def un32_def byte_of_def)

lemma kargs0_mapped: "user_mapped kargs0 0"
proof -
  have f: "cpu_ok kargs0" "cur kargs0 = Some 0" "sz (ptable kargs0 ! 0) = 4096" "mem kargs0 = mem1" "cr3 kargs0 = 0x112000"
    unfolding kargs0_def kcons0_def kbio0_def
    by (simp_all add: cpu_ok_def nest_ok_def this_cpu_def cur_def)
  have "translate mem1 0x80112000 va \<noteq> None" if "va < 4096" for va
  proof -
    have "unat va < 4096" using that by (simp add: word_less_nat_alt)
    then have "PDX va = 0" "PTX va = 0" by (simp_all add: word_unat_eq_iff unat_PDX unat_PTX)
    then show ?thesis by (simp add: translate_def mem1_words PTE_P_def PTE_ADDR_def P2V_def KERNBASE_def Let_def)
  qed
  then show ?thesis by (simp add: user_mapped_def f P2V_def KERNBASE_def)
qed

theorem arguments_in_bounds_witness:
  "\<exists>r q. argptr 0 16 kargs0 = Ret (r, kargs0) \<and> argstr 0 kargs0 = Ret (q, kargs0) \<and>
    (\<forall>a. r = Some a \<longrightarrow> unat a + 16 \<le> 4096)"
proof -
  have "sz (ptable kargs0 ! 0) = 4096" by (simp add: kargs0_def)
  then show ?thesis using arguments_in_bounds [OF kargs0_mapped, of 16 0] by auto
qed

end
