(* ===== verification/Kbd.thy ===== *)
theory Kbd
  imports Prelude
begin

text \<open>
  The keyboard driver (\<^verbatim>\<open>kbd.c\<close> and the tables of \<^verbatim>\<open>kbd.h\<close>): what a scan code becomes, given the state of
  the modifier keys, and that state afterwards.
\<close>

subsection \<open>Tables\<close>

definition SHIFT :: uint where "SHIFT = push_bit 0 1"
definition CTL :: uint where "CTL = push_bit 1 1"
definition ALT :: uint where "ALT = push_bit 2 1"
definition CAPSLOCK :: uint where "CAPSLOCK = push_bit 3 1"
definition NUMLOCK :: uint where "NUMLOCK = push_bit 4 1"
definition SCROLLLOCK :: uint where "SCROLLLOCK = push_bit 5 1"
definition E0ESC :: uint where "E0ESC = push_bit 6 1"

definition KEY_HOME :: uchar where "KEY_HOME = 0xE0"
definition KEY_END :: uchar where "KEY_END = 0xE1"
definition KEY_UP :: uchar where "KEY_UP = 0xE2"
definition KEY_DN :: uchar where "KEY_DN = 0xE3"
definition KEY_LF :: uchar where "KEY_LF = 0xE4"
definition KEY_RT :: uchar where "KEY_RT = 0xE5"
definition KEY_PGUP :: uchar where "KEY_PGUP = 0xE6"
definition KEY_PGDN :: uchar where "KEY_PGDN = 0xE7"
definition KEY_INS :: uchar where "KEY_INS = 0xE8"
definition KEY_DEL :: uchar where "KEY_DEL = 0xE9"

text \<open>A table of 256 entries: the first ones in order, some by their index, the others 0.\<close>

definition designate :: "(nat \<times> 'a) list \<Rightarrow> 'a list \<Rightarrow> 'a::zero list" where
  "designate ds xs = foldl (\<lambda>t (i, v). t[i := v]) (xs @ replicate (256 - length xs) 0) ds"

definition shiftcode :: "uint list" where
  "shiftcode = designate [(0x1D, CTL), (0x2A, SHIFT), (0x36, SHIFT), (0x38, ALT), (0x9D, CTL), (0xB8, ALT)] []"

definition togglecode :: "uint list" where
  "togglecode = designate [(0x3A, CAPSLOCK), (0x45, NUMLOCK), (0x46, SCROLLLOCK)] []"

definition normalmap :: "uchar list" where
  "normalmap = designate
     [(0x9C, 0x0A), (0xB5, 0x2F), (0xC8, KEY_UP), (0xD0, KEY_DN),
      (0xC9, KEY_PGUP), (0xD1, KEY_PGDN), (0xCB, KEY_LF), (0xCD, KEY_RT),
      (0x97, KEY_HOME), (0xCF, KEY_END), (0xD2, KEY_INS), (0xD3, KEY_DEL)]
     [0, 0x1B, 0x31, 0x32, 0x33, 0x34, 0x35, 0x36,
      0x37, 0x38, 0x39, 0x30, 0x2D, 0x3D, 0x08, 0x09,
      0x71, 0x77, 0x65, 0x72, 0x74, 0x79, 0x75, 0x69,
      0x6F, 0x70, 0x5B, 0x5D, 0x0A, 0, 0x61, 0x73,
      0x64, 0x66, 0x67, 0x68, 0x6A, 0x6B, 0x6C, 0x3B,
      0x27, 0x60, 0, 0x5C, 0x7A, 0x78, 0x63, 0x76,
      0x62, 0x6E, 0x6D, 0x2C, 0x2E, 0x2F, 0, 0x2A,
      0, 0x20, 0, 0, 0, 0, 0, 0,
      0, 0, 0, 0, 0, 0, 0, 0x37,
      0x38, 0x39, 0x2D, 0x34, 0x35, 0x36, 0x2B, 0x31,
      0x32, 0x33, 0x30, 0x2E, 0, 0, 0, 0]"

definition shiftmap :: "uchar list" where
  "shiftmap = designate
     [(0x9C, 0x0A), (0xB5, 0x2F), (0xC8, KEY_UP), (0xD0, KEY_DN),
      (0xC9, KEY_PGUP), (0xD1, KEY_PGDN), (0xCB, KEY_LF), (0xCD, KEY_RT),
      (0x97, KEY_HOME), (0xCF, KEY_END), (0xD2, KEY_INS), (0xD3, KEY_DEL)]
     [0, 0x1B, 0x21, 0x40, 0x23, 0x24, 0x25, 0x5E,
      0x26, 0x2A, 0x28, 0x29, 0x5F, 0x2B, 0x08, 0x09,
      0x51, 0x57, 0x45, 0x52, 0x54, 0x59, 0x55, 0x49,
      0x4F, 0x50, 0x7B, 0x7D, 0x0A, 0, 0x41, 0x53,
      0x44, 0x46, 0x47, 0x48, 0x4A, 0x4B, 0x4C, 0x3A,
      0x22, 0x7E, 0, 0x7C, 0x5A, 0x58, 0x43, 0x56,
      0x42, 0x4E, 0x4D, 0x3C, 0x3E, 0x3F, 0, 0x2A,
      0, 0x20, 0, 0, 0, 0, 0, 0,
      0, 0, 0, 0, 0, 0, 0, 0x37,
      0x38, 0x39, 0x2D, 0x34, 0x35, 0x36, 0x2B, 0x31,
      0x32, 0x33, 0x30, 0x2E, 0, 0, 0, 0]"

definition ctlmap :: "uchar list" where
  "ctlmap = designate
     [(0x9C, 0x0D), (0xB5, 0xEF), (0xC8, KEY_UP), (0xD0, KEY_DN),
      (0xC9, KEY_PGUP), (0xD1, KEY_PGDN), (0xCB, KEY_LF), (0xCD, KEY_RT),
      (0x97, KEY_HOME), (0xCF, KEY_END), (0xD2, KEY_INS), (0xD3, KEY_DEL)]
     [0, 0, 0, 0, 0, 0, 0, 0,
      0, 0, 0, 0, 0, 0, 0, 0,
      0x11, 0x17, 0x05, 0x12, 0x14, 0x19, 0x15, 0x09,
      0x0F, 0x10, 0, 0, 0x0D, 0, 0x01, 0x13,
      0x04, 0x06, 0x07, 0x08, 0x0A, 0x0B, 0x0C, 0,
      0, 0, 0, 0x1C, 0x1A, 0x18, 0x03, 0x16,
      0x02, 0x0E, 0x0D, 0, 0, 0xEF, 0, 0]"

definition charcode :: "uchar list list" where
  "charcode = [normalmap, shiftmap, ctlmap, ctlmap]"

subsection \<open>Scan codes\<close>

text \<open>\<^verbatim>\<open>kbdgetc\<close> once it has read \<open>data\<close> from the port: its result and the new value of \<^verbatim>\<open>shift\<close>.\<close>

definition swap_case :: "uint \<Rightarrow> uint" where
  "swap_case c =
     (if 0x61 \<le> c \<and> c \<le> 0x7A then c + (0x41 - 0x61)
      else if 0x41 \<le> c \<and> c \<le> 0x5A then c + (0x61 - 0x41) else c)"

definition key_char :: "uint \<Rightarrow> uint \<Rightarrow> int \<times> uint" where
  "key_char data shift =
     (let shift = (shift OR shiftcode ! unat data) XOR togglecode ! unat data;
          c = ucast (charcode ! unat (shift AND (CTL OR SHIFT)) ! unat data)
      in (sint (if shift AND CAPSLOCK \<noteq> 0 then swap_case c else c), shift))"

definition kbd_code :: "uchar \<Rightarrow> uint \<Rightarrow> int \<times> uint" where
  "kbd_code byte shift =
     (let data = ucast byte :: uint
      in if data = 0xE0 then (0, shift OR E0ESC)
         else if data AND 0x80 \<noteq> 0
         then let data = (if shift AND E0ESC \<noteq> 0 then data else data AND 0x7F)
           in (0, shift AND NOT (shiftcode ! unat data OR E0ESC))
         else if shift AND E0ESC \<noteq> 0 then key_char (data OR 0x80) (shift AND NOT E0ESC)
         else key_char data shift)"

end
