(* ===== verification/Trap.thy ===== *)
theory Trap
  imports Console Sysfile Kbd
begin

text \<open>
  Interrupts and exceptions (\<^verbatim>\<open>trap.c\<close>, with the gate descriptors of \<^verbatim>\<open>mmu.h\<close>): the table of gates and
  the handler, which dispatches to the system calls, the clock, and the interrupt handlers of
  the keyboard and the serial port.  The acknowledgement of an interrupt at the local interrupt
  controller has no counterpart in the state.  The lemmas show which gates user code can
  enter, and what each kind of trap does to a process.
\<close>

subsection \<open>Gates\<close>

record gatedesc =
  off_15_0 :: "16 word"
  gd_cs :: "16 word"
  gd_args :: "5 word"
  gd_rsv1 :: "3 word"
  gd_type :: "4 word"
  gd_s :: "1 word"
  gd_dpl :: "2 word"
  gd_p :: "1 word"
  off_31_16 :: "16 word"

definition STS_IG32 :: uint where "STS_IG32 = 0xE"
definition STS_TG32 :: uint where "STS_TG32 = 0xF"

definition SETGATE :: "bool \<Rightarrow> uint \<Rightarrow> uint \<Rightarrow> uint \<Rightarrow> gatedesc" where
  "SETGATE istrap sel off d =
     \<lparr>off_15_0 = ucast (off AND 0xffff), gd_cs = ucast sel, gd_args = 0, gd_rsv1 = 0,
      gd_type = ucast (if istrap then STS_TG32 else STS_IG32), gd_s = 0, gd_dpl = ucast d, gd_p = 1,
      off_31_16 = ucast (drop_bit 16 off)\<rparr>"

definition T_SYSCALL :: nat where "T_SYSCALL = 64"
definition T_IRQ0 :: nat where "T_IRQ0 = 32"
definition IRQ_TIMER :: nat where "IRQ_TIMER = 0"
definition IRQ_KBD :: nat where "IRQ_KBD = 1"
definition IRQ_COM1 :: nat where "IRQ_COM1 = 4"
definition IRQ_IDE :: nat where "IRQ_IDE = 14"
definition IRQ_SPURIOUS :: nat where "IRQ_SPURIOUS = 31"

record ktrap = kcons +
  idt :: "gatedesc list"
  idtr :: "gatedesc list"
  cr2 :: uint

text \<open>\<^verbatim>\<open>vectors\<close>: the 256 entry points, which \<^verbatim>\<open>vectors.pl\<close> generates.\<close>

definition tvinit :: "uint list \<Rightarrow> 'a ktrap_scheme \<Rightarrow> 'a ktrap_scheme" where
  "tvinit vectors s =
     (let gates = map (\<lambda>i. SETGATE False (of_nat SEG_KCODE * 8) (vectors ! i) 0) [0..<256];
          gates = gates[T_SYSCALL := SETGATE True (of_nat SEG_KCODE * 8) (vectors ! T_SYSCALL) DPL_USER]
      in initlock TicksLock ''time'' (s\<lparr>idt := gates\<rparr>))"

definition idtinit :: "'a ktrap_scheme \<Rightarrow> 'a ktrap_scheme" where
  "idtinit s = s\<lparr>idtr := idt s\<rparr>"

subsection \<open>The handlers of the input devices\<close>

text \<open>What \<^verbatim>\<open>kbdgetc\<close> returns up to its first negative result, the modifier keys and the bytes left.\<close>

fun kbd_chars :: "uint \<Rightarrow> uchar list \<Rightarrow> int list \<times> uint \<times> uchar list" where
  "kbd_chars shift [] = ([], shift, [])"
| "kbd_chars shift (x # xs) =
     (case kbd_code x shift of (c, shift) \<Rightarrow>
        if c < 0 then ([], shift, xs)
        else case kbd_chars shift xs of (cs, shift, r) \<Rightarrow> (c # cs, shift, r))"

definition kbdintr :: "'a kcons_scheme \<Rightarrow> 'a kcons_scheme result" where
  "kbdintr s =
     (case kbd_chars (kbd_shift (con s)) (kbd_rx (con s)) of (cs, shift, r) \<Rightarrow>
        consoleintr cs (s\<lparr>con := (con s)\<lparr>kbd_shift := shift, kbd_rx := r\<rparr>\<rparr>))"

definition uartintr :: "'a kcons_scheme \<Rightarrow> 'a kcons_scheme result" where
  "uartintr s =
     (if \<not> uart_on (con s) then consoleintr [] s
      else consoleintr (map uint (uart_rx (con s))) (s\<lparr>con := (con s)\<lparr>uart_rx := []\<rparr>\<rparr>))"

subsection \<open>The handler\<close>

text \<open>
  How \<^verbatim>\<open>trap\<close> ends: it returns to the interrupted code, the process exits, or it gives up the CPU;
  then it goes on with \<open>trap_resume\<close> when it runs again.
\<close>

datatype trapend = Returns | Exits | Yields

text \<open>\<^verbatim>\<open>myproc() && myproc()->killed && (tf->cs&3) == DPL_USER\<close>, and \<^verbatim>\<open>exit\<close> then.\<close>

definition check_killed :: "trapframe \<Rightarrow> ('a ktrap_scheme \<Rightarrow> (trapend \<times> 'a ktrap_scheme) result) \<Rightarrow> 'a ktrap_scheme \<Rightarrow>
    (trapend \<times> 'a ktrap_scheme) result" where
  "check_killed f go s =
     rbind (myproc s) (\<lambda>(p, s).
     if (case p of None \<Rightarrow> False | Some p \<Rightarrow> killed (ptable s ! p) \<and> tf_cs f AND 3 = ucast DPL_USER)
     then rbind (exit s) (\<lambda>s. Ret (Exits, s)) else go s)"

definition trap_resume :: "trapframe \<Rightarrow> 'a ktrap_scheme \<Rightarrow> (trapend \<times> 'a ktrap_scheme) result" where
  "trap_resume f s = check_killed f (\<lambda>s. Ret (Returns, s)) s"

definition trap_tail :: "trapframe \<Rightarrow> 'a ktrap_scheme \<Rightarrow> (trapend \<times> 'a ktrap_scheme) result" where
  "trap_tail f s =
     check_killed f (\<lambda>s.
       rbind (myproc s) (\<lambda>(p, s).
       if (case p of None \<Rightarrow> False | Some p \<Rightarrow> pstate (ptable s ! p) = RUNNING \<and> tf_trapno f = of_nat (T_IRQ0 + IRQ_TIMER))
       then rbind (yield s) (\<lambda>s. Ret (Yields, s)) else trap_resume f s)) s"

definition trap_syscall :: "'a ktrap_scheme devsw list \<Rightarrow> trapframe \<Rightarrow> 'a ktrap_scheme \<Rightarrow> (trapend \<times> 'a ktrap_scheme) result" where
  "trap_syscall dv f s =
     rbind (curproc s) (\<lambda>(p, s).
     if killed (ptable s ! p) then rbind (exit s) (\<lambda>s. Ret (Exits, s))
     else rbind (syscall dv (upd_proc p (\<lambda>q. q\<lparr>tf := f\<rparr>) s)) (\<lambda>(back, s).
       if \<not> back then Ret (Exits, s)
       else rbind (curproc s) (\<lambda>(p, s).
         if killed (ptable s ! p) then rbind (exit s) (\<lambda>s. Ret (Exits, s)) else Ret (Returns, s))))"

definition timer_tick :: "'a ktrap_scheme \<Rightarrow> 'a ktrap_scheme result" where
  "timer_tick s =
     rbind (cpuid s) (\<lambda>c.
     if c = 0
     then rbind (acquire TicksLock s) (\<lambda>s.
          rbind (wakeup ChTicks (s\<lparr>ticks := ticks s + 1\<rparr>)) (release TicksLock))
     else Ret s)"

text \<open>An unexpected trap: a mistake of the kernel, or of the process, which is killed.\<close>

definition trap_default :: "trapframe \<Rightarrow> 'a ktrap_scheme \<Rightarrow> 'a ktrap_scheme result" where
  "trap_default f s =
     rbind (myproc s) (\<lambda>(p, s).
     rbind (cpuid s) (\<lambda>c.
     case (if tf_cs f AND 3 = 0 then None else p) of
       None \<Rightarrow> rbind (cprintf (Some (''unexpected trap %d from cpu %d eip %x (cr2=0x%x)'' @ [CHR 0x0A]))
           [CNum (tf_trapno f), CNum (of_int c), CNum (tf_eip f), CNum (cr2 s)] s) (\<lambda>s. Panic ''trap'')
     | Some p \<Rightarrow>
         rbind (cprintf (Some (''pid %d %s: trap %d err %d on cpu %d eip 0x%x addr 0x%x--kill proc'' @ [CHR 0x0A]))
           [CNum (pid (ptable s ! p)), CStr (Some (cstring (pname (ptable s ! p)))), CNum (tf_trapno f), CNum (tf_err f),
            CNum (of_int c), CNum (tf_eip f), CNum (cr2 s)] s) (\<lambda>s.
         Ret (upd_proc p (\<lambda>q. q\<lparr>killed := True\<rparr>) s))))"

text \<open>The disk of \<^verbatim>\<open>memide.c\<close> needs no handler.\<close>

definition ideintr :: "'a ktrap_scheme \<Rightarrow> 'a ktrap_scheme result" where
  "ideintr s = Ret s"

definition trap :: "'a ktrap_scheme devsw list \<Rightarrow> trapframe \<Rightarrow> 'a ktrap_scheme \<Rightarrow> (trapend \<times> 'a ktrap_scheme) result" where
  "trap dv f s =
     (let n = unat (tf_trapno f)
      in if n = T_SYSCALL then trap_syscall dv f s
         else rbind
           (if n = T_IRQ0 + IRQ_TIMER then timer_tick s
            else if n = T_IRQ0 + IRQ_IDE then ideintr s
            else if n = T_IRQ0 + IRQ_IDE + 1 then Ret s
            else if n = T_IRQ0 + IRQ_KBD then kbdintr s
            else if n = T_IRQ0 + IRQ_COM1 then uartintr s
            else if n = T_IRQ0 + 7 \<or> n = T_IRQ0 + IRQ_SPURIOUS
            then rbind (cpuid s) (\<lambda>c. cprintf (Some (''cpu%d: spurious interrupt at %x:%x'' @ [CHR 0x0A]))
              [CNum (of_int c), CNum (ucast (tf_cs f)), CNum (tf_eip f)] s)
            else trap_default f s) (trap_tail f))"

subsection \<open>Which gates user code can enter\<close>

definition gate_entry :: "gatedesc \<Rightarrow> uint" where
  "gate_entry g = push_bit 16 (ucast (off_31_16 g)) OR ucast (off_15_0 g)"

lemma SETGATE_entry: "gate_entry (SETGATE t sel off d) = off"
proof (rule bit_eqI)
  fix n
  have "(0xffff :: uint) = mask 16" by (simp add: mask_eq_exp_minus_1)
  then have "bit (0xffff :: uint) n \<longleftrightarrow> n < 16" by (simp only: bit_mask_iff) auto
  then show "bit (gate_entry (SETGATE t sel off d)) n = bit off n"
    by (cases "n < 16") (auto simp: gate_entry_def SETGATE_def bit_simps dest: bit_imp_le_length)
qed

text \<open>
  C39. The interrupt table after \<^verbatim>\<open>tvinit\<close>.  Each of the 256 gates is present, enters the kernel's code segment at its
  own entry point, and the system call gate is the only one that user code may enter with an
  \<^verbatim>\<open>int\<close> instruction and the only one that leaves interrupts on.
\<close>

theorem tvinit_gates:
  assumes "i < 256"
  shows "let g = idt (tvinit vectors s) ! i in
    gd_p g = 1 \<and> gd_cs g = 8 \<and> gate_entry g = vectors ! i \<and>
    (gd_dpl g = 3 \<longleftrightarrow> i = T_SYSCALL) \<and> (gd_dpl g = 0 \<longleftrightarrow> i \<noteq> T_SYSCALL) \<and> (gd_type g = 0xF \<longleftrightarrow> i = T_SYSCALL)"
proof -
  have "idt (tvinit vectors s) ! i =
      (if i = T_SYSCALL then SETGATE True 8 (vectors ! i) DPL_USER else SETGATE False 8 (vectors ! i) 0)"
    using assms by (simp add: tvinit_def initlock_def nth_list_update SEG_KCODE_def T_SYSCALL_def)
  then show ?thesis
    by (simp add: SETGATE_entry) (simp add: SETGATE_def DPL_USER_def STS_IG32_def STS_TG32_def T_SYSCALL_def)
qed

text \<open>A machine that has just taken an interrupt: interrupts are off.\<close>

definition ktrap0 :: ktrap where
  "ktrap0 = (kcons.extend kcons0 (ktrap.fields [] [] 0xDEADBEEF))
     \<lparr>cpus := [\<lparr>apicid = 0, ncli = 0, intena = False, cpu_proc = Some 0\<rparr>], eflags_IF := False\<rparr>"

theorem tvinit_gates_witness:
  "gate_entry (idt (tvinit (map of_nat [1000..<1256]) ktrap0) ! 14) = 1014 \<and> gd_dpl (idt (tvinit (map of_nat [1000..<1256]) ktrap0) ! 14) \<noteq> 3"
  using tvinit_gates [of 14 "map of_nat [1000..<1256]" ktrap0] by (simp add: Let_def T_SYSCALL_def)

subsection \<open>Faults\<close>

definition expected :: "uint \<Rightarrow> bool" where
  "expected n \<longleftrightarrow> unat n \<in> {T_SYSCALL, T_IRQ0 + IRQ_TIMER, T_IRQ0 + IRQ_IDE, T_IRQ0 + IRQ_IDE + 1, T_IRQ0 + IRQ_KBD,
     T_IRQ0 + IRQ_COM1, T_IRQ0 + 7, T_IRQ0 + IRQ_SPURIOUS}"

lemma cpuid_Ret: "cpu_ok s \<Longrightarrow> \<not> eflags_IF s \<Longrightarrow> \<exists>c. cpuid s = Ret c"
  by (auto simp: cpuid_def mycpu_eq elim: cpu_okE)

lemma trap_default_ok:
  assumes s: "cpu_ok s" "\<not> eflags_IF s" "lock_free ConsLock s" "scr_ok (con s)"
  shows "tf_cs f AND 3 = 0 \<or> cur s = None \<Longrightarrow> trap_default f s = Panic ''trap''"
    "tf_cs f AND 3 \<noteq> 0 \<Longrightarrow> cur s = Some p \<Longrightarrow> \<exists>d. trap_default f s = Ret (upd_proc p (\<lambda>q. q\<lparr>killed := True\<rparr>) (s\<lparr>con := d\<rparr>)) \<and> scr_ok d"
proof -
  obtain c where c: "cpuid s = Ret c" using cpuid_Ret s(1,2) by blast
  note run = trap_default_def myproc_Ret [OF s(1)] c
  show "trap_default f s = Panic ''trap''" if "tf_cs f AND 3 = 0 \<or> cur s = None"
  proof -
    let ?m = "''unexpected trap %d from cpu %d eip %x (cr2=0x%x)'' @ [CHR 0x0A]"
      and ?a = "[CNum (tf_trapno f), CNum (of_int c), CNum (tf_eip f), CNum (cr2 s)]"
    have "fmt_ok ?m ?a" by simp
    then obtain d where "cprintf (Some ?m) ?a s = Ret (s\<lparr>con := d\<rparr>)"
      using shows_onE [OF shows_on_cprintf s(1,3,4)] by blast
    moreover have "(if tf_cs f AND 3 = 0 then None else cur s) = None" using that by auto
    ultimately show ?thesis by (simp add: run del: append_Cons)
  qed
  show "\<exists>d. trap_default f s = Ret (upd_proc p (\<lambda>q. q\<lparr>killed := True\<rparr>) (s\<lparr>con := d\<rparr>)) \<and> scr_ok d"
    if "tf_cs f AND 3 \<noteq> 0" "cur s = Some p"
  proof -
    let ?m = "''pid %d %s: trap %d err %d on cpu %d eip 0x%x addr 0x%x--kill proc'' @ [CHR 0x0A]"
      and ?a = "[CNum (pid (ptable s ! p)), CStr (Some (cstring (pname (ptable s ! p)))), CNum (tf_trapno f), CNum (tf_err f),
            CNum (of_int c), CNum (tf_eip f), CNum (cr2 s)]"
    have "fmt_ok ?m ?a" by simp
    then obtain d where "cprintf (Some ?m) ?a s = Ret (s\<lparr>con := d\<rparr>)" "scr_ok d"
      using shows_onE [OF shows_on_cprintf s(1,3,4)] by blast
    then show ?thesis using that by (auto simp: run simp del: append_Cons)
  qed
qed

text \<open>
  C38. Faults and traps that nothing expects.  One that hits the kernel, or a CPU on which no process
  runs, is a panic.  One in user mode is reported on the console, kills the process that caused it
  and changes no other process, and does not return to it: the handler goes to \<^verbatim>\<open>exit\<close>.
\<close>

theorem trap_fault:
  assumes n: "\<not> expected (tf_trapno f)"
    and s: "cpu_ok s" "\<not> eflags_IF s" "lock_free ConsLock s" "scr_ok (con s)" "\<And>p. cur s = Some p \<Longrightarrow> p < length (ptable s)"
  shows "(tf_cs f AND 3 = 0 \<or> cur s = None \<longrightarrow> trap dv f s = Panic ''trap'') \<and>
    (\<forall>p. tf_cs f AND 3 = 3 \<and> cur s = Some p \<longrightarrow>
      (\<exists>t. trap dv f s = rbind (exit t) (\<lambda>u. Ret (Exits, u)) \<and> killed (ptable t ! p) \<and> (\<exists>d. t = s\<lparr>con := d, ptable := ptable t\<rparr>) \<and>
        (\<forall>q. q \<noteq> p \<longrightarrow> ptable t ! q = ptable s ! q)))"
proof (intro conjI allI impI, goal_cases)
  have run: "trap dv f s = rbind (trap_default f s) (trap_tail f)"
    using n by (simp add: trap_def expected_def Let_def)
  {
    case 1
    then show ?case using trap_default_ok(1) [OF s(1-4) 1] run by simp
  next
    case (2 p)
    then have cs: "tf_cs f AND 3 = 3" and p: "cur s = Some p" by auto
    obtain d where d: "trap_default f s = Ret (upd_proc p (\<lambda>q. q\<lparr>killed := True\<rparr>) (s\<lparr>con := d\<rparr>))"
      using trap_default_ok(2) [OF s(1-4) _ p, of f] cs by auto
    let ?t = "upd_proc p (\<lambda>q. q\<lparr>killed := True\<rparr>) (s\<lparr>con := d\<rparr>)"
    have same: "same_cpu ?t s" by simp
    have k: "killed (ptable ?t ! p)" using s(5) [OF p] by simp
    have "cpu_ok ?t" "cur ?t = Some p" using same_cpu_ok [OF same] cur_same [OF same] s(1) p by simp_all
    then have "trap_tail f ?t = rbind (exit ?t) (\<lambda>u. Ret (Exits, u))"
      using k cs by (simp add: trap_tail_def check_killed_def myproc_Ret DPL_USER_def)
    then show ?case using run d k by (intro exI [of _ ?t]) auto
  }
qed

lemma ktrap0_ok:
  "cpu_ok ktrap0" "lock_free l ktrap0" "con ktrap0 = con0" "cur ktrap0 = Some 0" "length (ptable ktrap0) = 1" "\<not> eflags_IF ktrap0"
  unfolding ktrap0_def kcons0_def kbio0_def kcons.defs ktrap.defs
  by (simp_all add: cpu_ok_def nest_ok_def this_cpu_def lock_free_def cur_def)

theorem trap_fault_witness:
  "\<exists>t. trap [] (tf0\<lparr>tf_trapno := 14, tf_cs := 27\<rparr>) ktrap0 = rbind (exit t) (\<lambda>u. Ret (Exits, u)) \<and> killed (ptable t ! 0)"
proof -
  have "\<not> expected 14" by (simp add: expected_def T_SYSCALL_def T_IRQ0_def IRQ_TIMER_def IRQ_IDE_def IRQ_KBD_def IRQ_COM1_def IRQ_SPURIOUS_def)
  moreover have "scr_ok con0" using con0_ok(1) by (simp add: con_ok_def)
  ultimately show ?thesis
    using trap_fault [of "tf0\<lparr>tf_trapno := 14, tf_cs := 27\<rparr>" ktrap0 "[]"] ktrap0_ok by auto
qed

end
