(* ===== verification/Mp.thy ===== *)
theory Mp
  imports Kalloc
begin

text \<open>
  Finding the processors (\<^verbatim>\<open>mp.c\<close>, \<^verbatim>\<open>mp.h\<close>): the search for the tables that the BIOS leaves in memory, and
  the loop over their entries.  The state is byte-addressed memory; the list of CPUs holds the
  first \<^verbatim>\<open>ncpu\<close> elements of \<^verbatim>\<open>cpus\<close>.  The lemmas give the result for every table of known entries, and show
  that an entry of another type makes the loop run forever.
\<close>

subsection \<open>Tables\<close>

definition MPPROC :: uchar where "MPPROC = 0x00"
definition MPBUS :: uchar where "MPBUS = 0x01"
definition MPIOAPIC :: uchar where "MPIOAPIC = 0x02"
definition MPIOINTR :: uchar where "MPIOINTR = 0x03"
definition MPLINTR :: uchar where "MPLINTR = 0x04"

text \<open>The sizes of \<^verbatim>\<open>struct mp\<close>, \<^verbatim>\<open>struct mpconf\<close>, \<^verbatim>\<open>struct mpproc\<close> and \<^verbatim>\<open>struct mpioapic\<close>, and the offsets of the fields read.\<close>

definition mp_size :: uint where "mp_size = 16"
definition mpconf_size :: uint where "mpconf_size = 44"
definition mpproc_size :: uint where "mpproc_size = 20"
definition mpioapic_size :: uint where "mpioapic_size = 8"

definition mp_physaddr :: "memory \<Rightarrow> uint \<Rightarrow> uint" where "mp_physaddr m p = load32 m (p + 4)"
definition conf_length :: "memory \<Rightarrow> uint \<Rightarrow> uint" where
  "conf_length m p = ucast (m (p + 4)) + 256 * ucast (m (p + 5))"
definition conf_version :: "memory \<Rightarrow> uint \<Rightarrow> uchar" where "conf_version m p = m (p + 6)"
definition conf_lapicaddr :: "memory \<Rightarrow> uint \<Rightarrow> uint" where "conf_lapicaddr m p = load32 m (p + 36)"

subsection \<open>The search\<close>

fun sum :: "memory \<Rightarrow> uint \<Rightarrow> nat \<Rightarrow> uchar" where
  "sum m addr 0 = 0"
| "sum m addr (Suc n) = m addr + sum m (addr + 1) n"

fun mpsearch1_loop :: "memory \<Rightarrow> uint \<Rightarrow> nat \<Rightarrow> uint" where
  "mpsearch1_loop m p 0 = 0"
| "mpsearch1_loop m p (Suc k) =
     (if memcmp (at m p) (ptr [0x5F, 0x4D, 0x50, 0x5F]) 4 = 0 \<and> sum m p (unat mp_size) = 0 then p
      else mpsearch1_loop m (p + mp_size) k)"

definition mpsearch1 :: "memory \<Rightarrow> uint \<Rightarrow> nat \<Rightarrow> uint" where
  "mpsearch1 m a len = mpsearch1_loop m (P2V a) ((len + 15) div 16)"

definition mpsearch :: "memory \<Rightarrow> uint" where
  "mpsearch m =
     (let bda = P2V 0x400;
          p = push_bit 4 (push_bit 8 (ucast (m (bda + 0x0F))) OR ucast (m (bda + 0x0E))) :: uint;
          mp = (if p \<noteq> 0 then mpsearch1 m p 1024
                else mpsearch1 m ((push_bit 8 (ucast (m (bda + 0x14))) OR ucast (m (bda + 0x13))) * 1024 - 1024) 1024)
      in if mp \<noteq> 0 then mp else mpsearch1 m 0xF0000 0x10000)"

text \<open>The configuration table, and the floating pointer that leads to it.\<close>

definition mpconfig :: "memory \<Rightarrow> (uint \<times> uint) option" where
  "mpconfig m =
     (let mp = mpsearch m
      in if mp = 0 \<or> mp_physaddr m mp = 0 then None
         else let conf = P2V (mp_physaddr m mp)
           in if memcmp (at m conf) (ptr [0x50, 0x43, 0x4D, 0x50]) 4 \<noteq> 0 then None
              else if conf_version m conf \<noteq> 1 \<and> conf_version m conf \<noteq> 4 then None
              else if sum m conf (unat (conf_length m conf)) \<noteq> 0 then None
              else Some (conf, mp))"

subsection \<open>The entries\<close>

record mpstate =
  mp_cpus :: "cpu list"
  mp_lapic :: uint
  ioapicid :: uchar
  ismp :: bool

definition new_cpu :: "uchar \<Rightarrow> cpu" where
  "new_cpu a = \<lparr>apicid = ucast a, ncli = 0, intena = False, cpu_proc = None\<rparr>"

text \<open>
  The loop of \<^verbatim>\<open>mpinit\<close> as it is written: the \<^verbatim>\<open>break\<close> of the default case leaves the \<^verbatim>\<open>switch\<close>, not the loop, so
  that the loop comes back to the same entry.  The count bounds the rounds; \<open>None\<close> if they
  are used up.
\<close>

fun mp_entries :: "nat \<Rightarrow> memory \<Rightarrow> uint \<Rightarrow> uint \<Rightarrow> mpstate \<Rightarrow> mpstate option" where
  "mp_entries 0 m p e st = None"
| "mp_entries (Suc k) m p e st =
     (if \<not> p < e then Some st
      else if m p = MPPROC
      then mp_entries k m (p + mpproc_size) e
        (if length (mp_cpus st) < NCPU then st\<lparr>mp_cpus := mp_cpus st @ [new_cpu (m (p + 1))]\<rparr> else st)
      else if m p = MPIOAPIC then mp_entries k m (p + mpioapic_size) e (st\<lparr>ioapicid := m (p + 1)\<rparr>)
      else if m p = MPBUS \<or> m p = MPIOINTR \<or> m p = MPLINTR then mp_entries k m (p + 8) e st
      else mp_entries k m p e (st\<lparr>ismp := False\<rparr>))"

text \<open>
  A table has at most 65535 bytes and every known entry at least eight, so that \<open>2 ^ 16\<close> rounds
  are more than a loop that ends can take.
\<close>

definition mpinit :: "memory \<Rightarrow> mpstate \<Rightarrow> mpstate result" where
  "mpinit m st =
     (case mpconfig m of None \<Rightarrow> Panic ''Expect to run on an SMP''
      | Some (conf, mp) \<Rightarrow>
        (case mp_entries (2 ^ 16) m (conf + mpconf_size) (conf + conf_length m conf)
            (st\<lparr>ismp := True, mp_lapic := conf_lapicaddr m conf\<rparr>) of
           None \<Rightarrow> Hang
         | Some st \<Rightarrow> if \<not> ismp st then Panic ''Didn't find a suitable machine'' else Ret st))"

subsection \<open>Tables of known entries\<close>

datatype mpentry = Proc uchar | Ioapic uchar | Other uchar

primrec entry_size :: "mpentry \<Rightarrow> uint" where
  "entry_size (Proc a) = mpproc_size"
| "entry_size (Ioapic a) = mpioapic_size"
| "entry_size (Other t) = 8"

primrec entry_at :: "memory \<Rightarrow> uint \<Rightarrow> mpentry \<Rightarrow> bool" where
  "entry_at m p (Proc a) \<longleftrightarrow> m p = MPPROC \<and> m (p + 1) = a"
| "entry_at m p (Ioapic a) \<longleftrightarrow> m p = MPIOAPIC \<and> m (p + 1) = a"
| "entry_at m p (Other t) \<longleftrightarrow> m p = t \<and> t \<in> {MPBUS, MPIOINTR, MPLINTR}"

text \<open>The entries from \<open>p\<close> on are those of the list, which ends at \<open>q\<close>; all of them begin before \<open>e\<close>.\<close>

fun laid_out :: "memory \<Rightarrow> uint \<Rightarrow> mpentry list \<Rightarrow> uint \<Rightarrow> uint \<Rightarrow> bool" where
  "laid_out m p [] q e \<longleftrightarrow> q = p"
| "laid_out m p (x # xs) q e \<longleftrightarrow> p < e \<and> entry_at m p x \<and> laid_out m (p + entry_size x) xs q e"

definition procs :: "mpentry list \<Rightarrow> uchar list" where
  "procs xs = concat (map (\<lambda>x. case x of Proc a \<Rightarrow> [a] | _ \<Rightarrow> []) xs)"

definition ioapics :: "mpentry list \<Rightarrow> uchar list" where
  "ioapics xs = concat (map (\<lambda>x. case x of Ioapic a \<Rightarrow> [a] | _ \<Rightarrow> []) xs)"

definition after_entries :: "mpentry list \<Rightarrow> mpstate \<Rightarrow> mpstate" where
  "after_entries xs st = st\<lparr>mp_cpus := mp_cpus st @ take (NCPU - length (mp_cpus st)) (map new_cpu (procs xs)),
     ioapicid := last (ioapicid st # ioapics xs)\<rparr>"

lemmas mp_types = MPPROC_def MPBUS_def MPIOAPIC_def MPIOINTR_def MPLINTR_def

lemma after_entries_Cons:
  "after_entries (Proc a # xs) st =
     after_entries xs (if length (mp_cpus st) < NCPU then st\<lparr>mp_cpus := mp_cpus st @ [new_cpu a]\<rparr> else st)"
  "after_entries (Ioapic a # xs) st = after_entries xs (st\<lparr>ioapicid := a\<rparr>)"
  "after_entries (Other t # xs) st = after_entries xs st"
proof -
  have "take (NCPU - n) (x # ys) = x # take (NCPU - Suc n) ys" if "n < NCPU" for n and x :: cpu and ys
    using that by (cases "NCPU - n") (auto simp: Suc_diff_Suc dest: arg_cong [of _ _ "\<lambda>k. k - 1"])
  then show "after_entries (Proc a # xs) st =
     after_entries xs (if length (mp_cpus st) < NCPU then st\<lparr>mp_cpus := mp_cpus st @ [new_cpu a]\<rparr> else st)"
    by (simp add: after_entries_def procs_def ioapics_def)
qed (simp_all add: after_entries_def procs_def ioapics_def)

text \<open>The loop passes over known entries, one round for each.\<close>

lemma mp_entries_known:
  assumes "laid_out m p xs q e"
  shows "mp_entries (length xs + k) m p e st = mp_entries k m q e (after_entries xs st)"
  using assms
proof (induction xs arbitrary: p st)
  case Nil
  then show ?case by (simp add: after_entries_def procs_def ioapics_def)
next
  case (Cons x xs)
  then show ?case by (cases x) (auto simp: after_entries_Cons mp_types)
qed

definition known :: "uchar \<Rightarrow> bool" where
  "known t \<longleftrightarrow> t \<in> {MPPROC, MPBUS, MPIOAPIC, MPIOINTR, MPLINTR}"

lemma mp_entries_stuck: "q < e \<Longrightarrow> \<not> known (m q) \<Longrightarrow> mp_entries k m q e st = None"
  by (induction k arbitrary: st) (auto simp: known_def)

lemma mp_entries_hang:
  assumes "laid_out m p xs q e" "q < e" "\<not> known (m q)"
  shows "mp_entries k m p e st = None"
  using assms
proof (induction xs arbitrary: p st k)
  case Nil
  then show ?case by (simp add: mp_entries_stuck)
next
  case (Cons x xs)
  then show ?case by (cases k; cases x) (auto simp: mp_types)
qed

text \<open>
  C40. \<^verbatim>\<open>mpinit\<close> on every configuration table.  If the table consists of known entries, \<^verbatim>\<open>mpinit\<close> returns with the
  first \<^verbatim>\<open>NCPU\<close> processors in the order of the table and the last I/O controller.  If some entry has another
  type, the loop never ends, however many rounds it is given: the panic that the code has for
  this case cannot be reached.
\<close>

theorem mpinit_table:
  assumes conf: "mpconfig m = Some (conf, mp)" and e: "e = conf + conf_length m conf"
    and xs: "laid_out m (conf + mpconf_size) xs q e" "length xs < 2 ^ 16" and st: "mp_cpus st = []"
  shows "(\<not> q < e \<longrightarrow> (\<exists>t. mpinit m st = Ret t \<and> mp_cpus t = map new_cpu (take NCPU (procs xs)) \<and>
      ioapicid t = last (ioapicid st # ioapics xs) \<and> mp_lapic t = conf_lapicaddr m conf)) \<and>
    (q < e \<and> \<not> known (m q) \<longrightarrow> mpinit m st = Hang \<and> (\<forall>k u. mp_entries k m (conf + mpconf_size) e u = None))"
proof (intro conjI impI, goal_cases)
  case 1
  obtain k where k: "2 ^ 16 = length xs + Suc k" using xs(2) less_iff_Suc_add by (metis add_Suc_right)
  let ?st = "st\<lparr>ismp := True, mp_lapic := conf_lapicaddr m conf\<rparr>"
  have "mp_entries (2 ^ 16) m (conf + mpconf_size) e ?st = Some (after_entries xs ?st)"
    unfolding k mp_entries_known [OF xs(1)] using 1 by simp
  then have "mpinit m st = Ret (after_entries xs ?st)"
    using conf e by (simp add: mpinit_def after_entries_def)
  then show ?case using st by (simp add: after_entries_def take_map)
next
  case 2
  then show ?case
    using conf e mp_entries_hang [OF xs(1)] by (simp add: mpinit_def)
qed (use mp_entries_hang [OF xs(1)] in blast)

text \<open>A BIOS whose table has one processor and one entry of type \<open>t\<close>.\<close>

definition bios_table :: "uchar \<Rightarrow> uchar list" where
  "bios_table t =
     [95, 77, 80, 95, 16, 0, 9, 0, 1, 4, 135, 0, 0, 0, 0, 0] @
     [80, 67, 77, 80, 72, 0, 4, - (120 + t), 0, 0, 0, 0, 0, 0, 0, 0, 0, 0, 0, 0, 0, 0, 0, 0, 0, 0, 0, 0, 0, 0, 0, 0, 0, 0, 2, 0, 0, 0, 224, 254, 0, 0, 0, 0] @
     [0, 5, 20, 3, 0, 0, 0, 0, 0, 0, 0, 0, 0, 0, 0, 0, 0, 0, 0, 0] @ [t, 0, 0, 0, 0, 0, 0, 0]"

definition bios :: "uchar \<Rightarrow> memory" where
  "bios t a = (if a = 0x8000040F then 0x90 else let i = unat (a - 0x80090000) in if i < 88 then bios_table t ! i else 0)"

lemma length_bios_table [simp]: "length (bios_table t) = 88"
  by (simp add: bios_table_def)

lemma bios_nth: "i < 88 \<Longrightarrow> bios t (0x80090000 + of_nat i) = bios_table t ! i"
proof -
  assume i: "i < 88"
  then have u: "unat (of_nat i :: uint) = i" by (simp add: unat_of_nat)
  have "0x80090000 + of_nat i \<noteq> (0x8000040F :: uint)"
  proof
    assume "0x80090000 + of_nat i = (0x8000040F :: uint)"
    then have "(of_nat i :: uint) = 0x8000040F - 0x80090000" by (metis add_diff_cancel_left')
    then have "unat (of_nat i :: uint) = unat (0x8000040F - 0x80090000 :: uint)" by simp
    then show False using u i by simp
  qed
  then show ?thesis using i u by (simp add: bios_def Let_def)
qed

lemma sum_bytes:
  "(\<And>i. i < n \<Longrightarrow> m (a + of_nat i) = xs ! (k + i)) \<Longrightarrow> k + n \<le> length xs \<Longrightarrow> sum m a n = sum_list (take n (drop k xs))"
proof (induction n arbitrary: a k)
  case (Suc n)
  have "m (a + 1 + of_nat i) = xs ! (Suc k + i)" if "i < n" for i
    using Suc(2) [of "Suc i"] that by (simp add: ac_simps)
  then have "sum m (a + 1) n = sum_list (take n (drop (Suc k) xs))" using Suc(3) by (intro Suc.IH) simp_all
  moreover have "drop k xs = xs ! k # drop (Suc k) xs" using Suc(3) by (simp add: Cons_nth_drop_Suc)
  ultimately show ?case using Suc(2) [of 0] by simp
qed simp

lemma bios_sum: "k + n \<le> 88 \<Longrightarrow> sum (bios t) (0x80090000 + of_nat k) n = sum_list (take n (drop k (bios_table t)))"
proof (rule sum_bytes)
  fix i assume i: "k + n \<le> 88" "i < n"
  have "0x80090000 + of_nat k + of_nat i = (0x80090000 + of_nat (k + i) :: uint)" by (simp only: of_nat_add add.assoc)
  then show "bios t (0x80090000 + of_nat k + of_nat i) = bios_table t ! (k + i)" using bios_nth [of "k + i" t] i by (simp only:)
qed simp

lemma bios_sums: "sum (bios t) 0x80090000 16 = 0" "sum (bios t) 0x80090010 72 = 0"
proof -
  have "sum_list (take 16 (drop 0 (bios_table t))) = 0" by (simp add: bios_table_def)
  then show "sum (bios t) 0x80090000 16 = 0" using bios_sum [of 0 16 t] by simp
  have "sum_list (take 72 (drop 16 (bios_table t))) = 0" by (simp add: bios_table_def)
  then show "sum (bios t) 0x80090010 72 = 0" using bios_sum [of 16 72 t] by simp
qed

lemma bios_bytes:
  "bios t 0x80090000 = 0x5F" "bios t 0x80090001 = 0x4D" "bios t 0x80090002 = 0x50" "bios t 0x80090003 = 0x5F"
  "bios t 0x80090004 = 0x10" "bios t 0x80090005 = 0" "bios t 0x80090006 = 9" "bios t 0x80090007 = 0"
  "bios t 0x80090010 = 0x50" "bios t 0x80090011 = 0x43" "bios t 0x80090012 = 0x4D" "bios t 0x80090013 = 0x50"
  "bios t 0x80090014 = 72" "bios t 0x80090015 = 0" "bios t 0x80090016 = 4"
  "bios t 0x8009003C = 0" "bios t 0x8009003D = 5" "bios t 0x80090050 = t"
  by (simp_all add: bios_def Let_def bios_table_def)

lemma bios_signatures:
  "memcmp (at (bios t) 0x80090000) (ptr [0x5F, 0x4D, 0x50, 0x5F]) 4 = 0"
  "memcmp (at (bios t) 0x80090010) (ptr [0x50, 0x43, 0x4D, 0x50]) 4 = 0"
proof -
  have four: "(\<forall>i < 4. P i) \<longleftrightarrow> P 0 \<and> P 1 \<and> P 2 \<and> P (3 :: nat)" for P
    by (auto simp: numeral_eq_Suc less_Suc_eq)
  show "memcmp (at (bios t) 0x80090000) (ptr [0x5F, 0x4D, 0x50, 0x5F]) 4 = 0"
    "memcmp (at (bios t) 0x80090010) (ptr [0x50, 0x43, 0x4D, 0x50]) 4 = 0"
    unfolding memcmp_0_iff four by (simp_all add: at_def ptr_def bios_bytes)
qed

lemma bios_config: "mpconfig (bios t) = Some (0x80090010, 0x80090000)"
proof -
  have b0: "bios t 0x8000040F = 0x90" "bios t 0x8000040E = 0" by (simp_all add: bios_def Let_def)
  have "(1024 + 15) div 16 = Suc 63" by simp
  then have "mpsearch1 (bios t) 0x90000 1024 = 0x80090000"
    using bios_sums(1) bios_signatures(1) by (simp only: mpsearch1_def mpsearch1_loop.simps) (simp add: P2V_def KERNBASE_def mp_size_def)
  then have "mpsearch (bios t) = 0x80090000"
    using b0 by (simp add: mpsearch_def Let_def P2V_def KERNBASE_def)
  moreover have "mp_physaddr (bios t) 0x80090000 = 0x90010"
    by (simp add: mp_physaddr_def load32_def bios_bytes un32_def)
  moreover have "conf_version (bios t) 0x80090010 = 4" "conf_length (bios t) 0x80090010 = 72"
    by (simp_all add: conf_version_def conf_length_def bios_bytes)
  ultimately show ?thesis
    using bios_sums(2) bios_signatures(2) by (simp add: mpconfig_def Let_def P2V_def KERNBASE_def)
qed

theorem mpinit_table_witness:
  "(\<exists>t. mpinit (bios MPIOINTR) \<lparr>mp_cpus = [], mp_lapic = 0, ioapicid = 0, ismp = False\<rparr> = Ret t \<and> mp_cpus t = [new_cpu 5]) \<and>
   mpinit (bios 0x80) \<lparr>mp_cpus = [], mp_lapic = 0, ioapicid = 0, ismp = False\<rparr> = Hang"
proof -
  let ?st = "\<lparr>mp_cpus = [], mp_lapic = 0, ioapicid = 0, ismp = False\<rparr> :: mpstate"
  let ?e = "0x80090058 :: uint"
  have e: "?e = 0x80090010 + conf_length (bios t) 0x80090010" for t by (simp add: conf_length_def bios_bytes)
  have l: "laid_out (bios MPIOINTR) (0x80090010 + mpconf_size) [Proc 5, Other MPIOINTR] ?e ?e"
    "laid_out (bios 0x80) (0x80090010 + mpconf_size) [Proc 5] 0x80090050 ?e"
    by (simp_all add: bios_bytes mpconf_size_def mpproc_size_def MPPROC_def)
  show ?thesis
    using mpinit_table [OF bios_config e l(1), of ?st] mpinit_table [OF bios_config e l(2), of ?st]
    by (auto simp: bios_bytes procs_def known_def mp_types NCPU_def)
qed

end
