(* ===== verification/Spec2Isabelle.thy ===== *)
theory Spec2Isabelle
  imports Dir Sysfile Grep Ulib Pagetable Sh Args Trap Mp
begin

text \<open>
  A verification of the xv6 kernel and of the algorithmic part of its user programs.

  \<^bold>\<open>The program and its parts.\<close>  User programs enter the kernel with a trap (\<^verbatim>\<open>trap.c\<close>), which dispatches to the
  system calls (\<^verbatim>\<open>syscall.c\<close>, \<^verbatim>\<open>sysproc.c\<close>, \<^verbatim>\<open>sysfile.c\<close>, \<^verbatim>\<open>exec.c\<close>).  These work on processes (\<^verbatim>\<open>proc.c\<close>), on their
  memory (\<^verbatim>\<open>vm.c\<close>, with pages from \<^verbatim>\<open>kalloc.c\<close>), and on open files (\<^verbatim>\<open>file.c\<close>), which are pipes (\<^verbatim>\<open>pipe.c\<close>),
  files of the file system (\<^verbatim>\<open>fs.c\<close>) or devices, of which the console (\<^verbatim>\<open>console.c\<close>) is the one there is.  The file
  system changes blocks inside transactions of the log (\<^verbatim>\<open>log.c\<close>), which uses the buffer cache (\<^verbatim>\<open>bio.c\<close>) over the
  disk (\<^verbatim>\<open>memide.c\<close>).  All parts use spin locks (\<^verbatim>\<open>spinlock.c\<close>) and sleep locks (\<^verbatim>\<open>sleeplock.c\<close>).

  \<^bold>\<open>State and outcomes.\<close>  The kernel's state is one record, built along the order in which the parts rest on each
  other: \<open>kcpu\<close> (Spinlock), \<open>kproc\<close> (Sched), \<open>kmem\<close> (Kalloc), \<open>kbio\<close> (Bio), \<open>klog\<close> (Log), \<open>kfile\<close> (Pipe), \<open>kfs\<close> (Fs),
  \<open>kvm\<close> (Vm), \<open>ksys\<close> (Syscall), \<open>kcons\<close> (Console), \<open>ktrap\<close> (Trap).  An operation is defined on the record of its part and
  on every extension.  Pointers into the kernel's tables are indices, memory is a function from 32-bit addresses to
  bytes, and integers are words of their width.  An operation yields a \<open>result\<close>: it returns, panics, waits for
  a lock or an event (where C spins or sleeps), faults on a pointer that points at nothing, or hangs in a loop without
  end.  A function that gives up the CPU is modelled up to the switch, and what follows is a
  definition of its own (\<open>sleep_resume\<close>, \<open>scheduler_back\<close>, \<open>trap_resume\<close>).

  \<^bold>\<open>Theories.\<close>
  \<^item> Prelude: \<^verbatim>\<open>param.h\<close>, \<^verbatim>\<open>memlayout.h\<close>, the integer types, outcomes, words and bytes.
  \<^item> Spinlock (\<^verbatim>\<open>spinlock.c\<close>): the functions on one CPU, and their atomic accesses as a step relation of many CPUs.
    Shown: mutual exclusion in every interleaving, all outcomes of \<^verbatim>\<open>acquire\<close>, nesting of \<^verbatim>\<open>pushcli\<close>.
  \<^item> Sched (\<^verbatim>\<open>proc.c\<close>, \<^verbatim>\<open>sleeplock.c\<close>): sleeping, waking, killing, the scheduler's choice, sleep locks.
  \<^item> Kstring (\<^verbatim>\<open>string.c\<close>): exact effect of every function on every address, overlap included.
  \<^item> Kalloc (\<^verbatim>\<open>kalloc.c\<close>): the free list in memory.  Shown: no page is handed out twice, freeing and allocating are inverse,
    and \<^verbatim>\<open>kinit1\<close> ends with every page of its range free.
  \<^item> Bio (\<^verbatim>\<open>bio.c\<close>, \<^verbatim>\<open>memide.c\<close>): the linked list of buffers.  Shown: the cache is coherent, evicts the least recently
    used buffer, and keeps its invariant.
  \<^item> Log (\<^verbatim>\<open>log.c\<close>): Shown: a crash at any disk write of \<^verbatim>\<open>commit\<close> leaves all or nothing of the transaction after recovery;
    \<^verbatim>\<open>end_op\<close> makes it durable; \<^verbatim>\<open>log_write\<close> absorbs; the reservation of \<^verbatim>\<open>begin_op\<close> is one block too large.
  \<^item> Pipe (\<^verbatim>\<open>pipe.c\<close>, the file table of \<^verbatim>\<open>file.c\<close>): the ring is a bounded queue; readers and writers never
    block each other for good.
  \<^item> Txn: the interface \<open>block_store\<close> between file system and log, and its interpretation on the two.
  \<^item> Fs (\<^verbatim>\<open>fs.c\<close>, \<^verbatim>\<open>fs.h\<close>) holds the operations; Balloc, Icache, Fileio and Dir show what they do: \<^verbatim>\<open>balloc\<close> takes the
    least free block, the inode cache has one entry per inode, \<^verbatim>\<open>writei\<close> and \<^verbatim>\<open>readi\<close> are splicing and slicing of
    byte lists, and directories are lists of entries.
  \<^item> Vm (\<^verbatim>\<open>vm.c\<close>, \<^verbatim>\<open>mmu.h\<close>) holds the operations; Pagetable shows \<^verbatim>\<open>mappages\<close> in terms of the hardware's translation.
  \<^item> File, Proc, Syscall, Sysfile (\<^verbatim>\<open>file.c\<close>, \<^verbatim>\<open>proc.c\<close>, \<^verbatim>\<open>syscall.c\<close>, \<^verbatim>\<open>sysproc.c\<close>, \<^verbatim>\<open>sysfile.c\<close>, \<^verbatim>\<open>exec.c\<close>): every system
    call down to the disk; Args shows that arguments from user memory neither fault nor reach outside the
    process.  The bodies of these calls are definitions that later parts run; no lemma describes \<^verbatim>\<open>fork\<close>, \<^verbatim>\<open>exec\<close> or
    the path operations as a whole.
  \<^item> Kbd, Console, Trap (\<^verbatim>\<open>kbd.c\<close>, \<^verbatim>\<open>console.c\<close>, \<^verbatim>\<open>uart.c\<close>, \<^verbatim>\<open>trap.c\<close>): the console refines a line editor on lists, a read gets
    the next line, user code can enter only the system call gate, and a fault kills its process.
  \<^item> Mp (\<^verbatim>\<open>mp.c\<close>): the processors found in every table of known entries, and the endless loop on any other.
  \<^item> Grep, Ulib, Sh (\<^verbatim>\<open>grep.c\<close>, \<^verbatim>\<open>ulib.c\<close>, \<^verbatim>\<open>printf.c\<close>, the parser of \<^verbatim>\<open>sh.c\<close>): the matcher decides its
    regular expressions, printed numbers are right, and the shell reads back every command that is printed.

  \<^bold>\<open>Interfaces.\<close>  \<open>invariant_system\<close> (step relations with an invariant) is interpreted on the spin lock and the pipe,
  \<open>bounded_queue\<close> on the pipe's ring, \<open>page_allocator\<close> on \<^verbatim>\<open>kalloc\<close> and \<^verbatim>\<open>kfree\<close>, and \<open>block_store\<close> on the log.

  \<^bold>\<open>Bounds.\<close>  Loops with a bound in the code recurse on it or have a termination proof.  The parser of the shell counts
  nested calls, from four times the length of its line, which the property on its end shows to be enough.  The loop of
  \<^verbatim>\<open>mpinit\<close> counts rounds up to \<open>2 ^ 16\<close>: a table has fewer than that many bytes, and every known entry takes
  eight or more; a table in the last 64 kilobytes of the address space, where pointers wrap around, is outside of this
  count.  Walks of linked lists that might not end yield \<open>Hang\<close> or \<open>None\<close>.  Several theorems start
  from \<open>cpu_ok\<close>, which asks that the saved interrupt flag agrees with the processor's outside of every
  \<^verbatim>\<open>pushcli\<close>; there the saved flag is not read before it is set again.

  \<^bold>\<open>Not modelled.\<close>  Assembly and the boot loader (\<^verbatim>\<open>*.S\<close>, \<^verbatim>\<open>bootmain.c\<close>), and \<^verbatim>\<open>main.c\<close>, which calls the initialisation
  functions in order and starts the other CPUs; device registers (\<^verbatim>\<open>ide.c\<close>, \<^verbatim>\<open>lapic.c\<close>, \<^verbatim>\<open>ioapic.c\<close>, \<^verbatim>\<open>picirq.c\<close>), whose
  effect is outside of memory; \<^verbatim>\<open>panic\<close>, which is an outcome; the allocator \<^verbatim>\<open>umalloc.c\<close>; the host program \<^verbatim>\<open>mkfs.c\<close>; the
  user programs that only loop over system calls, and the tests.  Interleaving of CPUs is modelled for the
  spin lock and the pipe; elsewhere a function runs alone between its locks.
\<close>

end
